(* ===== verification/Sponge_Prelude.thy ===== *)
theory Sponge_Prelude
  imports Main "HOL-Library.Word"
begin

text \<open>
  Shared ground of the development: bytes and byte strings, the 64-bit unsigned
  arithmetic of \<open>size_t\<close> and \<open>uint64_t\<close>, and the generic lemmas on lists that the
  components use.

  A \<open>std::string\<close>, a \<open>std::list<char>\<close> and the bytes of a \<open>Buffer\<close> are lists of
  8-bit words. A \<open>size_t\<close> or \<open>uint64_t\<close> is a natural number below \<open>2 ^ 64\<close>; sums and
  differences of such values are \<open>u64_add\<close> and \<open>u64_sub\<close>, which wrap around the way
  the C++ operators do. Narrower integers (8, 16 and 32 bits) are words.
\<close>

named_theorems u64_simps \<open>evaluation of the 64-bit operations when nothing wraps\<close>

type_synonym byte = "8 word"
type_synonym bytes = "byte list"
type_synonym u64 = nat

subsection \<open>64-bit unsigned arithmetic\<close>

definition two64 :: nat where
  "two64 = 2 ^ 64"

definition u64_add :: "u64 \<Rightarrow> u64 \<Rightarrow> u64" where
  "u64_add a b = (a + b) mod two64"

definition u64_sub :: "u64 \<Rightarrow> u64 \<Rightarrow> u64" where
  "u64_sub a b = (a + (two64 - b mod two64)) mod two64"

lemma two64_pos [simp]: "0 < two64"
  by (simp add: two64_def)

lemma two64_neq_0 [simp]: "two64 \<noteq> 0"
  by (simp add: two64_def)

lemma u64_add_less [simp]: "u64_add a b < two64"
  by (simp add: u64_add_def)

lemma u64_sub_less [simp]: "u64_sub a b < two64"
  by (simp add: u64_sub_def)

lemma u64_add_exact [u64_simps]: "a + b < two64 \<Longrightarrow> u64_add a b = a + b"
  by (simp add: u64_add_def)

lemma u64_sub_exact [u64_simps]:
  assumes "b \<le> a" "a < two64"
  shows "u64_sub a b = a - b"
proof -
  have "a + (two64 - b) = (a - b) + two64"
    using assms by simp
  then have "u64_sub a b = ((a - b) + two64) mod two64"
    using assms by (simp add: u64_sub_def)
  also have "\<dots> = a - b"
    using assms by (simp only: mod_add_self2) simp
  finally show ?thesis .
qed

text \<open>A difference taken in the wrong order wraps to a value near \<open>2 ^ 64\<close>.\<close>

lemma u64_sub_wraps:
  assumes "a < b" "b < two64"
  shows "u64_sub a b = two64 - (b - a)"
proof -
  have "a + (two64 - b) = two64 - (b - a)"
    using assms by simp
  then show ?thesis
    using assms by (simp add: u64_sub_def)
qed

lemma u64_sub_add_cancel:
  assumes "a < two64"
  shows "u64_sub (u64_add a b) b = a"
proof -
  have le: "b mod two64 \<le> two64"
    using mod_less_divisor[OF two64_pos, of b] by (rule less_imp_le)
  have "u64_sub (u64_add a b) b = ((a + b mod two64) mod two64 + (two64 - b mod two64)) mod two64"
    by (simp add: u64_sub_def u64_add_def mod_add_right_eq)
  also have "\<dots> = (a + b mod two64 + (two64 - b mod two64)) mod two64"
    by (rule mod_add_left_eq)
  also have "a + b mod two64 + (two64 - b mod two64) = a + two64"
    using le by simp
  finally show ?thesis
    using assms by simp
qed

lemma u64_add_sub_cancel:
  assumes "a < two64"
  shows "u64_add (u64_sub a b) b = a"
proof -
  have le: "b mod two64 \<le> two64"
    using mod_less_divisor[OF two64_pos, of b] by (rule less_imp_le)
  have "u64_add (u64_sub a b) b = ((a + (two64 - b mod two64)) mod two64 + b mod two64) mod two64"
    by (simp add: u64_sub_def u64_add_def mod_add_right_eq)
  also have "\<dots> = (a + (two64 - b mod two64) + b mod two64) mod two64"
    by (rule mod_add_left_eq)
  also have "a + (two64 - b mod two64) + b mod two64 = a + two64"
    using le by linarith
  finally show ?thesis
    using assms by simp
qed

lemma u64_add_assoc: "u64_add (u64_add a b) c = u64_add a (u64_add b c)"
  by (simp add: u64_add_def mod_add_left_eq mod_add_right_eq add.assoc)

lemma u64_add_mod: "u64_add (a mod two64) b = (a + b) mod two64"
  by (simp add: u64_add_def mod_add_left_eq)

lemma u64_add_0 [simp]: "a < two64 \<Longrightarrow> u64_add a 0 = a"
  by (simp add: u64_add_def)

lemma u64_sub_0 [simp]: "a < two64 \<Longrightarrow> u64_sub a 0 = a"
  by (simp add: u64_sub_def)

lemma u64_sub_self [simp]: "a < two64 \<Longrightarrow> u64_sub a a = 0"
  by (simp add: u64_sub_exact)

subsection \<open>Segments of a list\<close>

text \<open>
  \<open>excerpt S i d\<close>: the bytes \<open>d\<close> stand at position \<open>i\<close> of the byte sequence \<open>S\<close>.
  Streams, stored fragments and payloads are all described by it.
\<close>

definition excerpt :: "'a list \<Rightarrow> nat \<Rightarrow> 'a list \<Rightarrow> bool" where
  "excerpt S i d \<longleftrightarrow> i + length d \<le> length S \<and> take (length d) (drop i S) = d"

lemma excerpt_Nil [simp]: "excerpt S i [] \<longleftrightarrow> i \<le> length S"
  by (simp add: excerpt_def)

lemma excerpt_length: "excerpt S i d \<Longrightarrow> i + length d \<le> length S"
  by (simp add: excerpt_def)

lemma excerpt_take_append:
  assumes "excerpt S i d"
  shows "take i S @ d = take (i + length d) S"
proof -
  have "take (i + length d) S = take i S @ take (length d) (drop i S)"
    by (rule take_add)
  then show ?thesis
    using assms by (simp add: excerpt_def)
qed

lemma excerpt_drop:
  assumes "excerpt S i d" "k \<le> length d"
  shows "excerpt S (i + k) (drop k d)"
proof -
  have "drop k (take (length d) (drop i S)) = take (length d - k) (drop (i + k) S)"
    by (simp add: drop_take add.commute)
  then have "take (length d - k) (drop (i + k) S) = drop k d"
    using assms(1) by (metis excerpt_def)
  then show ?thesis
    using assms by (simp add: excerpt_def)
qed

lemma excerpt_take:
  assumes "excerpt S i d"
  shows "excerpt S i (take k d)"
proof -
  have d: "take (length d) (drop i S) = d"
    using assms by (simp add: excerpt_def)
  have "take (min (length d) k) (drop i S) = take k d"
    by (subst d[symmetric]) (simp add: min.commute)
  then show ?thesis
    using assms by (auto simp: excerpt_def)
qed

lemma excerpt_append:
  assumes "excerpt S i d" "excerpt S (i + length d) e"
  shows "excerpt S i (d @ e)"
  using assms by (simp add: excerpt_def take_add add.commute add.left_commute)

text \<open>Two overlapping pieces of one sequence join into one piece.\<close>

lemma excerpt_merge:
  assumes "excerpt S i d" "excerpt S j e" "i \<le> j" "j \<le> i + length d"
    and "i + length d \<le> j + length e"
  shows "excerpt S i (d @ drop (i + length d - j) e)"
proof -
  have "excerpt S (j + (i + length d - j)) (drop (i + length d - j) e)"
    using assms by (intro excerpt_drop) auto
  then have "excerpt S (i + length d) (drop (i + length d - j) e)"
    using assms by simp
  with assms(1) show ?thesis
    by (rule excerpt_append)
qed

text \<open>Two pieces at the same place are prefixes of one another.\<close>

lemma excerpt_unique:
  assumes "excerpt S i d" "excerpt S i e" "length d = length e"
  shows "d = e"
  using assms by (metis excerpt_def)

text \<open>\<open>std::string::resize\<close>: cut off, or extended with null characters.\<close>

definition str_resize :: "byte list \<Rightarrow> nat \<Rightarrow> byte list" where
  "str_resize s n = take n s @ replicate (n - length s) 0"

lemma length_str_resize [simp]: "length (str_resize s n) = n"
  by (simp add: str_resize_def)

lemma str_resize_extend: "length s \<le> n \<Longrightarrow> str_resize s n = s @ replicate (n - length s) 0"
  by (simp add: str_resize_def)

subsection \<open>Exceptions\<close>

text \<open>A call that may throw returns \<open>Inl\<close> the exception or \<open>Inr\<close> its value.\<close>

datatype cpp_error =
    OutOfRange string
  | RuntimeError string
  | InvalidArgument string
  | TaggedError string string int

definition throw_bind :: "'e + 'a \<Rightarrow> ('a \<Rightarrow> 'e + 'b) \<Rightarrow> 'e + 'b" where
  "throw_bind x f = (case x of Inl e \<Rightarrow> Inl e | Inr a \<Rightarrow> f a)"

lemma throw_bind_simps [simp]:
  "throw_bind (Inl e) f = Inl e"
  "throw_bind (Inr a) f = f a"
  by (simp_all add: throw_bind_def)

text \<open>A call that may also fail to return: \<open>None\<close> is not returning.\<close>

definition ret_bind :: "('e + 'a) option \<Rightarrow> ('a \<Rightarrow> ('e + 'b) option) \<Rightarrow> ('e + 'b) option" where
  "ret_bind x f = (case x of None \<Rightarrow> None | Some (Inl e) \<Rightarrow> Some (Inl e) | Some (Inr a) \<Rightarrow> f a)"

lemma ret_bind_simps [simp]:
  "ret_bind None f = None"
  "ret_bind (Some (Inl e)) f = Some (Inl e)"
  "ret_bind (Some (Inr a)) f = f a"
  by (simp_all add: ret_bind_def)

text \<open>Loops written with it are monotone, as \<open>partial_function\<close> requires.\<close>

lemma ret_bind_mono [partial_function_mono]:
  assumes "mono_option f" "\<And>y. mono_option (\<lambda>x. g x y)"
  shows "mono_option (\<lambda>x. ret_bind (f x) (g x))"
proof -
  have "ret_bind (f x) (g x) = Option.bind (f x) (\<lambda>s. case s of Inl e \<Rightarrow> Some (Inl e) | Inr a \<Rightarrow> g x a)" for x
    by (cases "f x") (auto simp: ret_bind_def split: sum.splits)
  moreover have "mono_option (\<lambda>x. case s of Inl e \<Rightarrow> Some (Inl e) | Inr a \<Rightarrow> g x a)" for s
    using assms(2) by (cases s) (simp_all add: option.const_mono)
  ultimately show ?thesis
    using bind_mono[OF assms(1), of "\<lambda>s x. case s of Inl e \<Rightarrow> Some (Inl e) | Inr a \<Rightarrow> g x a"] by simp
qed

subsection \<open>Lists\<close>

text \<open>\<open>std::list::erase\<close> at a position.\<close>

definition erase_at :: "nat \<Rightarrow> 'a list \<Rightarrow> 'a list" where
  "erase_at i xs = take i xs @ drop (Suc i) xs"

end
