(* ===== verification/Byte_Stream.thy ===== *)
theory Byte_Stream
  imports Sponge_Prelude
begin

text \<open>
  The flow-controlled in-memory byte stream (\<open>libsponge/byte_stream.hh\<close> and
  \<open>byte_stream.cc\<close>): its state \<open>ByteStream\<close>, one definition per method, the invariant
  \<open>bs_inv\<close> that every method keeps, the interface \<open>bounded_stream\<close> that the
  reassembler and the sender rely on, and the refinement of an unbounded log with a
  read position.
\<close>

subsection \<open>State\<close>

record ByteStream =
  bs_error :: bool
  bs_input_ended :: bool
  bs_capacity :: u64
  bs_buffer_size :: u64
  bs_bytes_written :: u64
  bs_bytes_read :: u64
  bs_stream :: bytes

subsection \<open>Methods\<close>

definition bs_new :: "u64 \<Rightarrow> ByteStream" where
  "bs_new capacity = \<lparr>bs_error = False, bs_input_ended = False, bs_capacity = capacity,
     bs_buffer_size = 0, bs_bytes_written = 0, bs_bytes_read = 0, bs_stream = []\<rparr>"

definition bs_push_back :: "byte \<Rightarrow> ByteStream \<Rightarrow> ByteStream" where
  "bs_push_back c bs = bs\<lparr>bs_stream := bs_stream bs @ [c],
     bs_buffer_size := u64_add (bs_buffer_size bs) 1,
     bs_bytes_written := u64_add (bs_bytes_written bs) 1\<rparr>"

definition bs_write :: "ByteStream \<Rightarrow> bytes \<Rightarrow> u64 \<times> ByteStream" where
  "bs_write bs data =
     (let remaining_capacity = u64_sub (bs_capacity bs) (bs_buffer_size bs) in
      if remaining_capacity = 0 \<or> length data = 0 then (0, bs)
      else
        let writeable_size =
              (if length data > remaining_capacity then remaining_capacity else length data)
        in (writeable_size, fold bs_push_back (take writeable_size data) bs))"

definition bs_peek_output :: "ByteStream \<Rightarrow> u64 \<Rightarrow> bytes" where
  "bs_peek_output bs len =
     (let peek_len = (if len > bs_buffer_size bs then bs_buffer_size bs else len)
      in take peek_len (bs_stream bs))"

definition bs_pop_output :: "ByteStream \<Rightarrow> u64 \<Rightarrow> ByteStream" where
  "bs_pop_output bs len =
     (let pop_len = (if len > bs_buffer_size bs then bs_buffer_size bs else len)
      in bs\<lparr>bs_stream := drop pop_len (bs_stream bs),
            bs_buffer_size := u64_sub (bs_buffer_size bs) pop_len,
            bs_bytes_read := u64_add (bs_bytes_read bs) pop_len\<rparr>)"

definition bs_read :: "ByteStream \<Rightarrow> u64 \<Rightarrow> bytes \<times> ByteStream" where
  "bs_read bs len =
     (if len = 0 then ([], bs)
      else (bs_peek_output bs len, bs_pop_output bs len))"

definition bs_end_input :: "ByteStream \<Rightarrow> ByteStream" where
  "bs_end_input bs = bs\<lparr>bs_input_ended := True\<rparr>"

definition bs_set_error :: "ByteStream \<Rightarrow> ByteStream" where
  "bs_set_error bs = bs\<lparr>bs_error := True\<rparr>"

definition bs_buffer_empty :: "ByteStream \<Rightarrow> bool" where
  "bs_buffer_empty bs \<longleftrightarrow> length (bs_stream bs) = 0"

definition bs_eof :: "ByteStream \<Rightarrow> bool" where
  "bs_eof bs \<longleftrightarrow> bs_input_ended bs \<and> bs_buffer_empty bs"

definition bs_remaining_capacity :: "ByteStream \<Rightarrow> u64" where
  "bs_remaining_capacity bs = u64_sub (bs_capacity bs) (bs_buffer_size bs)"

subsection \<open>Invariant\<close>

definition bs_inv :: "ByteStream \<Rightarrow> bool" where
  "bs_inv bs \<longleftrightarrow>
     bs_buffer_size bs = length (bs_stream bs) \<and>
     length (bs_stream bs) \<le> bs_capacity bs \<and>
     bs_capacity bs < two64 \<and>
     bs_bytes_read bs < two64 \<and>
     bs_bytes_written bs = u64_add (bs_bytes_read bs) (length (bs_stream bs))"

text \<open>The methods as the calls of a client, and what each call hands over and returns.\<close>

datatype bs_call =
    CallWrite bytes
  | CallEndInput
  | CallSetError
  | CallPop nat
  | CallRead nat

datatype bs_result = Accepted nat | Returned bytes | Done

fun bs_step :: "ByteStream \<Rightarrow> bs_call \<Rightarrow> bs_result \<times> ByteStream" where
  "bs_step bs (CallWrite d) = (case bs_write bs d of (n, bs') \<Rightarrow> (Accepted n, bs'))"
| "bs_step bs CallEndInput = (Done, bs_end_input bs)"
| "bs_step bs CallSetError = (Done, bs_set_error bs)"
| "bs_step bs (CallPop n) = (Done, bs_pop_output bs n)"
| "bs_step bs (CallRead n) = (case bs_read bs n of (d, bs') \<Rightarrow> (Returned d, bs'))"

fun bs_run :: "ByteStream \<Rightarrow> bs_call list \<Rightarrow> bs_result list \<times> ByteStream" where
  "bs_run bs [] = ([], bs)"
| "bs_run bs (c # cs) =
     (case bs_step bs c of (r, bs1) \<Rightarrow> case bs_run bs1 cs of (rs, bs2) \<Rightarrow> (r # rs, bs2))"

subsection \<open>Abstract specification: a log and a read position\<close>

record stream_log =
  log_written :: bytes
  log_taken :: nat
  log_ended :: bool
  log_failed :: bool
  log_capacity :: nat

definition log_new :: "nat \<Rightarrow> stream_log" where
  "log_new c = \<lparr>log_written = [], log_taken = 0, log_ended = False, log_failed = False,
     log_capacity = c\<rparr>"

definition log_pending :: "stream_log \<Rightarrow> bytes" where
  "log_pending l = drop (log_taken l) (log_written l)"

text \<open>The log follows the documentation of the class: the writer can end the input, and then no
  more bytes can be written.\<close>

fun log_step :: "stream_log \<Rightarrow> bs_call \<Rightarrow> bs_result \<times> stream_log" where
  "log_step l (CallWrite d) =
     (let n = (if log_ended l then 0 else min (length d) (log_capacity l - length (log_pending l)))
      in (Accepted n, l\<lparr>log_written := log_written l @ take n d\<rparr>))"
| "log_step l CallEndInput = (Done, l\<lparr>log_ended := True\<rparr>)"
| "log_step l CallSetError = (Done, l\<lparr>log_failed := True\<rparr>)"
| "log_step l (CallPop n) =
     (Done, l\<lparr>log_taken := min (log_taken l + n) (length (log_written l))\<rparr>)"
| "log_step l (CallRead n) =
     (Returned (take n (log_pending l)),
      l\<lparr>log_taken := min (log_taken l + n) (length (log_written l))\<rparr>)"

fun log_run :: "stream_log \<Rightarrow> bs_call list \<Rightarrow> bs_result list \<times> stream_log" where
  "log_run l [] = ([], l)"
| "log_run l (c # cs) =
     (case log_step l c of (r, l1) \<Rightarrow> case log_run l1 cs of (rs, l2) \<Rightarrow> (r # rs, l2))"

text \<open>A writer that writes nothing more once it has ended the input.\<close>

fun writes_before_end :: "bool \<Rightarrow> bs_call list \<Rightarrow> bool" where
  "writes_before_end ended [] \<longleftrightarrow> True"
| "writes_before_end ended (c # cs) \<longleftrightarrow>
     (case c of CallWrite d \<Rightarrow> (ended \<longrightarrow> d = []) \<and> writes_before_end ended cs
      | CallEndInput \<Rightarrow> writes_before_end True cs
      | _ \<Rightarrow> writes_before_end ended cs)"

text \<open>How a stream represents a log: the buffer is what was written and not yet taken,
  the counters are the log's lengths modulo \<open>2 ^ 64\<close>.\<close>

definition bs_abs :: "ByteStream \<Rightarrow> stream_log \<Rightarrow> bool" where
  "bs_abs bs l \<longleftrightarrow>
     bs_stream bs = log_pending l \<and> log_taken l \<le> length (log_written l) \<and>
     bs_bytes_written bs = length (log_written l) mod two64 \<and>
     bs_bytes_read bs = log_taken l mod two64 \<and>
     bs_input_ended bs = log_ended l \<and> bs_error bs = log_failed l \<and>
     bs_capacity bs = log_capacity l"

subsection \<open>Behaviour of each method\<close>

lemma fold_push_back:
  assumes "bs_buffer_size bs + length d < two64"
  shows "fold bs_push_back d bs =
     bs\<lparr>bs_stream := bs_stream bs @ d,
        bs_buffer_size := bs_buffer_size bs + length d,
        bs_bytes_written := (if d = [] then bs_bytes_written bs
                             else u64_add (bs_bytes_written bs) (length d))\<rparr>"
  using assms
proof (induction d arbitrary: bs)
  case Nil
  then show ?case by simp
next
  case (Cons c d)
  have 1: "u64_add (bs_buffer_size bs) 1 = Suc (bs_buffer_size bs)"
    using Cons.prems by (simp add: u64_add_exact)
  have 2: "u64_add (u64_add (bs_bytes_written bs) 1) (length d) =
      u64_add (bs_bytes_written bs) (Suc (length d))"
    by (simp add: u64_add_def mod_simps)
  show ?case
    using Cons.prems Cons.IH[of "bs_push_back c bs"] 1 2
    by (simp add: bs_push_back_def)
qed

lemma bs_inv_room:
  assumes "bs_inv bs"
  shows "bs_remaining_capacity bs = bs_capacity bs - length (bs_stream bs)"
  using assms by (simp add: bs_inv_def bs_remaining_capacity_def u64_sub_exact)

lemma bs_write_eq:
  fixes bs :: ByteStream and d :: bytes
  assumes "bs_inv bs"
  defines "n \<equiv> min (length d) (bs_capacity bs - length (bs_stream bs))"
  shows "bs_write bs d =
    (n, bs\<lparr>bs_stream := bs_stream bs @ take n d,
           bs_buffer_size := length (bs_stream bs) + n,
           bs_bytes_written := u64_add (bs_bytes_written bs) n\<rparr>)"
proof (cases "n = 0")
  case True
  have lt: "bs_bytes_written bs < two64"
    using assms(1) by (simp add: bs_inv_def)
  have "bs_write bs d = (0, bs)"
    using True assms(1)
    by (auto simp: bs_write_def n_def bs_inv_def u64_sub_exact Let_def min_def split: if_splits)
  then show ?thesis
    using True lt assms(1) by (simp add: bs_inv_def)
next
  case False
  have cap: "u64_sub (bs_capacity bs) (bs_buffer_size bs) = bs_capacity bs - length (bs_stream bs)"
    using assms(1) by (simp add: bs_inv_def u64_sub_exact)
  have w: "bs_write bs d = (n, fold bs_push_back (take n d) bs)"
    using False unfolding bs_write_def cap n_def by (auto simp: min_def Let_def split: if_splits)
  have len: "length (take n d) = n" "take n d \<noteq> []"
    using False by (auto simp: n_def)
  have "bs_buffer_size bs + length (take n d) < two64"
    using assms(1) len by (auto simp: bs_inv_def n_def)
  from fold_push_back[OF this] show ?thesis
    using w len assms(1) by (simp add: bs_inv_def)
qed

lemma bs_peek_eq: "bs_inv bs \<Longrightarrow> bs_peek_output bs n = take n (bs_stream bs)"
  by (auto simp: bs_peek_output_def bs_inv_def)

lemma bs_pop_eq:
  fixes bs :: ByteStream and n :: nat
  assumes "bs_inv bs"
  defines "k \<equiv> min n (length (bs_stream bs))"
  shows "bs_pop_output bs n = bs\<lparr>bs_stream := drop n (bs_stream bs),
     bs_buffer_size := length (bs_stream bs) - k,
     bs_bytes_read := u64_add (bs_bytes_read bs) k\<rparr>"
proof -
  have k: "(if n > bs_buffer_size bs then bs_buffer_size bs else n) = k"
    using assms(1) by (auto simp: k_def bs_inv_def min_def)
  have "drop k (bs_stream bs) = drop n (bs_stream bs)"
    by (simp add: k_def min_def)
  moreover have "u64_sub (bs_buffer_size bs) k = length (bs_stream bs) - k"
    using assms(1) by (auto simp: bs_inv_def k_def u64_sub_exact)
  ultimately show ?thesis
    by (simp add: bs_pop_output_def k Let_def)
qed

lemma bs_read_eq:
  assumes "bs_inv bs"
  shows "bs_read bs n = (take n (bs_stream bs), bs_pop_output bs n)"
proof (cases "n = 0")
  case True
  have "bs_pop_output bs 0 = bs"
    using assms by (simp add: bs_pop_eq) (simp add: bs_inv_def)
  with True show ?thesis by (simp add: bs_read_def)
next
  case False
  then show ?thesis using assms by (simp add: bs_read_def bs_peek_eq)
qed

lemma bs_inv_new: "c < two64 \<Longrightarrow> bs_inv (bs_new c)"
  by (simp add: bs_inv_def bs_new_def)

lemma bs_inv_write:
  assumes "bs_inv bs"
  shows "bs_inv (snd (bs_write bs d))"
  using assms unfolding bs_write_eq[OF assms]
  by (auto simp: bs_inv_def u64_add_assoc u64_add_exact)

lemma bs_inv_pop:
  assumes "bs_inv bs"
  shows "bs_inv (bs_pop_output bs n)"
proof -
  let ?k = "min n (length (bs_stream bs))"
  have "length (bs_stream bs) < two64"
    using assms by (simp add: bs_inv_def)
  then have "u64_add (u64_add (bs_bytes_read bs) ?k) (length (bs_stream bs) - n) =
      u64_add (bs_bytes_read bs) (length (bs_stream bs))"
    by (auto simp: u64_add_assoc u64_add_exact min_def)
  then show ?thesis
    using assms unfolding bs_pop_eq[OF assms] by (auto simp: bs_inv_def)
qed

lemma bs_inv_end_input [simp]: "bs_inv (bs_end_input bs) = bs_inv bs"
  by (simp add: bs_inv_def bs_end_input_def)

lemma bs_inv_set_error [simp]: "bs_inv (bs_set_error bs) = bs_inv bs"
  by (simp add: bs_inv_def bs_set_error_def)

lemma bs_inv_read:
  assumes "bs_inv bs"
  shows "bs_inv (snd (bs_read bs n))"
  using assms by (simp add: bs_read_eq bs_inv_pop)

lemma bs_inv_step: "bs_inv bs \<Longrightarrow> bs_inv (snd (bs_step bs c))"
  using bs_inv_write bs_inv_read bs_inv_pop
  by (cases c) (auto simp: split_beta)

lemma bs_inv_run: "bs_inv bs \<Longrightarrow> bs_inv (snd (bs_run bs cs))"
  by (induction cs arbitrary: bs) (auto simp: split_beta dest: bs_inv_step)

lemma bs_capacity_step: "bs_inv bs \<Longrightarrow> bs_capacity (snd (bs_step bs c)) = bs_capacity bs"
  by (cases c) (auto simp: bs_write_eq bs_read_eq bs_pop_eq bs_end_input_def bs_set_error_def)

lemma bs_capacity_run: "bs_inv bs \<Longrightarrow> bs_capacity (snd (bs_run bs cs)) = bs_capacity bs"
  by (induction cs arbitrary: bs) (simp_all add: split_beta bs_inv_step bs_capacity_step)

subsection \<open>The interface other components use\<close>

text \<open>
  The reassembler writes into a stream and its owner reads from it; the sender reads
  from one its owner writes to. What both rely on is this contract: a bounded queue of
  bytes with its contents, its room and an invariant.
\<close>

locale bounded_stream =
  fixes put :: "'s \<Rightarrow> bytes \<Rightarrow> nat \<times> 's"
    and peek :: "'s \<Rightarrow> nat \<Rightarrow> bytes"
    and pop :: "'s \<Rightarrow> nat \<Rightarrow> 's"
    and room :: "'s \<Rightarrow> nat"
    and contents :: "'s \<Rightarrow> bytes"
    and invar :: "'s \<Rightarrow> bool"
  assumes put_count: "invar s \<Longrightarrow> fst (put s d) = min (length d) (room s)"
    and put_contents: "invar s \<Longrightarrow> contents (snd (put s d)) = contents s @ take (room s) d"
    and put_room: "invar s \<Longrightarrow> room (snd (put s d)) = room s - length d"
    and put_invar: "invar s \<Longrightarrow> invar (snd (put s d))"
    and peek_contents: "invar s \<Longrightarrow> peek s n = take n (contents s)"
    and pop_contents: "invar s \<Longrightarrow> contents (pop s n) = drop n (contents s)"
    and pop_room: "invar s \<Longrightarrow> room (pop s n) = room s + min n (length (contents s))"
    and pop_invar: "invar s \<Longrightarrow> invar (pop s n)"
begin

lemma put_fits:
  assumes "invar s" "length d \<le> room s"
  shows "fst (put s d) = length d" "contents (snd (put s d)) = contents s @ d"
  using assms by (simp_all add: put_count put_contents)

text \<open>What is put is what is later peeked, behind what was there.\<close>

lemma put_then_take_all:
  assumes "invar s" "length d \<le> room s" "length (contents s) + length d \<le> n"
  shows "peek (snd (put s d)) n = contents s @ d"
  using assms by (simp add: peek_contents put_invar put_fits)

lemma peek_pop_split:
  assumes "invar s"
  shows "peek s n @ contents (pop s n) = contents s"
  using assms by (simp add: peek_contents pop_contents)

text \<open>Room and contents always add up to the same capacity.\<close>

lemma put_capacity:
  assumes "invar s"
  shows "room (snd (put s d)) + length (contents (snd (put s d))) = room s + length (contents s)"
  using assms by (simp add: put_room put_contents)

lemma pop_capacity:
  assumes "invar s"
  shows "room (pop s n) + length (contents (pop s n)) = room s + length (contents s)"
  using assms by (simp add: pop_room pop_contents)

end

interpretation bs: bounded_stream bs_write bs_peek_output bs_pop_output
  bs_remaining_capacity bs_stream bs_inv
proof (unfold_locales, goal_cases)
  case (1 s d) then show ?case by (simp add: bs_write_eq bs_inv_room)
next
  case (2 s d) then show ?case
    by (simp add: bs_write_eq bs_inv_room) (simp add: min_def)
next
  case (3 s d)
  then have "bs_inv (snd (bs_write s d))" by (rule bs_inv_write)
  with 3 show ?case by (simp add: bs_inv_room) (simp add: bs_write_eq)
next
  case (4 s d) then show ?case by (rule bs_inv_write)
next
  case (5 s n) then show ?case by (rule bs_peek_eq)
next
  case (6 s n) then show ?case by (simp add: bs_pop_eq)
next
  case (7 s n)
  then have "bs_inv (bs_pop_output s n)" by (rule bs_inv_pop)
  with 7 show ?case
    by (simp add: bs_inv_room) (auto simp: bs_pop_eq bs_inv_def)
next
  case (8 s n) then show ?case by (rule bs_inv_pop)
qed

subsection \<open>Refinement of the log\<close>

lemma bs_abs_new: "bs_abs (bs_new c) (log_new c)"
  by (simp add: bs_abs_def bs_new_def log_new_def log_pending_def)

lemma bs_abs_write:
  assumes "bs_inv bs" "bs_abs bs l" "log_ended l \<longrightarrow> d = []"
  shows "fst (bs_step bs (CallWrite d)) = fst (log_step l (CallWrite d))"
    and "bs_abs (snd (bs_step bs (CallWrite d))) (snd (log_step l (CallWrite d)))"
  using assms
  by (auto simp: bs_write_eq bs_abs_def Let_def log_pending_def u64_add_mod min.commute)

lemma bs_abs_pop:
  assumes "bs_inv bs" "bs_abs bs l"
  shows "bs_abs (bs_pop_output bs n)
    (l\<lparr>log_taken := min (log_taken l + n) (length (log_written l))\<rparr>)"
proof -
  have "log_taken l + min n (length (bs_stream bs)) =
      min (log_taken l + n) (length (log_written l))"
    using assms(2) by (auto simp: bs_abs_def log_pending_def)
  then show ?thesis
    using assms
    by (auto simp: bs_pop_eq bs_abs_def log_pending_def u64_add_mod min_def add.commute)
qed

lemma bs_abs_step:
  assumes "bs_inv bs" "bs_abs bs l" "writes_before_end (log_ended l) (c # cs)"
  shows "fst (bs_step bs c) = fst (log_step l c) \<and> bs_abs (snd (bs_step bs c)) (snd (log_step l c))"
proof (cases c)
  case (CallWrite d)
  then show ?thesis using bs_abs_write[OF assms(1,2)] assms(3) by simp
next
  case CallEndInput
  then show ?thesis using assms by (auto simp: bs_abs_def bs_end_input_def log_pending_def)
next
  case CallSetError
  then show ?thesis using assms by (auto simp: bs_abs_def bs_set_error_def log_pending_def)
next
  case (CallPop n)
  then show ?thesis using bs_abs_pop[OF assms(1,2)] by simp
next
  case (CallRead n)
  have "bs_stream bs = log_pending l" using assms(2) by (simp add: bs_abs_def)
  then show ?thesis using CallRead bs_abs_pop[OF assms(1,2)] assms(1) by (simp add: bs_read_eq)
qed

lemma writes_before_end_step:
  "writes_before_end (log_ended l) (c # cs) \<Longrightarrow> writes_before_end (log_ended (snd (log_step l c))) cs"
  by (cases c) (simp_all add: Let_def)

lemma bs_abs_run:
  assumes "bs_inv bs" "bs_abs bs l" "writes_before_end (log_ended l) cs"
  shows "fst (bs_run bs cs) = fst (log_run l cs) \<and> bs_abs (snd (bs_run bs cs)) (snd (log_run l cs))"
  using assms
proof (induction cs arbitrary: bs l)
  case Nil
  then show ?case by simp
next
  case (Cons c cs)
  note step = bs_abs_step[OF Cons.prems] and inv = bs_inv_step[OF Cons.prems(1), of c]
    and rest = writes_before_end_step[OF Cons.prems(3)]
  show ?case
    using step Cons.IH[OF inv _ rest] by (simp add: split_beta)
qed

subsection \<open>Properties\<close>

text \<open>
  C8. A byte stream refines the log: for every sequence of calls on a new stream of any
  capacity in which no bytes are written after the input was ended, each call returns what
  the log returns (how many bytes a write accepted, which bytes a read returned), and the
  resulting stream represents the resulting log, so bytes come out exactly once, in the order
  in which they went in, and the counters are the numbers of bytes written and read modulo
  \<open>2 ^ 64\<close>.
\<close>

theorem bs_refines_log:
  assumes "c < two64" "writes_before_end False cs"
  shows "fst (bs_run (bs_new c) cs) = fst (log_run (log_new c) cs) \<and>
    bs_abs (snd (bs_run (bs_new c) cs)) (snd (log_run (log_new c) cs))"
  using bs_abs_run[OF bs_inv_new[OF assms(1)] bs_abs_new] assms(2) by (simp add: log_new_def)

theorem bs_refines_log_witness:
  "fst (bs_run (bs_new 3) [CallWrite [1, 2, 3, 4], CallRead 2, CallWrite [5, 6, 7], CallEndInput,
      CallWrite [], CallRead 9, CallRead 1]) =
    [Accepted 3, Returned [1, 2], Accepted 2, Done, Accepted 0, Returned [3, 5, 6], Returned []]"
proof -
  have 1: "(3::nat) < two64" by (simp add: two64_def)
  have 2: "writes_before_end False [CallWrite [1, 2, 3, 4], CallRead 2, CallWrite [5, 6, 7], CallEndInput,
      CallWrite [], CallRead 9, CallRead 1]"
    by simp
  from bs_refines_log[OF 1 2] show ?thesis by (simp add: log_new_def log_pending_def Let_def)
qed

text \<open>
  The hypothesis on the writer is needed: the code does not refuse a write after the input was
  ended, as long as there is room, although the documentation of the class says that no more
  bytes can be written then; a reader that has seen the end of the stream sees bytes again.
\<close>

lemma bs_write_after_end:
  assumes "bs_inv bs" "bs_eof bs" "d \<noteq> []" "length d \<le> bs_capacity bs"
  shows "fst (bs_write bs d) = length d \<and> \<not> bs_eof (snd (bs_write bs d)) \<and>
    bs_peek_output (snd (bs_write bs d)) (length d) = d"
  using assms bs_inv_write[OF assms(1), of d]
  by (auto simp: bs_peek_eq) (auto simp: bs_write_eq bs_eof_def bs_buffer_empty_def)

text \<open>
  C33. Every method keeps the representation invariant, for every sequence of calls: the
  stored size is the length of the buffer, the buffer never exceeds the capacity, and the
  number of bytes written is the number read plus the number buffered.
\<close>

theorem bs_run_invariant:
  assumes "c < two64"
  shows "bs_inv (snd (bs_run (bs_new c) cs)) \<and> bs_capacity (snd (bs_run (bs_new c) cs)) = c"
proof
  show "bs_inv (snd (bs_run (bs_new c) cs))"
    by (intro bs_inv_run bs_inv_new assms)
next
  show "bs_capacity (snd (bs_run (bs_new c) cs)) = c"
    using bs_capacity_run[OF bs_inv_new[OF assms]] by (simp add: bs_new_def)
qed

theorem bs_run_invariant_witness:
  "bs_inv (snd (bs_run (bs_new 2) [CallWrite [7, 8, 9], CallPop 1])) \<and>
   bs_capacity (snd (bs_run (bs_new 2) [CallWrite [7, 8, 9], CallPop 1])) = 2"
proof -
  have "(2::nat) < two64" by (simp add: two64_def)
  then show ?thesis by (rule bs_run_invariant)
qed

end
