(* ===== verification/Stream_Reassembler.thy ===== *)
theory Stream_Reassembler
  imports Byte_Stream
begin

text \<open>
  The stream reassembler (\<open>libsponge/stream_reassembler.hh\<close> and
  \<open>stream_reassembler.cc\<close>): fragments of a byte stream arrive in any order and the
  contiguous part goes to an output \<open>ByteStream\<close>. This theory holds the model and the
  facts about single operations; \<open>Reassembler_Safety\<close> and \<open>Reassembler_Progress\<close> hold
  the correctness proofs.

  The scan over the stored fragments in \<open>missing_middle_handler\<close> restarts from the
  front by assigning \<open>--begin()\<close> to the iterator, whose increment is \<open>begin()\<close> on the
  circular list of the C++ library; a restart is a call at position 0. The scan may run
  forever, so it is a partial function whose value is \<open>None\<close> when it does not return.
\<close>

subsection \<open>State\<close>

record datagram =
  dg_data :: bytes
  dg_index :: u64
  dg_size :: u64
  dg_eof :: bool

record StreamReassembler =
  sr_output :: ByteStream
  sr_capacity :: u64
  sr_next_assembling_index :: u64
  sr_smallest_temporty_index :: u64
  sr_unassembled_bytes :: u64
  sr_storage :: "datagram list"

subsection \<open>Operations\<close>

definition sr_new :: "u64 \<Rightarrow> StreamReassembler" where
  "sr_new capacity = \<lparr>sr_output = bs_new capacity, sr_capacity = capacity,
     sr_next_assembling_index = 0, sr_smallest_temporty_index = 0,
     sr_unassembled_bytes = 0, sr_storage = []\<rparr>"

definition sr_first_unassemble_byte_index :: "StreamReassembler \<Rightarrow> u64" where
  "sr_first_unassemble_byte_index r =
     (case sr_storage r of [] \<Rightarrow> 0 | d # _ \<Rightarrow> dg_index d)"

definition sr_unassembled :: "StreamReassembler \<Rightarrow> u64" where
  "sr_unassembled r = sr_unassembled_bytes r"

definition sr_empty :: "StreamReassembler \<Rightarrow> bool" where
  "sr_empty r \<longleftrightarrow> sr_unassembled r \<noteq> 0"

definition overlap_merger :: "datagram \<Rightarrow> datagram \<Rightarrow> datagram" where
  "overlap_merger dg1 dg2 =
     (let start_at = u64_sub (u64_add (dg_index dg1) (dg_size dg1)) (dg_index dg2) in
      if start_at = 0 then dg1
      else
        let non_overlap_part = drop start_at (dg_data dg2)
        in dg1\<lparr>dg_data := dg_data dg1 @ non_overlap_part,
               dg_size := u64_add (dg_size dg1) (length non_overlap_part)\<rparr>)"

definition overlap_handler :: "StreamReassembler \<Rightarrow> datagram \<Rightarrow> bool \<times> StreamReassembler" where
  "overlap_handler r new_dg =
     (let start_at = u64_sub (sr_next_assembling_index r) (dg_index new_dg);
          non_overlap_part = drop start_at (dg_data new_dg);
          out' = snd (bs_write (sr_output r) non_overlap_part);
          next' = u64_add (sr_next_assembling_index r) (length non_overlap_part)
      in (next' > bs_bytes_written out',
          r\<lparr>sr_output := out', sr_next_assembling_index := next'\<rparr>))"

datatype scan_result =
    ScanReturn "datagram list" u64
  | ScanBreak datagram "datagram list" u64

partial_function (option) mm_scan ::
    "nat \<Rightarrow> datagram \<Rightarrow> datagram list \<Rightarrow> u64 \<Rightarrow> scan_result option" where
  "mm_scan i dg st un =
     (if i \<ge> length st then Some (ScanBreak dg st un)
      else
        let ptr = st ! i;
            ptr_tail = u64_add (dg_index ptr) (dg_size ptr);
            dg_tail = u64_add (dg_size dg) (dg_index dg)
        in
        if dg_index dg = dg_index ptr \<and> ptr_tail = dg_tail then Some (ScanReturn st un)
        else if dg_index dg > dg_index ptr \<and> dg_tail > ptr_tail then Some (ScanBreak dg st un)
        else if dg_index dg > dg_index ptr \<and> dg_index dg < ptr_tail then
          (if dg_tail \<le> ptr_tail then Some (ScanReturn st un)
           else
             let merged = overlap_merger ptr dg
             in mm_scan 0 merged (erase_at i st) (u64_sub un (dg_size merged)))
        else if dg_index dg < dg_index ptr \<and> dg_index ptr < dg_tail then
          (let dg' = (if ptr_tail \<le> dg_tail then dg else overlap_merger dg ptr);
               un' = u64_sub un (dg_size ptr);
               st' = erase_at i st
           in if length st' = 0 then Some (ScanBreak dg' st' un') else mm_scan 0 dg' st' un')
        else if dg_index dg = dg_index ptr then
          (let longer = dg_size dg > dg_size ptr;
               un' = (if longer then u64_sub un (dg_size ptr) else un);
               st' = (if longer then erase_at i st else st)
           in if length st' = 0 then Some (ScanBreak dg st' un') else mm_scan 0 dg st' un')
        else mm_scan (Suc i) dg st un)"

declare mm_scan.simps [code]

definition missing_middle_handler ::
    "StreamReassembler \<Rightarrow> datagram \<Rightarrow> StreamReassembler option" where
  "missing_middle_handler r dg =
     (case (if length (sr_storage r) > 0
            then mm_scan 0 dg (sr_storage r) (sr_unassembled_bytes r)
            else Some (ScanBreak dg (sr_storage r) (sr_unassembled_bytes r))) of
        None \<Rightarrow> None
      | Some (ScanReturn st un) \<Rightarrow> Some (r\<lparr>sr_storage := st, sr_unassembled_bytes := un\<rparr>)
      | Some (ScanBreak dg' st un) \<Rightarrow>
          (let st' = sort_key dg_index (dg' # st)
           in Some (r\<lparr>sr_storage := st',
                      sr_unassembled_bytes := u64_add un (dg_size dg'),
                      sr_smallest_temporty_index := dg_index (hd st')\<rparr>)))"

definition sr_indicator :: "StreamReassembler \<Rightarrow> u64" where
  "sr_indicator r =
     (if sr_first_unassemble_byte_index r \<ge> sr_next_assembling_index r
      then u64_add (sr_capacity r) (sr_first_unassemble_byte_index r)
      else u64_add (sr_capacity r) (sr_next_assembling_index r))"

text \<open>The part of \<open>push_substring\<close> for a substring that starts at or before the next index:
  write what is new, and say whether data was cut off.\<close>

definition sr_accept :: "StreamReassembler \<Rightarrow> bytes \<Rightarrow> u64 \<Rightarrow> bool \<Rightarrow> bool \<times> StreamReassembler" where
  "sr_accept r data index eof =
     (let re_cap = bs_remaining_capacity (sr_output r) in
      if index = sr_next_assembling_index r then
        (False, r\<lparr>sr_next_assembling_index := u64_add (sr_next_assembling_index r)
                    (if length data > re_cap then re_cap else length data),
                  sr_output := snd (bs_write (sr_output r) data)\<rparr>)
      else if u64_add index (length data) > sr_next_assembling_index r then
        overlap_handler r \<lparr>dg_data = data, dg_index = index, dg_size = length data, dg_eof = eof\<rparr>
      else (False, r))"

definition sr_finish :: "bool \<Rightarrow> bool \<Rightarrow> StreamReassembler \<Rightarrow> StreamReassembler" where
  "sr_finish eof data_exceeded r =
     (if eof \<and> \<not> data_exceeded then r\<lparr>sr_output := bs_end_input (sr_output r)\<rparr> else r)"

lemma sr_accept_storage: "sr_storage (snd (sr_accept r data index eof)) = sr_storage r"
  by (simp add: sr_accept_def overlap_handler_def Let_def)

function push_substring ::
    "StreamReassembler \<Rightarrow> bytes \<Rightarrow> u64 \<Rightarrow> bool \<Rightarrow> StreamReassembler option" where
  "push_substring r data index eof =
     (if bs_remaining_capacity (sr_output r) = 0 then Some r
      else if index \<ge> sr_indicator r then Some r
      else if index \<noteq> sr_next_assembling_index r \<and> index > sr_next_assembling_index r then
        missing_middle_handler r
          \<lparr>dg_data = data, dg_index = index, dg_size = length data, dg_eof = eof\<rparr>
      else
        let data_exceeded = fst (sr_accept r data index eof);
            r1 = snd (sr_accept r data index eof);
            gap_fixed = (sr_next_assembling_index r1 \<ge> sr_smallest_temporty_index r1)
        in
        if gap_fixed \<and> length data \<noteq> 0 then
          (case sr_storage r1 of
             [] \<Rightarrow> Some (sr_finish eof data_exceeded r1)
           | w # rest \<Rightarrow>
               (case push_substring
                       (r1\<lparr>sr_storage := rest,
                           sr_unassembled_bytes :=
                             u64_sub (sr_unassembled_bytes r1) (dg_size w)\<rparr>)
                       (dg_data w) (dg_index w) (dg_eof w) of
                  None \<Rightarrow> None
                | Some r2 \<Rightarrow> Some (sr_finish eof data_exceeded r2)))
        else Some (sr_finish eof data_exceeded r1))"
  by pat_completeness auto
termination
proof (relation "measure (\<lambda>(r, _, _, _). length (sr_storage r))", goal_cases)
  case 1
  then show ?case by simp
next
  case (2 r data index eof ex r1 gap w rest)
  then have "sr_storage r = w # rest"
    using sr_accept_storage[of r data index eof] by simp
  then show ?case by simp
qed

declare push_substring.simps [simp del]

subsection \<open>The four courses of push_substring\<close>

text \<open>The fragment record built from the arguments, and the state in which the front
  fragment has been taken from the store.\<close>

abbreviation new_dg :: "bytes \<Rightarrow> u64 \<Rightarrow> bool \<Rightarrow> datagram" where
  "new_dg data index eof \<equiv> \<lparr>dg_data = data, dg_index = index, dg_size = length data, dg_eof = eof\<rparr>"

definition sr_pulls :: "StreamReassembler \<Rightarrow> bytes \<Rightarrow> bool" where
  "sr_pulls r data \<longleftrightarrow> sr_next_assembling_index r \<ge> sr_smallest_temporty_index r \<and>
     length data \<noteq> 0 \<and> sr_storage r \<noteq> []"

definition sr_take_front :: "StreamReassembler \<Rightarrow> StreamReassembler" where
  "sr_take_front r = r\<lparr>sr_storage := tl (sr_storage r),
     sr_unassembled_bytes := u64_sub (sr_unassembled_bytes r) (dg_size (hd (sr_storage r)))\<rparr>"

lemma push_refused:
  "bs_remaining_capacity (sr_output r) = 0 \<or> index \<ge> sr_indicator r \<Longrightarrow>
   push_substring r data index eof = Some r"
  by (subst push_substring.simps) auto

lemma push_held:
  "bs_remaining_capacity (sr_output r) \<noteq> 0 \<Longrightarrow> index < sr_indicator r \<Longrightarrow>
   index > sr_next_assembling_index r \<Longrightarrow>
   push_substring r data index eof = missing_middle_handler r (new_dg data index eof)"
  by (subst push_substring.simps) auto

lemma push_written:
  assumes "bs_remaining_capacity (sr_output r) \<noteq> 0" "index < sr_indicator r"
    and "index \<le> sr_next_assembling_index r"
  shows "push_substring r data index eof =
    (let (ex, r1) = sr_accept r data index eof in
     map_option (sr_finish eof ex)
       (if sr_pulls r1 data
        then push_substring (sr_take_front r1) (dg_data (hd (sr_storage r1)))
               (dg_index (hd (sr_storage r1))) (dg_eof (hd (sr_storage r1)))
        else Some r1))"
proof (cases "sr_storage (snd (sr_accept r data index eof))")
  case Nil
  with assms show ?thesis
    by (subst push_substring.simps) (simp add: Let_def sr_pulls_def split_beta)
next
  case (Cons w rest)
  with assms show ?thesis
    by (subst push_substring.simps)
      (simp add: Let_def sr_pulls_def sr_take_front_def split_beta map_option_case)
qed

end
