(* ===== verification/Reassembler_Safety.thy ===== *)
theory Reassembler_Safety
  imports Stream_Reassembler
begin

text \<open>
  Safety of the reassembler: whatever fragments of a stream arrive, in whatever order and
  with whatever overlaps, the output is a prefix of that stream, as long as no fragment
  reaches past the window (the reader's position plus the capacity). The invariant
  \<open>sr_inv\<close> is kept by every operation and so holds in every state of \<open>sr_reach\<close>.
\<close>

subsection \<open>Invariant\<close>

definition sr_window_end :: "StreamReassembler \<Rightarrow> nat" where
  "sr_window_end r = bs_bytes_read (sr_output r) + sr_capacity r"

definition dg_ok :: "bytes \<Rightarrow> nat \<Rightarrow> datagram \<Rightarrow> bool" where
  "dg_ok S hi d \<longleftrightarrow>
     excerpt S (dg_index d) (dg_data d) \<and> dg_size d = length (dg_data d) \<and>
     dg_index d + dg_size d \<le> hi \<and>
     (dg_eof d \<longrightarrow> dg_index d + dg_size d = length S)"

definition out_ok :: "bytes \<Rightarrow> StreamReassembler \<Rightarrow> bool" where
  "out_ok S r \<longleftrightarrow>
     bs_inv (sr_output r) \<and> sr_capacity r = bs_capacity (sr_output r) \<and>
     length S + sr_capacity r < two64 \<and>
     sr_next_assembling_index r \<le> length S \<and>
     bs_bytes_written (sr_output r) = sr_next_assembling_index r \<and>
     bs_bytes_read (sr_output r) \<le> sr_next_assembling_index r \<and>
     bs_stream (sr_output r) =
       drop (bs_bytes_read (sr_output r)) (take (sr_next_assembling_index r) S) \<and>
     (bs_input_ended (sr_output r) \<longrightarrow> sr_next_assembling_index r = length S)"

definition sr_inv :: "bytes \<Rightarrow> StreamReassembler \<Rightarrow> bool" where
  "sr_inv S r \<longleftrightarrow> out_ok S r \<and> (\<forall>d \<in> set (sr_storage r). dg_ok S (sr_window_end r) d)"

text \<open>The states a reassembler of capacity \<open>c\<close> can reach when every fragment pushed is a
  piece of the stream \<open>S\<close> inside the window, and its reader pops as it likes.\<close>

inductive sr_reach :: "bytes \<Rightarrow> nat \<Rightarrow> StreamReassembler \<Rightarrow> bool" for S c where
  reach_new: "sr_reach S c (sr_new c)"
| reach_push: "\<lbrakk>sr_reach S c r; excerpt S i d; i + length d \<le> sr_window_end r;
     e \<longrightarrow> i + length d = length S; push_substring r d i e = Some r'\<rbrakk> \<Longrightarrow> sr_reach S c r'"
| reach_pop: "sr_reach S c r \<Longrightarrow> sr_reach S c (r\<lparr>sr_output := bs_pop_output (sr_output r) n\<rparr>)"

subsection \<open>The scan\<close>

fun scan_ok :: "bytes \<Rightarrow> nat \<Rightarrow> scan_result \<Rightarrow> bool" where
  "scan_ok S hi (ScanReturn st un) \<longleftrightarrow> (\<forall>d \<in> set st. dg_ok S hi d)"
| "scan_ok S hi (ScanBreak dg st un) \<longleftrightarrow> dg_ok S hi dg \<and> (\<forall>d \<in> set st. dg_ok S hi d)"

lemma set_erase_at: "set (erase_at i xs) \<subseteq> set xs"
  by (auto simp: erase_at_def dest: in_set_takeD in_set_dropD)

lemma erase_at_ok: "(\<forall>d \<in> set xs. P d) \<Longrightarrow> (\<forall>d \<in> set (erase_at i xs). P d)"
  using set_erase_at[of i xs] by blast

lemma dg_ok_tail:
  assumes "dg_ok S hi d" "length S < two64"
  shows "u64_add (dg_index d) (dg_size d) = dg_index d + dg_size d"
    "u64_add (dg_size d) (dg_index d) = dg_index d + dg_size d"
  using assms excerpt_length[of S "dg_index d" "dg_data d"]
  by (auto simp: dg_ok_def u64_add_exact add.commute)

lemma overlap_merger_ok:
  assumes "dg_ok S hi a" "dg_ok S hi b" "length S < two64"
    and "dg_index a \<le> dg_index b" "dg_index b < dg_index a + dg_size a"
    and "dg_index a + dg_size a < dg_index b + dg_size b"
  shows "dg_ok S hi (overlap_merger a b)"
    and "dg_index (overlap_merger a b) = dg_index a"
    and "dg_size a < dg_size (overlap_merger a b)"
proof -
  have len: "dg_index a + dg_size a \<le> length S" "dg_index b + dg_size b \<le> length S"
    using assms(1,2) excerpt_length by (auto simp: dg_ok_def)
  have start: "u64_sub (u64_add (dg_index a) (dg_size a)) (dg_index b) =
      dg_index a + dg_size a - dg_index b"
    using assms(3,5) len by (simp add: u64_add_exact u64_sub_exact)
  let ?k = "dg_index a + dg_size a - dg_index b"
  have k: "?k \<noteq> 0" "?k \<le> length (dg_data b)"
    using assms(2,5,6) by (auto simp: dg_ok_def)
  have sz: "u64_add (dg_size a) (length (dg_data b) - ?k) = dg_size a + (length (dg_data b) - ?k)"
    using len assms(2,3,5,6) by (intro u64_add_exact) (auto simp: dg_ok_def)
  have eq: "overlap_merger a b = a\<lparr>dg_data := dg_data a @ drop ?k (dg_data b),
      dg_size := dg_size a + (length (dg_data b) - ?k)\<rparr>"
    using k(1) sz by (simp add: overlap_merger_def start Let_def)
  have "excerpt S (dg_index a) (dg_data a @ drop ?k (dg_data b))"
    using excerpt_merge[of S "dg_index a" "dg_data a" "dg_index b" "dg_data b"] assms
    by (auto simp: dg_ok_def)
  then show "dg_ok S hi (overlap_merger a b)"
    using assms len k unfolding eq by (auto simp: dg_ok_def)
  show "dg_index (overlap_merger a b) = dg_index a"
    by (simp add: eq)
  show "dg_size a < dg_size (overlap_merger a b)"
    using assms by (simp add: eq dg_ok_def)
qed

lemma mm_scan_ok:
  assumes "length S < two64" and ret: "mm_scan i dg st un = Some res"
    and "dg_ok S hi dg" "\<forall>d \<in> set st. dg_ok S hi d"
  shows "scan_ok S hi res"
proof -
  let ?P = "\<lambda>i dg st un res. dg_ok S hi dg \<longrightarrow> (\<forall>d \<in> set st. dg_ok S hi d) \<longrightarrow> scan_ok S hi res"
  have "?P i dg st un res"
  proof (rule mm_scan.raw_induct[where P = ?P, OF _ ret], intro impI, goal_cases)
    case (1 f i dg st un res)
    note IH = 1(1)[rule_format] and eq = 1(2) and dg = 1(3) and st = 1(4)
    show ?case
    proof (cases "i \<ge> length st")
      case True
      with eq dg st show ?thesis by auto
    next
      case False
      then have ptr: "dg_ok S hi (st ! i)"
        using st by simp
      note tails = dg_ok_tail[OF ptr assms(1)] dg_ok_tail[OF dg assms(1)]
      have er: "\<forall>d \<in> set (erase_at i st). dg_ok S hi d"
        using st by (rule erase_at_ok)
      have mg: "dg_ok S hi (overlap_merger dg (st ! i))"
        if "dg_index dg < dg_index (st ! i)" "dg_index (st ! i) < dg_index dg + dg_size dg"
          "\<not> dg_index (st ! i) + dg_size (st ! i) \<le> dg_index dg + dg_size dg"
        using overlap_merger_ok(1)[OF dg ptr assms(1)] that by simp
      show ?thesis
        using eq False dg st er mg
        by (auto simp: Let_def tails split: if_splits intro: IH)
    qed
  qed
  with assms(3,4) show ?thesis by blast
qed

lemma missing_middle_ok:
  assumes "sr_inv S r" "dg_ok S (sr_window_end r) dg" "missing_middle_handler r dg = Some r'"
  shows "sr_inv S r'" "sr_output r' = sr_output r" "sr_capacity r' = sr_capacity r"
    "sr_next_assembling_index r' = sr_next_assembling_index r"
proof -
  have S: "length S < two64"
    using assms(1) by (simp add: sr_inv_def out_ok_def)
  obtain res where res: "(if length (sr_storage r) > 0
            then mm_scan 0 dg (sr_storage r) (sr_unassembled_bytes r)
            else Some (ScanBreak dg (sr_storage r) (sr_unassembled_bytes r))) = Some res"
    using assms(3) by (auto simp: missing_middle_handler_def split: option.splits)
  have ok: "scan_ok S (sr_window_end r) res"
    using res assms(1,2) mm_scan_ok[OF S]
    by (auto simp: sr_inv_def split: if_splits)
  have r': "r' = (case res of
       ScanReturn st un \<Rightarrow> r\<lparr>sr_storage := st, sr_unassembled_bytes := un\<rparr>
     | ScanBreak dg' st un \<Rightarrow> r\<lparr>sr_storage := sort_key dg_index (dg' # st),
          sr_unassembled_bytes := u64_add un (dg_size dg'),
          sr_smallest_temporty_index := dg_index (hd (sort_key dg_index (dg' # st)))\<rparr>)"
    using assms(3) unfolding missing_middle_handler_def res
    by (auto simp: Let_def split: scan_result.splits)
  show "sr_output r' = sr_output r" "sr_capacity r' = sr_capacity r"
    "sr_next_assembling_index r' = sr_next_assembling_index r"
    using r' by (auto split: scan_result.splits)
  show "sr_inv S r'"
    using assms(1) ok r'
    by (cases res) (auto simp: sr_inv_def out_ok_def sr_window_end_def set_insort_key)
qed

subsection \<open>Writing the contiguous part\<close>

lemma out_ok_room:
  assumes "out_ok S r"
  shows "bs_remaining_capacity (sr_output r) = sr_window_end r - sr_next_assembling_index r"
    "sr_next_assembling_index r \<le> sr_window_end r"
proof -
  have "length (bs_stream (sr_output r)) = sr_next_assembling_index r - bs_bytes_read (sr_output r)"
    using assms by (simp add: out_ok_def)
  then show "bs_remaining_capacity (sr_output r) = sr_window_end r - sr_next_assembling_index r"
    "sr_next_assembling_index r \<le> sr_window_end r"
    using assms by (auto simp: out_ok_def sr_window_end_def bs_inv_room bs_inv_def)
qed

lemma out_ok_write:
  assumes "out_ok S r" "excerpt S (sr_next_assembling_index r) d"
    and "sr_next_assembling_index r + length d \<le> sr_window_end r"
    and "r' = r\<lparr>sr_output := snd (bs_write (sr_output r) d),
                sr_next_assembling_index := sr_next_assembling_index r + length d\<rparr>"
  shows "out_ok S r'" "sr_window_end r' = sr_window_end r"
    "bs_bytes_read (sr_output r') = bs_bytes_read (sr_output r)"
proof -
  have inv: "bs_inv (sr_output r)"
    using assms(1) by (simp add: out_ok_def)
  have fits: "length d \<le> bs_remaining_capacity (sr_output r)"
    using assms(3) out_ok_room[OF assms(1)] by simp
  have "sr_next_assembling_index r + length d \<le> length S"
    using assms(2) by (rule excerpt_length)
  moreover have "length S < two64"
    using assms(1) by (simp add: out_ok_def)
  ultimately have w: "u64_add (sr_next_assembling_index r) (length d) =
      sr_next_assembling_index r + length d"
    by (intro u64_add_exact) simp
  have stream: "bs_stream (snd (bs_write (sr_output r) d)) =
      drop (bs_bytes_read (sr_output r)) (take (sr_next_assembling_index r + length d) S)"
    using bs.put_fits(2)[OF inv fits] excerpt_take_append[OF assms(2)] assms(1)
    by (auto simp: out_ok_def drop_append simp flip: excerpt_take_append[OF assms(2)])
  have min: "min (length d) (bs_capacity (sr_output r) - length (bs_stream (sr_output r))) = length d"
    using fits inv by (simp add: bs_inv_room)
  note weq = bs_write_eq[OF inv, of d, unfolded min]
  show "bs_bytes_read (sr_output r') = bs_bytes_read (sr_output r)"
    by (simp add: assms(4) weq)
  then show "sr_window_end r' = sr_window_end r"
    by (simp add: sr_window_end_def assms(4))
  have ended: "bs_input_ended (sr_output r) \<Longrightarrow> length d = 0"
    using assms(1) excerpt_length[OF assms(2)] by (simp add: out_ok_def)
  show "out_ok S r'"
    using assms(1) stream bs_inv_write[OF inv, of d] w excerpt_length[OF assms(2)] ended
    unfolding assms(4) by (auto simp: out_ok_def weq)
qed

lemma sr_accept_ok:
  assumes "out_ok S r" "excerpt S i d" "i + length d \<le> sr_window_end r"
    and "i \<le> sr_next_assembling_index r"
  shows "fst (sr_accept r d i e) = False"
    and "out_ok S (snd (sr_accept r d i e))"
    and "sr_window_end (snd (sr_accept r d i e)) = sr_window_end r"
    and "sr_next_assembling_index (snd (sr_accept r d i e)) =
          max (sr_next_assembling_index r) (i + length d)"
    and "bs_bytes_read (sr_output (snd (sr_accept r d i e))) = bs_bytes_read (sr_output r)"
proof -
  let ?n = "sr_next_assembling_index r" and ?a = "sr_accept r d i e"
  have lens: "i + length d \<le> length S" "?n \<le> length S" "length S < two64"
    using excerpt_length[OF assms(2)] assms(1) by (auto simp: out_ok_def)
  have "fst ?a = False \<and> out_ok S (snd ?a) \<and> sr_window_end (snd ?a) = sr_window_end r \<and>
      sr_next_assembling_index (snd ?a) = max ?n (i + length d) \<and>
      bs_bytes_read (sr_output (snd ?a)) = bs_bytes_read (sr_output r)"
  proof (cases "?n < i + length d \<or> i = ?n")
    case False
    then show ?thesis
      using assms(1,4) lens by (auto simp: sr_accept_def u64_add_exact Let_def)
  next
    case True
    define k where "k = ?n - i"
    define r' where "r' = r\<lparr>sr_output := snd (bs_write (sr_output r) (drop k d)),
                sr_next_assembling_index := ?n + length (drop k d)\<rparr>"
    have k: "k \<le> length d" "i + k = ?n"
      using True assms(4) by (auto simp: k_def)
    have ex: "excerpt S ?n (drop k d)"
      using excerpt_drop[OF assms(2) k(1)] k(2) by simp
    have fit: "?n + length (drop k d) \<le> sr_window_end r"
      using assms(3) k by simp
    note w = out_ok_write[OF assms(1) ex fit r'_def]
    have sum: "u64_add ?n (length (drop k d)) = ?n + length (drop k d)"
      using lens k by (intro u64_add_exact) simp
    have nofull: "\<not> length d > bs_remaining_capacity (sr_output r)" if "i = ?n"
      using that assms(3) out_ok_room[OF assms(1)] by simp
    have wr: "bs_bytes_written (sr_output r') = sr_next_assembling_index r'"
      using w(1) by (simp add: out_ok_def)
    have "?a = (False, r')"
    proof (cases "i = ?n")
      case True
      then have "k = 0" by (simp add: k_def)
      with True nofull sum show ?thesis
        by (simp add: sr_accept_def r'_def Let_def)
    next
      case neq: False
      then have gt: "u64_add i (length d) > ?n"
        using True lens by (simp add: u64_add_exact)
      have st: "u64_sub ?n i = k"
        using assms(4) lens by (simp add: k_def u64_sub_exact)
      show ?thesis
        using neq gt wr
        by (simp add: sr_accept_def overlap_handler_def Let_def st sum[simplified] r'_def)
    qed
    then show ?thesis
      using w k by (auto simp: r'_def)
  qed
  then show "fst ?a = False" "out_ok S (snd ?a)" "sr_window_end (snd ?a) = sr_window_end r"
    "sr_next_assembling_index (snd ?a) = max ?n (i + length d)"
    "bs_bytes_read (sr_output (snd ?a)) = bs_bytes_read (sr_output r)"
    by blast+
qed

lemma sr_finish_simps [simp]:
  "sr_storage (sr_finish e x r) = sr_storage r"
  "sr_capacity (sr_finish e x r) = sr_capacity r"
  "sr_next_assembling_index (sr_finish e x r) = sr_next_assembling_index r"
  "sr_smallest_temporty_index (sr_finish e x r) = sr_smallest_temporty_index r"
  "sr_unassembled_bytes (sr_finish e x r) = sr_unassembled_bytes r"
  "bs_bytes_read (sr_output (sr_finish e x r)) = bs_bytes_read (sr_output r)"
  "bs_stream (sr_output (sr_finish e x r)) = bs_stream (sr_output r)"
  "sr_window_end (sr_finish e x r) = sr_window_end r"
  by (simp_all add: sr_finish_def bs_end_input_def sr_window_end_def)

lemma sr_finish_ok:
  assumes "out_ok S r" "e \<Longrightarrow> sr_next_assembling_index r = length S"
  shows "out_ok S (sr_finish e x r)"
  using assms by (auto simp: sr_finish_def out_ok_def bs_end_input_def bs_inv_def)

subsection \<open>push_substring\<close>

lemma sr_take_front_simps [simp]:
  "sr_output (sr_take_front r) = sr_output r"
  "sr_capacity (sr_take_front r) = sr_capacity r"
  "sr_next_assembling_index (sr_take_front r) = sr_next_assembling_index r"
  "sr_smallest_temporty_index (sr_take_front r) = sr_smallest_temporty_index r"
  "sr_storage (sr_take_front r) = tl (sr_storage r)"
  "sr_window_end (sr_take_front r) = sr_window_end r"
  "out_ok S (sr_take_front r) = out_ok S r"
  by (simp_all add: sr_take_front_def sr_window_end_def out_ok_def)

lemma sr_inv_take_front:
  assumes "sr_inv S r" "sr_storage r \<noteq> []"
  shows "sr_inv S (sr_take_front r)" "dg_ok S (sr_window_end r) (hd (sr_storage r))"
  using assms by (auto simp: sr_inv_def dest: list.set_sel(2))

lemma sr_inv_finish:
  assumes "sr_inv S r" "e \<Longrightarrow> sr_next_assembling_index r = length S"
  shows "sr_inv S (sr_finish e x r)"
  using assms by (simp add: sr_inv_def sr_finish_ok)

lemma push_substring_ok:
  assumes "sr_inv S r" "excerpt S i d" "i + length d \<le> sr_window_end r"
    and "e \<longrightarrow> i + length d = length S" "push_substring r d i e = Some r'"
  shows "sr_inv S r' \<and> sr_window_end r' = sr_window_end r \<and> sr_capacity r' = sr_capacity r \<and>
    sr_next_assembling_index r \<le> sr_next_assembling_index r'"
  using assms
proof (induction "length (sr_storage r)" arbitrary: r d i e r' rule: less_induct)
  case less
  note inv = less.prems(1) and ex = less.prems(2) and win = less.prems(3) and eof = less.prems(4)
    and eq = less.prems(5)
  have out: "out_ok S r" using inv by (simp add: sr_inv_def)
  consider (stop) "bs_remaining_capacity (sr_output r) = 0 \<or> i \<ge> sr_indicator r"
    | (hold) "bs_remaining_capacity (sr_output r) \<noteq> 0" "i < sr_indicator r"
        "i > sr_next_assembling_index r"
    | (wrt) "bs_remaining_capacity (sr_output r) \<noteq> 0" "i < sr_indicator r"
        "i \<le> sr_next_assembling_index r"
    by linarith
  then show ?case
  proof cases
    case stop
    with eq inv show ?thesis by (simp add: push_refused)
  next
    case hold
    have "dg_ok S (sr_window_end r) (new_dg d i e)"
      using ex win eof by (simp add: dg_ok_def)
    then show ?thesis
      using missing_middle_ok[OF inv, of "new_dg d i e" r'] eq hold
      by (simp add: push_held sr_window_end_def)
  next
    case wrt
    define r1 where "r1 = snd (sr_accept r d i e)"
    note acc = sr_accept_ok[OF out ex win wrt(3), of e, folded r1_def]
    have st1: "sr_storage r1 = sr_storage r"
      by (simp add: r1_def sr_accept_storage)
    have cap1: "sr_capacity r1 = sr_capacity r"
      using acc(3,5) by (simp add: sr_window_end_def)
    have inv1: "sr_inv S r1"
      using inv acc(2,3) by (simp add: sr_inv_def st1)
    obtain r2 where r2: "(if sr_pulls r1 d
        then push_substring (sr_take_front r1) (dg_data (hd (sr_storage r1)))
               (dg_index (hd (sr_storage r1))) (dg_eof (hd (sr_storage r1)))
        else Some r1) = Some r2" and r': "r' = sr_finish e False r2"
      using eq acc(1) by (auto simp: push_written[OF wrt] split_beta simp flip: r1_def)
    have main: "sr_inv S r2 \<and> sr_window_end r2 = sr_window_end r \<and> sr_capacity r2 = sr_capacity r \<and>
        sr_next_assembling_index r1 \<le> sr_next_assembling_index r2"
    proof (cases "sr_pulls r1 d")
      case False
      with r2 inv1 acc(3) cap1 show ?thesis by simp
    next
      case True
      then have ne: "sr_storage r1 \<noteq> []" by (simp add: sr_pulls_def)
      note tf = sr_inv_take_front[OF inv1 ne]
      let ?w = "hd (sr_storage r1)"
      have lt: "length (sr_storage (sr_take_front r1)) < length (sr_storage r)"
        using ne st1 by (cases "sr_storage r1") auto
      have w: "excerpt S (dg_index ?w) (dg_data ?w)"
        "dg_index ?w + length (dg_data ?w) \<le> sr_window_end (sr_take_front r1)"
        "dg_eof ?w \<longrightarrow> dg_index ?w + length (dg_data ?w) = length S"
        "push_substring (sr_take_front r1) (dg_data ?w) (dg_index ?w) (dg_eof ?w) = Some r2"
        using tf(2) r2 True by (auto simp: dg_ok_def)
      from less.hyps[OF lt tf(1) w] show ?thesis using acc(3) cap1 by simp
    qed
    have "sr_next_assembling_index r2 = length S" if e
      using that eof acc(4) main by (auto simp: sr_inv_def out_ok_def)
    then show ?thesis
      using main acc(4) sr_inv_finish[of S r2 e False] by (simp add: r')
  qed
qed

text \<open>A push writes nothing when neither the substring nor a stored fragment holds the next byte.\<close>

definition dg_covers :: "nat \<Rightarrow> nat \<Rightarrow> nat \<Rightarrow> bool" where
  "dg_covers n i len \<longleftrightarrow> i \<le> n \<and> n < i + len"

lemma push_fills_nothing:
  assumes "sr_inv S r" "excerpt S i d" "i + length d \<le> sr_window_end r"
    and "e \<longrightarrow> i + length d = length S" "push_substring r d i e = Some r'"
    and "\<not> dg_covers (sr_next_assembling_index r) i (length d)"
    and "\<forall>w \<in> set (sr_storage r). \<not> dg_covers (sr_next_assembling_index r) (dg_index w) (dg_size w)"
  shows "sr_next_assembling_index r' = sr_next_assembling_index r"
  using assms
proof (induction "length (sr_storage r)" arbitrary: r d i e r' rule: less_induct)
  case less
  note inv = less.prems(1) and ex = less.prems(2) and win = less.prems(3) and eof = less.prems(4)
    and eq = less.prems(5) and nc = less.prems(6) and ncs = less.prems(7)
  have out: "out_ok S r" using inv by (simp add: sr_inv_def)
  consider (stop) "bs_remaining_capacity (sr_output r) = 0 \<or> i \<ge> sr_indicator r"
    | (hold) "bs_remaining_capacity (sr_output r) \<noteq> 0" "i < sr_indicator r"
        "i > sr_next_assembling_index r"
    | (wrt) "bs_remaining_capacity (sr_output r) \<noteq> 0" "i < sr_indicator r"
        "i \<le> sr_next_assembling_index r"
    by linarith
  then show ?case
  proof cases
    case stop
    with eq show ?thesis by (simp add: push_refused)
  next
    case hold
    have "dg_ok S (sr_window_end r) (new_dg d i e)"
      using ex win eof by (simp add: dg_ok_def)
    then show ?thesis
      using missing_middle_ok[OF inv, of "new_dg d i e" r'] eq hold by (simp add: push_held)
  next
    case wrt
    define r1 where "r1 = snd (sr_accept r d i e)"
    note acc = sr_accept_ok[OF out ex win wrt(3), of e, folded r1_def]
    have st1: "sr_storage r1 = sr_storage r"
      by (simp add: r1_def sr_accept_storage)
    have inv1: "sr_inv S r1"
      using inv acc(2,3) by (simp add: sr_inv_def st1)
    have n1: "sr_next_assembling_index r1 = sr_next_assembling_index r"
      using acc(4) nc wrt(3) by (simp add: dg_covers_def)
    obtain r2 where r2: "(if sr_pulls r1 d
        then push_substring (sr_take_front r1) (dg_data (hd (sr_storage r1)))
               (dg_index (hd (sr_storage r1))) (dg_eof (hd (sr_storage r1)))
        else Some r1) = Some r2" and r': "r' = sr_finish e False r2"
      using eq acc(1) by (auto simp: push_written[OF wrt] split_beta simp flip: r1_def)
    have "sr_next_assembling_index r2 = sr_next_assembling_index r1"
    proof (cases "sr_pulls r1 d")
      case False
      with r2 show ?thesis by simp
    next
      case True
      then have ne: "sr_storage r1 \<noteq> []" by (simp add: sr_pulls_def)
      note tf = sr_inv_take_front[OF inv1 ne]
      let ?w = "hd (sr_storage r1)"
      have lt: "length (sr_storage (sr_take_front r1)) < length (sr_storage r)"
        using ne st1 by (cases "sr_storage r1") auto
      have w: "excerpt S (dg_index ?w) (dg_data ?w)"
        "dg_index ?w + length (dg_data ?w) \<le> sr_window_end (sr_take_front r1)"
        "dg_eof ?w \<longrightarrow> dg_index ?w + length (dg_data ?w) = length S"
        "push_substring (sr_take_front r1) (dg_data ?w) (dg_index ?w) (dg_eof ?w) = Some r2"
        using tf(2) r2 True by (auto simp: dg_ok_def)
      have c: "\<not> dg_covers (sr_next_assembling_index (sr_take_front r1)) (dg_index ?w) (length (dg_data ?w))"
        "\<forall>w \<in> set (sr_storage (sr_take_front r1)).
          \<not> dg_covers (sr_next_assembling_index (sr_take_front r1)) (dg_index w) (dg_size w)"
      proof -
        have "?w \<in> set (sr_storage r)" using ne st1 by (metis list.set_sel(1))
        moreover have "dg_size ?w = length (dg_data ?w)" using tf(2) by (simp add: dg_ok_def)
        ultimately show "\<not> dg_covers (sr_next_assembling_index (sr_take_front r1)) (dg_index ?w) (length (dg_data ?w))"
          using ncs n1 by force
        show "\<forall>w \<in> set (sr_storage (sr_take_front r1)).
            \<not> dg_covers (sr_next_assembling_index (sr_take_front r1)) (dg_index w) (dg_size w)"
          using ncs ne st1 n1 by (auto dest: list.set_sel(2))
      qed
      from less.hyps[OF lt tf(1) w c] show ?thesis by simp
    qed
    then show ?thesis by (simp add: r' n1)
  qed
qed

lemma sr_inv_new: "length S + c < two64 \<Longrightarrow> sr_inv S (sr_new c)"
  by (simp add: sr_inv_def out_ok_def sr_new_def bs_new_def bs_inv_def)

lemma sr_inv_pop:
  assumes "sr_inv S r"
  shows "sr_inv S (r\<lparr>sr_output := bs_pop_output (sr_output r) n\<rparr>)"
proof -
  have inv: "bs_inv (sr_output r)" and o: "out_ok S r"
    using assms by (simp_all add: sr_inv_def out_ok_def)
  let ?k = "min n (length (bs_stream (sr_output r)))"
  have len: "length (bs_stream (sr_output r)) =
      sr_next_assembling_index r - bs_bytes_read (sr_output r)"
    using o by (simp add: out_ok_def)
  have k: "u64_add (bs_bytes_read (sr_output r)) ?k = bs_bytes_read (sr_output r) + ?k"
    using o len by (intro u64_add_exact) (auto simp: out_ok_def)
  have dr: "drop n (drop (bs_bytes_read (sr_output r)) (take (sr_next_assembling_index r) S)) =
      drop (bs_bytes_read (sr_output r) + ?k) (take (sr_next_assembling_index r) S)"
    using o len by (auto simp: min_def add.commute out_ok_def)
  have "out_ok S (r\<lparr>sr_output := bs_pop_output (sr_output r) n\<rparr>)"
    using o k dr len bs_inv_pop[OF inv, of n] by (auto simp: out_ok_def bs_pop_eq[OF inv])
  moreover have "dg_ok S hi d \<Longrightarrow> hi \<le> hi' \<Longrightarrow> dg_ok S hi' d" for hi hi' d
    by (auto simp: dg_ok_def)
  ultimately show ?thesis
    using assms k by (fastforce simp: sr_inv_def sr_window_end_def bs_pop_eq[OF inv])
qed

lemma sr_reach_inv:
  assumes "sr_reach S c r" "length S + c < two64"
  shows "sr_inv S r"
  using assms
proof (induction rule: sr_reach.induct)
  case reach_new
  then show ?case by (rule sr_inv_new)
next
  case (reach_push r i d e r')
  then show ?case using push_substring_ok[of S r i d e r'] by blast
next
  case (reach_pop r n)
  then show ?case using sr_inv_pop by blast
qed

subsection \<open>Properties\<close>

text \<open>
  C11. The reassembler never delivers a wrong byte: in every state it can reach from pieces
  of a stream \<open>S\<close> that lie inside the receive window, in any order, repeated or
  overlapping, the output holds exactly the bytes of \<open>S\<close> from the reader's position up to
  the number of bytes written, never more than the capacity, and its end is signalled only
  when all of \<open>S\<close> was written.
\<close>

theorem reassembler_output_prefix:
  assumes "sr_reach S c r" "length S + c < two64"
  shows "bs_stream (sr_output r) =
      drop (bs_bytes_read (sr_output r)) (take (bs_bytes_written (sr_output r)) S) \<and>
    length (bs_stream (sr_output r)) \<le> bs_capacity (sr_output r) \<and>
    (bs_input_ended (sr_output r) \<longrightarrow> bs_bytes_written (sr_output r) = length S)"
  using sr_reach_inv[OF assms] by (auto simp: sr_inv_def out_ok_def bs_inv_def)

definition example_held :: StreamReassembler where
  "example_held = (sr_new 5)\<lparr>sr_smallest_temporty_index := 2, sr_unassembled_bytes := 2,
     sr_storage := [new_dg [3, 4] 2 True]\<rparr>"

definition example_done :: StreamReassembler where
  "example_done = (sr_new 5)\<lparr>sr_next_assembling_index := 4, sr_smallest_temporty_index := 2,
     sr_output := (bs_new 5)\<lparr>bs_input_ended := True, bs_buffer_size := 4, bs_bytes_written := 4,
       bs_stream := [1, 2, 3, 4]\<rparr>\<rparr>"

lemmas push_eval = push_substring.simps missing_middle_handler_def mm_scan.simps sr_indicator_def
  sr_first_unassemble_byte_index_def sr_accept_def sr_finish_def overlap_handler_def
  overlap_merger_def erase_at_def bs_remaining_capacity_def bs_write_def bs_push_back_def
  bs_new_def sr_new_def bs_end_input_def u64_add_def u64_sub_def two64_def Let_def

lemma example_push_held: "push_substring (sr_new 5) [3, 4] 2 True = Some example_held"
  by (simp add: push_eval example_held_def)

lemma example_push_done: "push_substring example_held [1, 2, 3] 0 False = Some example_done"
  by (simp add: push_eval example_held_def example_done_def)

theorem reassembler_output_prefix_witness:
  "sr_reach [1, 2, 3, 4] 5 example_done \<and>
   bs_stream (sr_output example_done) =
     drop (bs_bytes_read (sr_output example_done))
       (take (bs_bytes_written (sr_output example_done)) [1, 2, 3, 4]) \<and>
   bs_input_ended (sr_output example_done)"
proof -
  have "sr_reach [1, 2, 3, 4] 5 example_held"
    by (rule reach_push[OF reach_new _ _ _ example_push_held])
      (simp_all add: excerpt_def sr_window_end_def sr_new_def)
  then have r: "sr_reach [1, 2, 3, 4] 5 example_done"
    by (rule reach_push[OF _ _ _ _ example_push_done])
      (simp_all add: excerpt_def sr_window_end_def sr_new_def example_held_def bs_new_def)
  have "length [1, 2, 3, 4 :: byte] + 5 < two64"
    by (simp add: two64_def)
  from reassembler_output_prefix[OF r this] r show ?thesis
    by (simp add: example_done_def)
qed

end
