(* ===== verification/Reassembler_Progress.thy ===== *)
theory Reassembler_Progress
  imports Reassembler_Safety
begin

text \<open>
  Progress of the reassembler. A peer that never cuts its stream differently when it
  retransmits sends the pieces of one segmentation, each any number of times and in any
  order. Against such a peer every \<open>push_substring\<close> returns, and the output holds every
  byte up to the first segment that has not arrived. The theory ends with what happens
  outside these conditions: the scan that does not return, the index that runs ahead of
  the output, the lost end mark, and the counters that count twice.
\<close>

subsection \<open>Segmentations\<close>

definition seg_off :: "bytes list \<Rightarrow> nat \<Rightarrow> nat" where
  "seg_off segs k = length (concat (take k segs))"

definition wf_segs :: "bytes list \<Rightarrow> bool" where
  "wf_segs segs \<longleftrightarrow> segs \<noteq> [] \<and> (\<forall>d \<in> set (butlast segs). d \<noteq> [])"

definition seg_dg :: "bytes list \<Rightarrow> nat \<Rightarrow> datagram" where
  "seg_dg segs k = new_dg (segs ! k) (seg_off segs k) (Suc k = length segs)"

datatype seg_event = Arrive nat | ReaderPop nat

fun seg_step :: "bytes list \<Rightarrow> StreamReassembler \<Rightarrow> seg_event \<Rightarrow> StreamReassembler option" where
  "seg_step segs r (Arrive k) =
     push_substring r (segs ! k) (seg_off segs k) (Suc k = length segs)"
| "seg_step segs r (ReaderPop n) = Some (r\<lparr>sr_output := bs_pop_output (sr_output r) n\<rparr>)"

fun seg_run :: "bytes list \<Rightarrow> StreamReassembler \<Rightarrow> seg_event list \<Rightarrow> StreamReassembler option" where
  "seg_run segs r [] = Some r"
| "seg_run segs r (ev # evs) =
     (case seg_step segs r ev of None \<Rightarrow> None | Some r' \<Rightarrow> seg_run segs r' evs)"

text \<open>The sender's side of flow control: an arriving segment exists and ends inside the
  window of the state it arrives in.\<close>

fun seg_allowed :: "bytes list \<Rightarrow> StreamReassembler \<Rightarrow> seg_event \<Rightarrow> bool" where
  "seg_allowed segs r (Arrive k) \<longleftrightarrow>
     k < length segs \<and> seg_off segs k + length (segs ! k) \<le> sr_window_end r"
| "seg_allowed segs r (ReaderPop n) \<longleftrightarrow> True"

fun seg_run_allowed :: "bytes list \<Rightarrow> StreamReassembler \<Rightarrow> seg_event list \<Rightarrow> bool" where
  "seg_run_allowed segs r [] \<longleftrightarrow> True"
| "seg_run_allowed segs r (ev # evs) \<longleftrightarrow>
     seg_allowed segs r ev \<and>
     (case seg_step segs r ev of None \<Rightarrow> True | Some r' \<Rightarrow> seg_run_allowed segs r' evs)"

subsection \<open>Offsets\<close>

lemma seg_off_Suc: "k < length segs \<Longrightarrow> seg_off segs (Suc k) = seg_off segs k + length (segs ! k)"
  by (simp add: seg_off_def take_Suc_conv_app_nth)

lemma seg_off_0 [simp]: "seg_off segs 0 = 0"
  by (simp add: seg_off_def)

lemma seg_off_length: "seg_off segs (length segs) = length (concat segs)"
  by (simp add: seg_off_def)

lemma seg_off_mono: "j \<le> k \<Longrightarrow> seg_off segs j \<le> seg_off segs k"
proof -
  assume "j \<le> k"
  then obtain n where "k = j + n" using le_Suc_ex by blast
  then show ?thesis by (simp add: seg_off_def take_add)
qed

lemma seg_off_le: "seg_off segs k \<le> length (concat segs)"
  using seg_off_mono[of k "max k (length segs)" segs] by (simp add: seg_off_def)

lemma seg_nonempty: "wf_segs segs \<Longrightarrow> Suc k < length segs \<Longrightarrow> segs ! k \<noteq> []"
  unfolding wf_segs_def by (metis Suc_lessE diff_Suc_1 length_butlast nth_butlast nth_mem)

lemma seg_off_less:
  assumes "wf_segs segs" "j < k" "k < length segs"
  shows "seg_off segs j < seg_off segs k"
proof -
  have "segs ! j \<noteq> []"
    using assms by (intro seg_nonempty) auto
  then have "seg_off segs j < seg_off segs (Suc j)"
    using assms by (simp add: seg_off_Suc)
  also have "\<dots> \<le> seg_off segs k"
    using assms by (intro seg_off_mono) simp
  finally show ?thesis .
qed

lemma seg_off_le_iff:
  "wf_segs segs \<Longrightarrow> j < length segs \<Longrightarrow> k < length segs \<Longrightarrow>
   seg_off segs j \<le> seg_off segs k \<longleftrightarrow> j \<le> k"
  using seg_off_less[of segs k j] seg_off_mono[of j k segs] by fastforce

lemma seg_off_eq_iff:
  "wf_segs segs \<Longrightarrow> j < length segs \<Longrightarrow> k < length segs \<Longrightarrow>
   seg_off segs j = seg_off segs k \<longleftrightarrow> j = k"
  using seg_off_le_iff[of segs j k] seg_off_le_iff[of segs k j] by auto

lemma seg_excerpt: "k < length segs \<Longrightarrow> excerpt (concat segs) (seg_off segs k) (segs ! k)"
proof -
  assume k: "k < length segs"
  have "concat segs = concat (take k segs) @ segs ! k @ concat (drop (Suc k) segs)"
    by (metis concat.simps(2) concat_append id_take_nth_drop k)
  then show ?thesis
    by (simp add: excerpt_def seg_off_def)
qed

lemma seg_dg_sel [simp]:
  "dg_index (seg_dg segs k) = seg_off segs k"
  "dg_data (seg_dg segs k) = segs ! k"
  "dg_size (seg_dg segs k) = length (segs ! k)"
  "dg_eof (seg_dg segs k) = (Suc k = length segs)"
  by (simp_all add: seg_dg_def)

subsection \<open>The scan over segments\<close>

lemma mm_scan_segs:
  assumes "wf_segs segs" "length (concat segs) < two64" "k < length segs"
    and "\<forall>j \<in> set ks. j < length segs"
  shows "mm_scan i (seg_dg segs k) (map (seg_dg segs) ks) un =
           Some (ScanBreak (seg_dg segs k) (map (seg_dg segs) ks) un) \<or>
         mm_scan i (seg_dg segs k) (map (seg_dg segs) ks) un =
           Some (ScanReturn (map (seg_dg segs) ks) un) \<and> k \<in> set ks"
proof (induction "length ks - i" arbitrary: i rule: less_induct)
  case less
  show ?case
  proof (cases "i \<ge> length ks")
    case True
    then show ?thesis by (subst (1 2) mm_scan.simps) simp
  next
    case False
    define j where "j = ks ! i"
    have j: "j < length segs" "j \<in> set ks"
      using False assms(4) by (auto simp: j_def)
    have off: "seg_off segs (Suc j) = seg_off segs j + length (segs ! j)"
      "seg_off segs (Suc k) = seg_off segs k + length (segs ! k)"
      using j assms(3) by (simp_all add: seg_off_Suc)
    have tails: "u64_add (seg_off segs j) (length (segs ! j)) = seg_off segs (Suc j)"
      "u64_add (length (segs ! k)) (seg_off segs k) = seg_off segs (Suc k)"
      using seg_off_le[of segs "Suc j"] seg_off_le[of segs "Suc k"] assms(2)
      by (simp_all add: off u64_add_exact add.commute)
    have IH: "mm_scan (Suc i) (seg_dg segs k) (map (seg_dg segs) ks) un =
           Some (ScanBreak (seg_dg segs k) (map (seg_dg segs) ks) un) \<or>
         mm_scan (Suc i) (seg_dg segs k) (map (seg_dg segs) ks) un =
           Some (ScanReturn (map (seg_dg segs) ks) un) \<and> k \<in> set ks"
      using False by (intro less) simp
    have nth: "map (seg_dg segs) ks ! i = seg_dg segs j"
      using False by (simp add: j_def)
    let ?scan = "\<lambda>i. mm_scan i (seg_dg segs k) (map (seg_dg segs) ks) un"
    consider "k = j" | "k < j" | "j < k" by linarith
    then show ?thesis
    proof cases
      case 1
      then have "?scan i = Some (ScanReturn (map (seg_dg segs) ks) un)"
        using False nth tails by (subst mm_scan.simps) (simp add: Let_def)
      with 1 j show ?thesis by simp
    next
      case 2
      then have "seg_off segs k < seg_off segs j" "seg_off segs (Suc k) \<le> seg_off segs j"
        using seg_off_less[OF assms(1) 2 j(1)] by (auto intro: seg_off_mono)
      then have "?scan i = ?scan (Suc i)"
        using False nth tails by (subst mm_scan.simps) (simp add: Let_def)
      with IH show ?thesis by simp
    next
      case 3
      then have "seg_off segs j < seg_off segs k" "seg_off segs (Suc j) \<le> seg_off segs k"
        using seg_off_less[OF assms(1) 3 assms(3)] by (auto intro: seg_off_mono)
      then have "?scan i =
          (if seg_off segs (Suc k) > seg_off segs (Suc j)
           then Some (ScanBreak (seg_dg segs k) (map (seg_dg segs) ks) un) else ?scan (Suc i))"
        using False nth tails by (subst mm_scan.simps) (simp add: Let_def)
      with IH show ?thesis by simp
    qed
  qed
qed

lemma insort_segs:
  assumes "wf_segs segs" "k < length segs" "\<forall>j \<in> set ks. j < length segs"
  shows "insort_key dg_index (seg_dg segs k) (map (seg_dg segs) ks) = map (seg_dg segs) (insort k ks)"
  using assms(3) by (induction ks) (auto simp: seg_off_le_iff[OF assms(1,2)])

lemma sort_segs:
  assumes "wf_segs segs" "k < length segs" "\<forall>j \<in> set ks. j < length segs" "sorted ks"
  shows "sort_key dg_index (seg_dg segs k # map (seg_dg segs) ks) =
    map (seg_dg segs) (insort k ks)"
proof -
  have "sorted (map dg_index (map (seg_dg segs) ks))"
    using assms(4) by (auto simp: sorted_map intro: sorted_wrt_mono_rel[of _ "(\<le>)"] seg_off_mono)
  then have "sort_key dg_index (map (seg_dg segs) ks) = map (seg_dg segs) ks"
    by (rule sort_key_id_if_sorted)
  then show ?thesis
    using insort_segs[OF assms(1-3)] by simp
qed

subsection \<open>States reached from segments\<close>

text \<open>The first \<open>m\<close> segments are written, the segments \<open>ks\<close> are stored.\<close>

definition seg_state :: "bytes list \<Rightarrow> StreamReassembler \<Rightarrow> nat \<Rightarrow> nat list \<Rightarrow> bool" where
  "seg_state segs r m ks \<longleftrightarrow>
     sr_inv (concat segs) r \<and> m \<le> length segs \<and> sr_next_assembling_index r = seg_off segs m \<and>
     sr_storage r = map (seg_dg segs) ks \<and> sorted ks \<and>
     (\<forall>j \<in> set ks. j < length segs \<and> sr_smallest_temporty_index r \<le> seg_off segs j) \<and>
     sr_unassembled_bytes r = sum_list (map (\<lambda>j. length (segs ! j)) ks) mod two64"

lemma seg_state_two64: "seg_state segs r m ks \<Longrightarrow> length (concat segs) < two64"
  by (simp add: seg_state_def sr_inv_def out_ok_def)

lemma seg_state_stored:
  assumes "seg_state segs r m ks" "j \<in> set ks"
  shows "j < length segs" "seg_off segs j + length (segs ! j) \<le> sr_window_end r"
    "sr_smallest_temporty_index r \<le> seg_off segs j"
  using assms by (auto simp: seg_state_def sr_inv_def dg_ok_def)

lemma sum_list_insort: "sum_list (map f (insort k ks)) = f k + sum_list (map f ks)" for f :: "nat \<Rightarrow> nat"
  by (induction ks) auto

lemma seg_hold:
  assumes "wf_segs segs" "seg_state segs r m ks" "k < length segs"
    and "seg_off segs k + length (segs ! k) \<le> sr_window_end r"
  shows "\<exists>r' ks'. missing_middle_handler r (seg_dg segs k) = Some r' \<and> seg_state segs r' m ks' \<and>
    set ks' = insert k (set ks) \<and> sr_output r' = sr_output r \<and> sr_window_end r' = sr_window_end r"
proof -
  have inv: "sr_inv (concat segs) r" and st: "sr_storage r = map (seg_dg segs) ks"
    and ks: "sorted ks" "\<forall>j \<in> set ks. j < length segs"
    and un: "sr_unassembled_bytes r = sum_list (map (\<lambda>j. length (segs ! j)) ks) mod two64"
    using assms(2) by (auto simp: seg_state_def)
  have dg: "dg_ok (concat segs) (sr_window_end r) (seg_dg segs k)"
    using assms(3,4) seg_excerpt[OF assms(3)] seg_off_Suc[OF assms(3)] seg_off_length[of segs]
    by (auto simp: dg_ok_def)
  let ?un = "sr_unassembled_bytes r"
  have "(if length (sr_storage r) > 0 then mm_scan 0 (seg_dg segs k) (sr_storage r) ?un
      else Some (ScanBreak (seg_dg segs k) (sr_storage r) ?un)) =
      mm_scan 0 (seg_dg segs k) (map (seg_dg segs) ks) ?un"
    by (subst (2) mm_scan.simps) (auto simp: st mm_scan.simps)
  note scan = missing_middle_handler_def[of r "seg_dg segs k", unfolded this]
  consider (brk) "mm_scan 0 (seg_dg segs k) (map (seg_dg segs) ks) ?un =
        Some (ScanBreak (seg_dg segs k) (map (seg_dg segs) ks) ?un)"
    | (ret) "mm_scan 0 (seg_dg segs k) (map (seg_dg segs) ks) ?un =
        Some (ScanReturn (map (seg_dg segs) ks) ?un)" "k \<in> set ks"
    using mm_scan_segs[OF assms(1) seg_state_two64[OF assms(2)] assms(3) ks(2), of 0 ?un] by blast
  then show ?thesis
  proof cases
    case ret
    have eq: "missing_middle_handler r (seg_dg segs k) = Some r"
      unfolding scan ret(1) by (simp flip: st)
    show ?thesis
      using eq assms(2) ret(2) by (intro exI[of _ r] exI[of _ ks]) auto
  next
    case brk
    define ks' where "ks' = insort k ks"
    define r' where "r' = r\<lparr>sr_storage := map (seg_dg segs) ks',
        sr_unassembled_bytes := u64_add ?un (length (segs ! k)),
        sr_smallest_temporty_index := seg_off segs (hd ks')\<rparr>"
    have set: "set ks' = insert k (set ks)" and sorted: "sorted ks'"
      using ks(1) by (auto simp: ks'_def set_insort_key sorted_insort)
    have ne: "ks' \<noteq> []" using set by auto
    have hd_le: "seg_off segs (hd ks') \<le> seg_off segs j" if "j \<in> set ks'" for j
      using that sorted ne by (cases ks') (auto intro: seg_off_mono)
    have eq: "missing_middle_handler r (seg_dg segs k) = Some r'"
      unfolding scan brk using sort_segs[OF assms(1,3) ks(2,1)] ne
      by (simp add: r'_def Let_def hd_map flip: ks'_def)
    note ok = missing_middle_ok[OF inv dg eq]
    have un': "u64_add ?un (length (segs ! k)) =
        sum_list (map (\<lambda>j. length (segs ! j)) ks') mod two64"
      unfolding un ks'_def sum_list_insort by (simp add: u64_add_mod add.commute)
    have "seg_state segs r' m ks'"
      using assms(2,3) ok(1,4) set sorted hd_le un' unfolding seg_state_def
      by (auto simp: r'_def)
    then show ?thesis
      using eq set ok by (intro exI[of _ r'] exI[of _ ks']) (simp add: sr_window_end_def)
  qed
qed

lemma sr_accept_counters:
  "sr_unassembled_bytes (snd (sr_accept r d i e)) = sr_unassembled_bytes r"
  "sr_smallest_temporty_index (snd (sr_accept r d i e)) = sr_smallest_temporty_index r"
  by (simp_all add: sr_accept_def overlap_handler_def Let_def)

lemma sr_accept_ended:
  "bs_inv (sr_output r) \<Longrightarrow>
   bs_input_ended (sr_output (snd (sr_accept r d i e))) = bs_input_ended (sr_output r)"
  by (simp add: sr_accept_def overlap_handler_def Let_def bs_write_eq)

lemma seg_accept:
  fixes e :: bool
  assumes "seg_state segs r m ks" "k < length segs" "k \<le> m"
    and "seg_off segs k + length (segs ! k) \<le> sr_window_end r"
  defines "a \<equiv> sr_accept r (segs ! k) (seg_off segs k) e"
  shows "fst a = False" "seg_state segs (snd a) (max m (Suc k)) ks"
    "sr_window_end (snd a) = sr_window_end r"
    "bs_input_ended (sr_output (snd a)) = bs_input_ended (sr_output r)"
proof -
  have out: "out_ok (concat segs) r" and next_eq: "sr_next_assembling_index r = seg_off segs m"
    using assms(1) by (auto simp: seg_state_def sr_inv_def)
  have "seg_off segs k \<le> sr_next_assembling_index r"
    unfolding next_eq using assms(3) by (rule seg_off_mono)
  note acc = sr_accept_ok[OF out seg_excerpt[OF assms(2)] assms(4) this, of e, folded a_def]
  show "fst a = False" "sr_window_end (snd a) = sr_window_end r"
    by (rule acc)+
  have "max (seg_off segs m) (seg_off segs (Suc k)) = seg_off segs (max m (Suc k))"
    using seg_off_mono[of m "Suc k" segs] seg_off_mono[of "Suc k" m segs] by (auto simp: max_def)
  then show "seg_state segs (snd a) (max m (Suc k)) ks"
    using assms(1,2) acc(2,3,4) seg_off_Suc[OF assms(2)] unfolding seg_state_def sr_inv_def
    by (auto simp: a_def sr_accept_storage sr_accept_counters next_eq)
  show "bs_input_ended (sr_output (snd a)) = bs_input_ended (sr_output r)"
    using out by (simp add: a_def sr_accept_ended out_ok_def)
qed

lemma seg_take_front:
  assumes "seg_state segs r m (w # ks)"
  shows "seg_state segs (sr_take_front r) m ks"
proof -
  have inv: "sr_inv (concat segs) r" and st: "sr_storage r = seg_dg segs w # map (seg_dg segs) ks"
    using assms by (auto simp: seg_state_def)
  have un: "sr_unassembled_bytes r =
      u64_add (sum_list (map (\<lambda>j. length (segs ! j)) ks) mod two64) (length (segs ! w))"
    using assms by (simp add: seg_state_def u64_add_mod add.commute)
  have "sr_unassembled_bytes (sr_take_front r) = sum_list (map (\<lambda>j. length (segs ! j)) ks) mod two64"
    by (simp add: sr_take_front_def st un u64_sub_add_cancel)
  then show ?thesis
    using assms sr_inv_take_front(1)[OF inv] st by (auto simp: seg_state_def)
qed

lemma seg_finish:
  assumes "seg_state segs r m ks" "e \<Longrightarrow> m = length segs"
  shows "seg_state segs (sr_finish e x r) m ks"
  using assms sr_inv_finish[of "concat segs" r e x]
  by (auto simp: seg_state_def seg_off_length)

lemma seg_indicator:
  assumes "sr_inv S r"
  shows "sr_capacity r + sr_next_assembling_index r \<le> sr_indicator r"
proof -
  have "sr_first_unassemble_byte_index r \<le> length S"
    using assms excerpt_length
    by (auto simp: sr_first_unassemble_byte_index_def sr_inv_def dg_ok_def excerpt_def split: list.splits)
  then show ?thesis
    using assms by (auto simp: sr_indicator_def sr_inv_def out_ok_def u64_add_exact)
qed

lemma sr_finish_ended [simp]:
  "bs_input_ended (sr_output (sr_finish e False r)) \<longleftrightarrow> e \<or> bs_input_ended (sr_output r)"
  by (simp add: sr_finish_def bs_end_input_def)

subsection \<open>Every push returns and makes what progress it can\<close>

text \<open>The next segment wanted is not lying in the store.\<close>

definition seg_settled :: "bytes list \<Rightarrow> nat \<Rightarrow> nat list \<Rightarrow> bool" where
  "seg_settled segs m ks \<longleftrightarrow> (m \<in> set ks \<longrightarrow> segs ! m = [])"

text \<open>What a push of segment \<open>k\<close> gives, as a relation between the states before and after.\<close>

definition seg_after ::
    "bytes list \<Rightarrow> nat \<Rightarrow> StreamReassembler \<Rightarrow> nat \<Rightarrow> nat list \<Rightarrow> StreamReassembler \<Rightarrow> nat \<Rightarrow> nat list \<Rightarrow> bool" where
  "seg_after segs k r m ks r' m' ks' \<longleftrightarrow>
     seg_state segs r' m' ks' \<and> m \<le> m' \<and> seg_settled segs m' ks' \<and>
     (\<forall>j \<in> insert k (set ks). segs ! j \<noteq> [] \<longrightarrow> j < m' \<or> j \<in> set ks') \<and>
     sr_window_end r' = sr_window_end r \<and>
     (bs_input_ended (sr_output r) \<longrightarrow> bs_input_ended (sr_output r')) \<and>
     (m < length segs \<and> m' = length segs \<longrightarrow> bs_input_ended (sr_output r'))"

lemma seg_after_refused:
  assumes "wf_segs segs" "seg_state segs r m ks" "k < length segs"
    and "seg_off segs k + length (segs ! k) \<le> sr_window_end r"
    and "seg_settled segs m ks \<or> (\<forall>j \<in> set ks. k \<le> j)"
    and "bs_remaining_capacity (sr_output r) = 0 \<or> seg_off segs k \<ge> sr_indicator r"
  shows "seg_after segs k r m ks r m ks"
proof -
  have inv: "sr_inv (concat segs) r" and nx: "sr_next_assembling_index r = seg_off segs m"
    using assms(2) by (auto simp: seg_state_def)
  have out: "out_ok (concat segs) r" using inv by (simp add: sr_inv_def)
  have k_done: "k < m" if "seg_off segs (Suc k) \<le> seg_off segs m" "segs ! k \<noteq> []"
  proof -
    have "0 < length (segs ! k)" using that(2) by simp
    then have "seg_off segs k < seg_off segs m"
      using that(1) seg_off_Suc[OF assms(3)] by linarith
    then show ?thesis using seg_off_mono[of m k segs] by (cases "k < m") auto
  qed
  have "(segs ! k \<noteq> [] \<longrightarrow> k < m) \<and> seg_settled segs m ks"
  proof (cases "bs_remaining_capacity (sr_output r) = 0")
    case True
    then have "sr_window_end r = seg_off segs m"
      using out_ok_room[OF out] nx by simp
    then show ?thesis
      using k_done assms(4) seg_off_Suc[OF assms(3)] seg_state_stored(2)[OF assms(2), of m]
      by (auto simp: seg_settled_def)
  next
    case False
    then have cap: "0 < sr_capacity r" and ge: "seg_off segs k \<ge> sr_capacity r + seg_off segs m"
      using out_ok_room[OF out] nx assms(6) seg_indicator[OF inv] out
      by (auto simp: sr_window_end_def out_ok_def)
    have "sr_window_end r \<le> sr_capacity r + seg_off segs m"
      using out nx by (auto simp: sr_window_end_def out_ok_def)
    with ge assms(4) have "length (segs ! k) = 0" by linarith
    then have "segs ! k = []" by simp
    moreover have "\<not> k \<le> m"
      using cap ge seg_off_mono[of k m segs] by auto
    ultimately show ?thesis
      using assms(5) by (auto simp: seg_settled_def)
  qed
  then show ?thesis
    using assms(2) by (auto simp: seg_after_def)
qed

lemma seg_push:
  assumes "wf_segs segs" "seg_state segs r m ks" "k < length segs"
    and "seg_off segs k + length (segs ! k) \<le> sr_window_end r"
    and "seg_settled segs m ks \<or> (\<forall>j \<in> set ks. k \<le> j)"
  shows "\<exists>r' m' ks'. seg_step segs r (Arrive k) = Some r' \<and> seg_after segs k r m ks r' m' ks'"
  using assms(2-5)
proof (induction "length ks" arbitrary: r m ks k rule: less_induct)
  case less
  note state = less.prems(1) and k = less.prems(2) and win = less.prems(3) and pre = less.prems(4)
  let ?e = "Suc k = length segs"
  have nx: "sr_next_assembling_index r = seg_off segs m" and m: "m \<le> length segs"
    and lt: "\<forall>j \<in> set ks. j < length segs"
    using state by (auto simp: seg_state_def)
  consider (stop) "bs_remaining_capacity (sr_output r) = 0 \<or> seg_off segs k \<ge> sr_indicator r"
    | (hold) "bs_remaining_capacity (sr_output r) \<noteq> 0" "seg_off segs k < sr_indicator r"
        "seg_off segs k > sr_next_assembling_index r"
    | (wrt) "bs_remaining_capacity (sr_output r) \<noteq> 0" "seg_off segs k < sr_indicator r"
        "seg_off segs k \<le> sr_next_assembling_index r"
    by linarith
  then show ?case
  proof cases
    case stop
    then show ?thesis
      using seg_after_refused[OF assms(1) state k win pre stop] by (auto simp: push_refused)
  next
    case hold
    then have "m < k"
      using nx seg_off_mono[of k m segs] by (cases "m < k") auto
    moreover obtain r' ks' where
        "missing_middle_handler r (seg_dg segs k) = Some r'" "seg_state segs r' m ks'"
        "set ks' = insert k (set ks)" "sr_output r' = sr_output r" "sr_window_end r' = sr_window_end r"
      using seg_hold[OF assms(1) state k win] by blast
    ultimately have "seg_step segs r (Arrive k) = Some r'" "seg_after segs k r m ks r' m ks'"
      using pre push_held[OF hold, of "segs ! k" ?e] m k
      by (auto simp: seg_dg_def seg_after_def seg_settled_def)
    then show ?thesis by blast
  next
    case wrt
    then have km: "k \<le> m"
      using nx k seg_off_less[OF assms(1), of m k] by (cases "k \<le> m") auto
    define r1 where "r1 = snd (sr_accept r (segs ! k) (seg_off segs k) ?e)"
    define m1 where "m1 = max m (Suc k)"
    note acc = seg_accept[OF state k km win, of ?e, folded r1_def m1_def]
    have m1: "m \<le> m1" "k < m1" "m < length segs \<and> m1 = length segs \<longrightarrow> ?e"
        "?e \<longrightarrow> m1 = length segs"
      using m k by (auto simp: m1_def)
    have st1: "sr_storage r1 = map (seg_dg segs) ks" and nx1: "sr_next_assembling_index r1 = seg_off segs m1"
      using acc(2) by (auto simp: seg_state_def)
    note push = push_written[OF wrt, of "segs ! k" ?e]
    show ?thesis
    proof (cases "sr_pulls r1 (segs ! k)")
      case False
      have "seg_settled segs m1 ks"
        using False lt m1 seg_state_stored(3)[OF acc(2), of m1] seg_nonempty[OF assms(1), of k] k st1
        by (auto simp: sr_pulls_def seg_settled_def nx1)
      moreover have "seg_step segs r (Arrive k) = Some (sr_finish ?e False r1)"
        using push acc(1) False by (simp add: split_beta flip: r1_def)
      moreover have "seg_state segs (sr_finish ?e False r1) m1 ks"
        using acc(2) m1 by (intro seg_finish) auto
      ultimately show ?thesis
        using acc m1 by (auto simp: seg_after_def
            intro!: exI[of _ "sr_finish ?e False r1"] exI[of _ m1] exI[of _ ks])
    next
      case True
      then obtain w ks1 where ks: "ks = w # ks1"
        using st1 by (cases ks) (auto simp: sr_pulls_def)
      have state1: "seg_state segs (sr_take_front r1) m1 ks1"
        using acc(2) unfolding ks by (rule seg_take_front)
      have w: "w < length segs" "seg_off segs w + length (segs ! w) \<le> sr_window_end (sr_take_front r1)"
        using seg_state_stored[OF acc(2), of w] ks by auto
      have "\<forall>j \<in> set ks1. w \<le> j"
        using state ks by (simp add: seg_state_def)
      with less.hyps[OF _ state1 w] ks obtain r2 m2 ks2 where
          r2: "seg_step segs (sr_take_front r1) (Arrive w) = Some r2"
            "seg_after segs w (sr_take_front r1) m1 ks1 r2 m2 ks2"
        by auto
      have step: "seg_step segs r (Arrive k) = Some (sr_finish ?e False r2)"
        using push acc(1) True r2(1) st1 by (simp add: split_beta ks flip: r1_def)
      have m2: "m1 \<le> m2" "m2 \<le> length segs"
        using r2(2) by (auto simp: seg_after_def seg_state_def)
      then have st2: "seg_state segs (sr_finish ?e False r2) m2 ks2"
        using r2(2) m1 by (intro seg_finish) (auto simp: seg_after_def)
      have "bs_input_ended (sr_output (sr_finish ?e False r2))"
        if "m < length segs" "m2 = length segs"
        using that r2(2) m1 m2 by (auto simp: seg_after_def)
      then have "seg_after segs k r m ks (sr_finish ?e False r2) m2 ks2"
        using r2(2) st2 acc m1 m2 unfolding seg_after_def by (auto simp: ks)
      with step show ?thesis by blast
    qed
  qed
qed

subsection \<open>Runs\<close>

definition seg_good :: "bytes list \<Rightarrow> nat set \<Rightarrow> StreamReassembler \<Rightarrow> nat \<Rightarrow> nat list \<Rightarrow> bool" where
  "seg_good segs G r m ks \<longleftrightarrow> seg_state segs r m ks \<and> seg_settled segs m ks \<and>
     (\<forall>j \<in> G. segs ! j \<noteq> [] \<longrightarrow> j < m \<or> j \<in> set ks) \<and>
     (m = length segs \<longrightarrow> bs_input_ended (sr_output r))"

lemma seg_good_push:
  assumes "wf_segs segs" "seg_good segs G r m ks" "seg_allowed segs r (Arrive k)"
  shows "\<exists>r' m' ks'. seg_step segs r (Arrive k) = Some r' \<and> seg_good segs (insert k G) r' m' ks' \<and>
    m \<le> m' \<and> (bs_input_ended (sr_output r) \<longrightarrow> bs_input_ended (sr_output r'))"
proof -
  have state: "seg_state segs r m ks" and set: "seg_settled segs m ks"
    using assms(2) by (auto simp: seg_good_def)
  have k: "k < length segs" "seg_off segs k + length (segs ! k) \<le> sr_window_end r"
    using assms(3) by auto
  obtain r' m' ks' where r': "seg_step segs r (Arrive k) = Some r'"
      "seg_after segs k r m ks r' m' ks'"
    using seg_push[OF assms(1) state k] set by blast
  have "m \<le> length segs" using state by (simp add: seg_state_def)
  then have "seg_good segs (insert k G) r' m' ks'"
    using r'(2) assms(2) unfolding seg_good_def seg_after_def
    by (auto dest: le_neq_implies_less less_le_trans)
  with r' show ?thesis unfolding seg_after_def by blast
qed

text \<open>A segment other than the next one writes nothing, the next one with data is written.\<close>

lemma seg_other_written:
  assumes "wf_segs segs" "seg_good segs G r m ks" "seg_allowed segs r (Arrive k)"
    and "seg_step segs r (Arrive k) = Some r'" "seg_off segs k \<noteq> seg_off segs m \<or> segs ! k = []"
  shows "sr_next_assembling_index r' = sr_next_assembling_index r"
proof -
  have state: "seg_state segs r m ks" and set: "seg_settled segs m ks"
    using assms(2) by (auto simp: seg_good_def)
  have nx: "sr_next_assembling_index r = seg_off segs m" and m: "m \<le> length segs"
    and inv: "sr_inv (concat segs) r"
    using state by (auto simp: seg_state_def)
  have k: "k < length segs" "seg_off segs k + length (segs ! k) \<le> sr_window_end r"
    using assms(3) by auto
  have here: "j = m" if "j < length segs" "dg_covers (seg_off segs m) (seg_off segs j) (length (segs ! j))" for j
  proof (rule ccontr)
    assume "j \<noteq> m"
    then consider "j < m" | "m < j" by linarith
    then show False
    proof cases
      case 1
      then have "seg_off segs (Suc j) \<le> seg_off segs m" by (intro seg_off_mono) simp
      then show ?thesis using that by (simp add: seg_off_Suc dg_covers_def)
    next
      case 2
      then show ?thesis using seg_off_less[OF assms(1), of m j] that by (simp add: dg_covers_def)
    qed
  qed
  have "\<not> dg_covers (seg_off segs m) (seg_off segs k) (length (segs ! k))"
    using here[of k] k(1) assms(5) by (auto simp: dg_covers_def)
  moreover have "\<forall>w \<in> set (sr_storage r). \<not> dg_covers (seg_off segs m) (dg_index w) (dg_size w)"
    using here state set by (fastforce simp: seg_state_def seg_settled_def dg_covers_def)
  moreover have "Suc k = length segs \<longrightarrow> seg_off segs k + length (segs ! k) = length (concat segs)"
    using seg_off_Suc[OF k(1)] seg_off_length[of segs] by auto
  ultimately show ?thesis
    using push_fills_nothing[OF inv seg_excerpt[OF k(1)] k(2) _ assms(4)[unfolded seg_step.simps]]
    by (simp add: nx)
qed

lemma seg_next_written:
  assumes "wf_segs segs" "seg_good segs G r m ks" "seg_good segs (insert k G) r' m' ks'" "m \<le> m'"
    and "seg_off segs k = seg_off segs m" "segs ! k \<noteq> []" "k < length segs"
  shows "k < m'"
proof -
  have "m \<le> length segs" using assms(2) by (simp add: seg_good_def seg_state_def)
  moreover have "seg_off segs k < seg_off segs (length segs)"
    using seg_off_mono[of "Suc k" "length segs" segs] seg_off_Suc[OF assms(7)] assms(6,7)
    by (simp flip: length_greater_0_conv)
  ultimately have "k = m"
    using seg_off_eq_iff[OF assms(1,7), of m] assms(5) by (cases "m = length segs") auto
  moreover have "k < m' \<or> k \<in> set ks'" "m' \<in> set ks' \<longrightarrow> segs ! m' = []"
    using assms(3,6) by (auto simp: seg_good_def seg_settled_def)
  ultimately show ?thesis using assms(4,6) by (cases "m' = m") auto
qed

lemma seg_good_pop:
  assumes "seg_good segs G r m ks"
  shows "seg_good segs G (r\<lparr>sr_output := bs_pop_output (sr_output r) n\<rparr>) m ks"
proof -
  have inv: "sr_inv (concat segs) r" and bs: "bs_inv (sr_output r)"
    using assms by (auto simp: seg_good_def seg_state_def sr_inv_def out_ok_def)
  show ?thesis
    using assms sr_inv_pop[OF inv, of n] by (auto simp: seg_good_def seg_state_def bs_pop_eq[OF bs])
qed

lemma bs_pop_ended [simp]: "bs_input_ended (bs_pop_output bs n) = bs_input_ended bs"
  by (simp add: bs_pop_output_def Let_def)

lemma seg_good_run:
  assumes "wf_segs segs" "seg_good segs G r m ks" "seg_run_allowed segs r evs"
  shows "\<exists>r' m' ks'. seg_run segs r evs = Some r' \<and>
    seg_good segs (G \<union> {k. Arrive k \<in> set evs}) r' m' ks' \<and>
    (bs_input_ended (sr_output r) \<longrightarrow> bs_input_ended (sr_output r'))"
  using assms(2,3)
proof (induction evs arbitrary: G r m ks)
  case Nil
  then show ?case by auto
next
  case (Cons ev evs)
  have "\<exists>r1 m1 ks1. seg_step segs r ev = Some r1 \<and>
      seg_good segs (G \<union> {k. ev = Arrive k}) r1 m1 ks1 \<and>
      (bs_input_ended (sr_output r) \<longrightarrow> bs_input_ended (sr_output r1))"
  proof (cases ev)
    case (Arrive k)
    then show ?thesis
      using seg_good_push[OF assms(1) Cons.prems(1), of k] Cons.prems(2) by auto
  next
    case (ReaderPop n)
    then show ?thesis
      using seg_good_pop[OF Cons.prems(1), of n] by auto
  qed
  then obtain r1 m1 ks1 where s1: "seg_step segs r ev = Some r1"
      "seg_good segs (G \<union> {k. ev = Arrive k}) r1 m1 ks1"
      "bs_input_ended (sr_output r) \<longrightarrow> bs_input_ended (sr_output r1)"
    by blast
  moreover have "seg_run_allowed segs r1 evs"
    using Cons.prems(2) s1(1) by simp
  moreover have "G \<union> {k. ev = Arrive k} \<union> {k. Arrive k \<in> set evs} = G \<union> {k. Arrive k \<in> set (ev # evs)}"
    by auto
  ultimately show ?case
    using Cons.IH by fastforce
qed

lemma seg_good_new:
  assumes "wf_segs segs" "length (concat segs) + c < two64"
  shows "seg_good segs {} (sr_new c) 0 []"
  using assms sr_inv_new[OF assms(2)]
  by (auto simp: seg_good_def seg_state_def seg_settled_def sr_new_def wf_segs_def)

lemma seg_good_contiguous:
  assumes "wf_segs segs" "seg_good segs G r m ks" "n \<le> length segs" "\<forall>k < n. k \<in> G"
  shows "seg_off segs n \<le> bs_bytes_written (sr_output r)"
    and "n = length segs \<Longrightarrow> segs ! (n - 1) \<noteq> [] \<Longrightarrow> bs_input_ended (sr_output r)"
proof -
  have w: "bs_bytes_written (sr_output r) = seg_off segs m" and lt: "\<forall>j \<in> set ks. j < length segs"
    using assms(2) by (auto simp: seg_good_def seg_state_def sr_inv_def out_ok_def)
  have empty: "segs ! m = []" if "m < n"
    using that assms(2,4) by (auto simp: seg_good_def seg_settled_def)
  then have last: "Suc m = length segs" if "m < n"
    using that assms(3) seg_nonempty[OF assms(1), of m] by fastforce
  show "seg_off segs n \<le> bs_bytes_written (sr_output r)"
  proof (cases "m < n")
    case True
    then have "n = Suc m" using last assms(3) by simp
    then show ?thesis using True empty seg_off_Suc[of m segs] assms(3) w by simp
  next
    case False
    then show ?thesis using w seg_off_mono[of n m segs] by simp
  qed
  show "bs_input_ended (sr_output r)" if "n = length segs" "segs ! (n - 1) \<noteq> []"
  proof -
    have "\<not> m < n" using that empty last by (metis diff_Suc_1)
    then have "m = length segs"
      using that(1) assms(2) by (auto simp: seg_good_def seg_state_def)
    then show ?thesis using assms(2) by (simp add: seg_good_def)
  qed
qed

text \<open>An empty last piece that arrives at the next index while there is room ends the output.\<close>

lemma push_fin_here:
  assumes "sr_inv S r" "index = sr_next_assembling_index r" "index < sr_window_end r"
    and "push_substring r [] index True = Some r'"
  shows "bs_input_ended (sr_output r')"
proof -
  have out: "out_ok S r" using assms(1) by (simp add: sr_inv_def)
  have cap: "sr_capacity r > 0" "sr_capacity r + sr_next_assembling_index r < two64"
    using out assms(2,3) by (auto simp: out_ok_def sr_window_end_def)
  have room: "bs_remaining_capacity (sr_output r) \<noteq> 0"
    using out_ok_room[OF out] assms(2,3) by simp
  have "index < sr_indicator r"
  proof (cases "sr_first_unassemble_byte_index r \<ge> sr_next_assembling_index r")
    case True
    consider d where "d \<in> set (sr_storage r)" "dg_index d = sr_first_unassemble_byte_index r"
      | "sr_first_unassemble_byte_index r = 0"
      by (cases "sr_storage r") (auto simp: sr_first_unassemble_byte_index_def)
    then have "sr_capacity r + sr_first_unassemble_byte_index r < two64"
    proof cases
      case 1
      then have "dg_ok S (sr_window_end r) d" using assms(1) by (simp add: sr_inv_def)
      then have "dg_index d \<le> length S" using excerpt_length by (fastforce simp: dg_ok_def)
      then show ?thesis using out 1(2) by (simp add: out_ok_def)
    next
      case 2
      then show ?thesis using cap by simp
    qed
    then show ?thesis using True cap assms(2) by (simp add: sr_indicator_def u64_add_exact)
  next
    case False
    then show ?thesis using cap assms(2) by (simp add: sr_indicator_def u64_add_exact)
  qed
  moreover have "sr_accept r [] index True = (False, r)"
    using out assms(2) by (auto simp: sr_accept_def bs_write_eq out_ok_def bs_inv_def Let_def)
  ultimately have "push_substring r [] index True = Some (sr_finish True False r)"
    using room assms(2) by (subst push_written) (auto simp: sr_pulls_def)
  with assms(4) show ?thesis by (auto simp: sr_finish_def bs_end_input_def)
qed

lemma seg_end_signalled:
  assumes "wf_segs segs" "seg_good segs G r m ks" "\<forall>k < length segs - 1. k \<in> G"
    and "seg_allowed segs r (Arrive (length segs - 1))" "bs_remaining_capacity (sr_output r) \<noteq> 0"
    and "seg_step segs r (Arrive (length segs - 1)) = Some r'"
  shows "bs_input_ended (sr_output r')"
proof -
  let ?l = "length segs - 1"
  have l: "?l < length segs" "Suc ?l = length segs" using assms(1) by (auto simp: wf_segs_def)
  show ?thesis
  proof (cases "segs ! ?l = []")
    case True
    have inv: "sr_inv (concat segs) r" and out: "out_ok (concat segs) r"
      using assms(2) by (auto simp: seg_good_def seg_state_def sr_inv_def)
    have "seg_off segs ?l \<le> bs_bytes_written (sr_output r)"
      by (rule seg_good_contiguous(1)[OF assms(1,2) _ assms(3)]) simp
    moreover have "seg_off segs ?l = length (concat segs)"
      using seg_off_Suc[OF l(1)] True l(2) seg_off_length[of segs] by simp
    ultimately have "seg_off segs ?l = sr_next_assembling_index r"
      using out by (simp add: out_ok_def)
    moreover have "sr_next_assembling_index r < sr_window_end r"
      using out_ok_room[OF out] assms(5) by simp
    ultimately show ?thesis
      using push_fin_here[OF inv, of "seg_off segs ?l" r'] assms(6) True l(2) by simp
  next
    case False
    obtain m' ks' where good: "seg_good segs (insert ?l G) r' m' ks'"
      using seg_good_push[OF assms(1,2,4)] assms(6) by auto
    moreover have "\<forall>k < length segs. k \<in> insert ?l G"
      using assms(3) l by (metis insert_iff less_Suc_eq)
    ultimately show ?thesis
      using seg_good_contiguous(2)[OF assms(1) good, of "length segs"] False by simp
  qed
qed

lemma seg_run_append:
  "seg_run segs r (evs @ evs') = Option.bind (seg_run segs r evs) (\<lambda>r'. seg_run segs r' evs')"
  by (induction evs arbitrary: r) (simp_all split: option.split)

lemma seg_run_allowed_append:
  assumes "seg_run_allowed segs r (evs @ evs')"
  shows "seg_run_allowed segs r evs"
    and "seg_run segs r evs = Some r' \<Longrightarrow> seg_run_allowed segs r' evs'"
  using assms by (induction evs arbitrary: r) (auto split: option.splits)

subsection \<open>Properties\<close>

text \<open>
  C2. Total correctness against a peer that keeps to one segmentation, whose pieces are not
  empty except possibly the last, and that sends each piece only where it ends inside the
  window: whatever the order of arrivals, the repetitions and the reads in between, every push
  returns, and once the first \<open>n\<close> segments have each arrived at least once, all their bytes
  have been written to the output; once all have arrived the whole stream has been written.
  Its end is signalled when all have arrived and the last one carries data, and, empty or not,
  when the last one arrived at some moment after all the others while the output had room.
\<close>

theorem reassembler_complete:
  assumes "wf_segs segs" "length (concat segs) + c < two64" "seg_run_allowed segs (sr_new c) evs"
  shows "\<exists>r. seg_run segs (sr_new c) evs = Some r \<and>
    (\<forall>n. n \<le> length segs \<longrightarrow> (\<forall>k < n. Arrive k \<in> set evs) \<longrightarrow>
       seg_off segs n \<le> bs_bytes_written (sr_output r)) \<and>
    ((\<forall>k < length segs. Arrive k \<in> set evs) \<longrightarrow>
       bs_bytes_written (sr_output r) = length (concat segs) \<and>
       (last segs \<noteq> [] \<longrightarrow> bs_input_ended (sr_output r))) \<and>
    (\<forall>evs1 evs2 r1. evs = evs1 @ Arrive (length segs - 1) # evs2 \<longrightarrow>
       seg_run segs (sr_new c) evs1 = Some r1 \<longrightarrow> (\<forall>k < length segs - 1. Arrive k \<in> set evs1) \<longrightarrow>
       bs_remaining_capacity (sr_output r1) \<noteq> 0 \<longrightarrow> bs_input_ended (sr_output r))"
proof -
  note new = seg_good_new[OF assms(1,2)]
  obtain r m ks where r: "seg_run segs (sr_new c) evs = Some r"
      and good: "seg_good segs {k. Arrive k \<in> set evs} r m ks"
    using seg_good_run[OF assms(1) new assms(3)] by auto
  have "bs_bytes_written (sr_output r) \<le> length (concat segs)"
    using good by (auto simp: seg_good_def seg_state_def sr_inv_def out_ok_def)
  moreover have "last segs = segs ! (length segs - 1)"
    using assms(1) by (simp add: wf_segs_def last_conv_nth)
  moreover have "bs_input_ended (sr_output r)"
    if evs: "evs = evs1 @ Arrive (length segs - 1) # evs2" and r1: "seg_run segs (sr_new c) evs1 = Some r1"
      and all: "\<forall>k < length segs - 1. Arrive k \<in> set evs1" and room: "bs_remaining_capacity (sr_output r1) \<noteq> 0"
    for evs1 evs2 r1
  proof -
    have al: "seg_run_allowed segs (sr_new c) evs1" "seg_run_allowed segs r1 (Arrive (length segs - 1) # evs2)"
      using seg_run_allowed_append[OF assms(3)[unfolded evs]] r1 by auto
    obtain m1 ks1 where good1: "seg_good segs {k. Arrive k \<in> set evs1} r1 m1 ks1"
      using seg_good_run[OF assms(1) new al(1)] r1 by auto
    obtain r2 m2 ks2 where r2: "seg_step segs r1 (Arrive (length segs - 1)) = Some r2"
        "seg_good segs (insert (length segs - 1) {k. Arrive k \<in> set evs1}) r2 m2 ks2"
      using seg_good_push[OF assms(1) good1, of "length segs - 1"] al(2) by auto
    have "bs_input_ended (sr_output r2)"
      using seg_end_signalled[OF assms(1) good1 _ _ room r2(1)] all al(2) by simp
    moreover have "seg_run_allowed segs r2 evs2" "seg_run segs r2 evs2 = Some r"
      using al(2) r2(1) r r1 by (simp_all add: evs seg_run_append)
    ultimately show ?thesis using seg_good_run[OF assms(1) r2(2), of evs2] by simp
  qed
  ultimately show ?thesis
    using r seg_good_contiguous[OF assms(1) good] by (force simp: seg_off_length)
qed

theorem reassembler_complete_witness:
  "\<exists>r. seg_run [[1, 2], [3], [4, 5], []] (sr_new 9) [Arrive 2, Arrive 1, Arrive 2, Arrive 0, Arrive 3, ReaderPop 1] = Some r \<and>
     bs_bytes_written (sr_output r) = 5 \<and> bs_input_ended (sr_output r)"
proof -
  let ?segs = "[[1, 2], [3], [4, 5], []] :: bytes list"
  let ?evs = "[Arrive 2, Arrive 1, Arrive 2, Arrive 0, Arrive 3, ReaderPop 1]"
  have 1: "wf_segs ?segs" by (simp add: wf_segs_def)
  have 2: "length (concat ?segs) + 9 < two64" by (simp add: two64_def)
  have 3: "seg_run_allowed ?segs (sr_new 9) ?evs"
    by (simp add: seg_off_def sr_window_end_def push_eval bs_pop_output_def)
  have 4: "\<forall>k < length ?segs. Arrive k \<in> set ?evs" "\<forall>k < length ?segs - 1. Arrive k \<in> set (take 4 ?evs)"
    by (auto simp: less_Suc_eq numeral_eq_Suc)
  have 5: "\<exists>r. seg_run ?segs (sr_new 9) (take 4 ?evs) = Some r \<and> bs_remaining_capacity (sr_output r) \<noteq> 0"
    by (simp add: seg_off_def push_eval)
  have 6: "?evs = take 4 ?evs @ Arrive (length ?segs - 1) # drop 5 ?evs" by simp
  obtain r where r: "seg_run ?segs (sr_new 9) ?evs = Some r"
      "bs_bytes_written (sr_output r) = length (concat ?segs)" "bs_input_ended (sr_output r)"
    using reassembler_complete[OF 1 2 3] 4 5 6 by blast
  show ?thesis using r by (intro exI[of _ r]) simp
qed

subsection \<open>Outside these conditions\<close>

datatype sr_event = Push bytes nat bool | Pop nat

fun sr_exec :: "StreamReassembler \<Rightarrow> sr_event list \<Rightarrow> StreamReassembler option" where
  "sr_exec r [] = Some r"
| "sr_exec r (Push d i e # evs) =
     (case push_substring r d i e of None \<Rightarrow> None | Some r' \<Rightarrow> sr_exec r' evs)"
| "sr_exec r (Pop n # evs) = sr_exec (r\<lparr>sr_output := bs_pop_output (sr_output r) n\<rparr>) evs"

lemma mm_scan_loops:
  assumes "st \<noteq> []" "dg_index (hd st) = dg_index dg" "dg_size dg < dg_size (hd st)"
    and "dg_index dg + dg_size (hd st) < two64"
  shows "mm_scan 0 dg st un = None"
proof (rule ccontr)
  let ?P = "\<lambda>(i :: nat) dg' st' (un' :: u64) (res :: scan_result). \<not> (i = 0 \<and> dg' = dg \<and> st' = st)"
  assume "mm_scan 0 dg st un \<noteq> None"
  then obtain res where ret: "mm_scan 0 dg st un = Some res" by blast
  obtain d rest where st: "st = d # rest" using assms(1) by (cases st) auto
  have tails: "u64_add (dg_index dg) (dg_size d) = dg_index dg + dg_size d"
    "u64_add (dg_size dg) (dg_index dg) = dg_index dg + dg_size dg"
    using assms(3,4) by (simp_all add: st u64_add_exact add.commute)
  have "?P 0 dg st un res"
  proof (rule mm_scan.raw_induct[where P = ?P, OF _ ret], goal_cases)
    case (1 f i dg' st' un' res)
    show ?case
    proof
      assume "i = 0 \<and> dg' = dg \<and> st' = st"
      with 1(2) assms(2,3) tails have "f 0 dg st un' = Some res"
        by (auto simp: st Let_def split: if_splits)
      then show False using 1(1) by blast
    qed
  qed
  then show False by simp
qed

text \<open>
  C37. A substring that starts at the same index as the first stored fragment and is shorter
  makes \<open>push_substring\<close> loop forever: the scan finds the stored fragment neither equal nor
  replaceable and restarts from the front without having changed anything.
\<close>

theorem push_shorter_duplicate_diverges:
  assumes "sr_storage r = d # rest" "dg_index d = i" "i > sr_next_assembling_index r"
    and "length data < dg_size d" "i + dg_size d < two64"
    and "bs_remaining_capacity (sr_output r) \<noteq> 0" "i < sr_indicator r"
  shows "push_substring r data i e = None"
proof -
  have "mm_scan 0 (new_dg data i e) (d # rest) (sr_unassembled_bytes r) = None"
    using assms by (intro mm_scan_loops) auto
  then show ?thesis
    using assms by (simp add: push_held missing_middle_handler_def)
qed

theorem push_shorter_duplicate_diverges_witness:
  "sr_exec (sr_new 5) [Push [3, 4] 2 True, Push [3] 2 False] = None"
proof -
  have "push_substring example_held [3] 2 False = None"
    by (rule push_shorter_duplicate_diverges[of _ "new_dg [3, 4] 2 True" "[]"])
      (simp_all add: example_held_def push_eval)
  then show ?thesis
    by (simp add: example_push_held)
qed

text \<open>
  C39. Data beyond the window corrupts the stream. Take any reassembler with room whose store
  is empty, and a fragment that starts before the next index \<open>N\<close> and reaches past the free
  space: only the bytes that fit are written, but the next index moves to the end of the
  fragment. The next index is then ahead of the output by the bytes that were dropped; and
  when the reader has taken \<open>n\<close> bytes, a following piece of at most \<open>n\<close> bytes is written
  directly behind them, so the stream misses the dropped bytes in its middle.
\<close>

theorem overlap_beyond_window_corrupts:
  assumes "bs_inv (sr_output r)" "sr_storage r = []" "sr_next_assembling_index r = N"
    and "index < N" "bs_remaining_capacity (sr_output r) = room" "0 < room"
    and "N + room < index + length data" "sr_capacity r + index + length data < two64" "sr_capacity r > 0"
  shows "\<exists>r'. push_substring r data index False = Some r' \<and>
    sr_next_assembling_index r' = index + length data \<and>
    bs_stream (sr_output r') = bs_stream (sr_output r) @ take room (drop (N - index) data) \<and>
    (\<forall>n more. n \<le> length (bs_stream (sr_output r')) \<longrightarrow> length more \<le> n \<longrightarrow>
       (\<exists>r''. sr_exec r' [Pop n, Push more (index + length data) False] = Some r'' \<and>
          bs_stream (sr_output r'') = drop n (bs_stream (sr_output r')) @ more))"
proof -
  define part where "part = drop (N - index) data"
  define r' where "r' = r\<lparr>sr_output := snd (bs_write (sr_output r) part),
     sr_next_assembling_index := index + length data\<rparr>"
  have len: "length part = index + length data - N" "room < length part"
    using assms(4,7) by (auto simp: part_def)
  have "snd (sr_accept r data index False) = r'"
    using assms(3,4,7,8) len
    by (simp add: sr_accept_def overlap_handler_def u64_add_exact u64_sub_exact Let_def r'_def
        part_def[symmetric])
  then have push: "push_substring r data index False = Some r'"
    using assms by (subst push_written)
      (auto simp: sr_indicator_def sr_first_unassemble_byte_index_def u64_add_exact sr_pulls_def
        sr_finish_def split_beta r'_def)
  have inv: "bs_inv (sr_output r')"
    using assms(1) by (simp add: r'_def bs_inv_write)
  have full: "bs_remaining_capacity (sr_output r') = 0"
    and stream: "bs_stream (sr_output r') = bs_stream (sr_output r) @ take room part"
    using assms(1,5) len by (simp_all add: r'_def bs.put_room bs.put_contents)
  have "\<exists>r''. sr_exec r' [Pop n, Push more (index + length data) False] = Some r'' \<and>
          bs_stream (sr_output r'') = drop n (bs_stream (sr_output r')) @ more"
    if "n \<le> length (bs_stream (sr_output r'))" "length more \<le> n" for n more
  proof (cases "n = 0")
    case True
    then show ?thesis
      using that full inv bs.pop_room[OF inv, of 0] bs.pop_contents[OF inv, of 0] by (simp add: push_refused)
  next
    case False
    let ?r = "r'\<lparr>sr_output := bs_pop_output (sr_output r') n\<rparr>"
    have inv2: "bs_inv (sr_output ?r)" and room2: "bs_remaining_capacity (sr_output ?r) = n"
      using bs_inv_pop[OF inv] bs.pop_room[OF inv, of n] full that(1) by simp_all
    have "push_substring ?r more (index + length data) False = Some (snd (sr_accept ?r more (index + length data) False))"
      using assms(2,3,4,7,8,9) room2 False
      by (subst push_written)
        (auto simp: sr_indicator_def sr_first_unassemble_byte_index_def u64_add_exact sr_pulls_def
          sr_accept_def sr_finish_def split_beta r'_def Let_def)
    moreover have "bs_stream (sr_output (snd (sr_accept ?r more (index + length data) False))) =
        drop n (bs_stream (sr_output r')) @ more"
      using bs.put_contents[OF inv2, of more] room2 that(2) bs.pop_contents[OF inv, of n]
      by (simp add: sr_accept_def Let_def r'_def)
    ultimately show ?thesis by simp
  qed
  then show ?thesis using push stream by (auto simp: r'_def part_def)
qed

text \<open>With capacity 2 and the first byte of \<open>1, 2, 3, 4, 5\<close> delivered, the reader gets \<open>1, 2, 5\<close>.\<close>

theorem overlap_beyond_window_corrupts_witness:
  "\<exists>r'. sr_exec (sr_new 2) [Push [1] 0 False, Push [1, 2, 3, 4] 0 False] = Some r' \<and>
     bs_stream (sr_output r') = [1, 2] \<and>
     (\<exists>r''. sr_exec r' [Pop 2, Push [5] 4 False] = Some r'' \<and> bs_stream (sr_output r'') = [5])"
proof -
  define r where "r = (sr_new 2)\<lparr>sr_next_assembling_index := 1,
     sr_output := (bs_new 2)\<lparr>bs_stream := [1], bs_buffer_size := 1, bs_bytes_written := 1\<rparr>\<rparr>"
  have 1: "push_substring (sr_new 2) [1] 0 False = Some r"
    by (simp add: push_eval r_def)
  have 2: "bs_inv (sr_output r)" "sr_storage r = []" "sr_next_assembling_index r = 1"
      "bs_remaining_capacity (sr_output r) = 1" "sr_capacity r + 0 + length [1, 2, 3, 4 :: byte] < two64"
      "sr_capacity r > 0" "bs_stream (sr_output r) = [1]"
    by (simp_all add: r_def bs_inv_def bs_new_def sr_new_def bs_remaining_capacity_def u64_add_def u64_sub_def two64_def)
  obtain r' where r': "push_substring r [1, 2, 3, 4] 0 False = Some r'" "bs_stream (sr_output r') = [1, 2]"
      "\<forall>n more. n \<le> length (bs_stream (sr_output r')) \<longrightarrow> length more \<le> n \<longrightarrow>
       (\<exists>r''. sr_exec r' [Pop n, Push more 4 False] = Some r'' \<and>
          bs_stream (sr_output r'') = drop n (bs_stream (sr_output r')) @ more)"
    using overlap_beyond_window_corrupts[OF 2(1-3) _ 2(4) _ _ 2(5,6)] 2(7) by (auto simp: eval_nat_numeral)
  then have "\<exists>r''. sr_exec r' [Pop 2, Push [5] 4 False] = Some r'' \<and> bs_stream (sr_output r'') = drop 2 [1, 2] @ [5]"
    using r'(3)[rule_format, of 2 "[5]"] by simp
  then show ?thesis using 1 r'(1,2) by simp
qed

text \<open>
  Merging loses the end mark: the last fragment arrives first and carries the end of the
  stream, a second fragment overlaps it and is merged with it, and after the rest has
  arrived all four bytes are written but the input is not ended.
\<close>

theorem merge_loses_eof:
  "\<exists>r. sr_exec (sr_new 8) [Push [3, 4] 2 True, Push [2, 3] 1 False, Push [1] 0 False] = Some r \<and>
     bs_stream (sr_output r) = [1, 2, 3, 4] \<and> \<not> bs_input_ended (sr_output r)"
  by (simp add: push_eval)

text \<open>
  The count of unassembled bytes counts a byte twice when its fragment is not the first
  one stored: bytes 2 and 4 are waiting, byte 4 was pushed twice, and the count is 3.
\<close>

theorem unassembled_counts_twice:
  "\<exists>r. sr_exec (sr_new 8) [Push [3] 2 False, Push [5] 4 False, Push [5] 4 False] = Some r \<and>
     sr_unassembled r = 3 \<and> \<Union> ((\<lambda>d. {dg_index d ..< dg_index d + dg_size d}) ` set (sr_storage r)) = {2, 4}"
  by (simp add: push_eval sr_unassembled_def) auto

end
