(* ===== verification/Net_Buffer.thy ===== *)
theory Net_Buffer
  imports Sponge_Prelude
begin

text \<open>
  Buffers (\<open>libsponge/util/buffer.hh\<close> and \<open>buffer.cc\<close>): \<open>Buffer\<close>, a shared string of
  which a prefix has been discarded, \<open>BufferList\<close>, a sequence of them, and
  \<open>BufferViewList\<close>, a sequence of string views. The string a \<open>Buffer\<close> stands for is
  \<open>buf_str\<close>; the lemmas show that each operation is the corresponding operation on that
  string, and that the discontiguous lists behave as their concatenation.
\<close>

subsection \<open>Buffer\<close>

record Buffer =
  buf_storage :: "bytes option"
  buf_starting_offset :: u64

definition buf_empty :: Buffer where
  "buf_empty = \<lparr>buf_storage = None, buf_starting_offset = 0\<rparr>"

definition buf_of_string :: "bytes \<Rightarrow> Buffer" where
  "buf_of_string s = \<lparr>buf_storage = Some s, buf_starting_offset = 0\<rparr>"

definition buf_str :: "Buffer \<Rightarrow> bytes" where
  "buf_str b = (case buf_storage b of None \<Rightarrow> [] | Some s \<Rightarrow> drop (buf_starting_offset b) s)"

definition buf_at :: "Buffer \<Rightarrow> u64 \<Rightarrow> cpp_error + byte" where
  "buf_at b n = (if n < length (buf_str b) then Inr (buf_str b ! n)
     else Inl (OutOfRange ''string_view::at''))"

definition buf_size :: "Buffer \<Rightarrow> u64" where
  "buf_size b = length (buf_str b)"

definition buf_copy :: "Buffer \<Rightarrow> bytes" where
  "buf_copy b = buf_str b"

definition buf_remove_prefix :: "Buffer \<Rightarrow> u64 \<Rightarrow> cpp_error + Buffer" where
  "buf_remove_prefix b n =
     (if n > length (buf_str b) then Inl (OutOfRange ''Buffer::remove_prefix'')
      else
        let off = u64_add (buf_starting_offset b) n in
        Inr (b\<lparr>buf_starting_offset := off,
               buf_storage := (case buf_storage b of
                  Some s \<Rightarrow> if off = length s then None else Some s
                | None \<Rightarrow> None)\<rparr>))"

subsection \<open>BufferList\<close>

type_synonym BufferList = "Buffer list"

definition bl_of_string :: "bytes \<Rightarrow> BufferList" where
  "bl_of_string s = [buf_of_string s]"

definition bl_append :: "BufferList \<Rightarrow> BufferList \<Rightarrow> BufferList" where
  "bl_append bl other = bl @ other"

definition bl_to_buffer :: "BufferList \<Rightarrow> cpp_error + Buffer" where
  "bl_to_buffer bl =
     (case bl of
        [] \<Rightarrow> Inr buf_empty
      | [b] \<Rightarrow> Inr b
      | _ \<Rightarrow> Inl (RuntimeError
          ''BufferList: please use concatenate() to combine a multi-Buffer BufferList into one Buffer''))"

fun bl_concatenate :: "BufferList \<Rightarrow> bytes" where
  "bl_concatenate [] = []"
| "bl_concatenate (b # bl) = buf_str b @ bl_concatenate bl"

fun bl_size :: "BufferList \<Rightarrow> u64" where
  "bl_size [] = 0"
| "bl_size (b # bl) = buf_size b + bl_size bl"

fun bl_remove_prefix :: "BufferList \<Rightarrow> u64 \<Rightarrow> cpp_error + BufferList" where
  "bl_remove_prefix [] n =
     (if n > 0 then Inl (OutOfRange ''BufferList::remove_prefix'') else Inr [])"
| "bl_remove_prefix (b # bl) n =
     (if n > 0 then
        (if n < length (buf_str b)
         then throw_bind (buf_remove_prefix b n) (\<lambda>b'. Inr (b' # bl))
         else bl_remove_prefix bl (n - length (buf_str b)))
      else Inr (b # bl))"

subsection \<open>BufferViewList\<close>

type_synonym BufferViewList = "bytes list"

definition bvl_of_buffers :: "BufferList \<Rightarrow> BufferViewList" where
  "bvl_of_buffers bl = map buf_str bl"

fun bvl_remove_prefix :: "BufferViewList \<Rightarrow> u64 \<Rightarrow> cpp_error + BufferViewList" where
  "bvl_remove_prefix [] n =
     (if n > 0 then Inl (OutOfRange ''BufferListView::remove_prefix'') else Inr [])"
| "bvl_remove_prefix (v # vs) n =
     (if n > 0 then
        (if n < length v then Inr (drop n v # vs)
         else bvl_remove_prefix vs (n - length v))
      else Inr (v # vs))"

fun bvl_size :: "BufferViewList \<Rightarrow> u64" where
  "bvl_size [] = 0"
| "bvl_size (v # vs) = length v + bvl_size vs"

definition bvl_as_iovecs :: "BufferViewList \<Rightarrow> (bytes \<times> u64) list" where
  "bvl_as_iovecs vs = map (\<lambda>x. (x, length x)) vs"

subsection \<open>Operations on the string a buffer stands for\<close>

definition buf_ok :: "Buffer \<Rightarrow> bool" where
  "buf_ok b \<longleftrightarrow> (case buf_storage b of None \<Rightarrow> True
     | Some s \<Rightarrow> buf_starting_offset b \<le> length s \<and> length s < two64)"

lemma buf_ok_empty [simp]: "buf_ok buf_empty" "buf_str buf_empty = []"
  by (simp_all add: buf_ok_def buf_empty_def buf_str_def)

lemma buf_ok_of_string [simp]:
  "length s < two64 \<Longrightarrow> buf_ok (buf_of_string s)" "buf_str (buf_of_string s) = s"
  by (simp_all add: buf_ok_def buf_of_string_def buf_str_def)

lemma buf_remove_prefix_ok:
  assumes "buf_ok b" "n \<le> length (buf_str b)"
  obtains b' where "buf_remove_prefix b n = Inr b'" "buf_ok b'" "buf_str b' = drop n (buf_str b)"
proof (cases "buf_storage b")
  case None
  with assms that show ?thesis
    by (auto simp: buf_remove_prefix_def buf_ok_def buf_str_def Let_def)
next
  case (Some s)
  then have off: "u64_add (buf_starting_offset b) n = buf_starting_offset b + n"
      "buf_starting_offset b + n \<le> length s"
    using assms by (auto simp: buf_ok_def buf_str_def u64_add_exact)
  with Some assms that show ?thesis
    by (auto simp: buf_remove_prefix_def buf_ok_def buf_str_def Let_def add.commute)
qed

lemma buf_remove_prefix_too_long:
  "length (buf_str b) < n \<Longrightarrow> buf_remove_prefix b n = Inl (OutOfRange ''Buffer::remove_prefix'')"
  by (simp add: buf_remove_prefix_def)

lemma bl_size_concatenate: "bl_size bl = length (bl_concatenate bl)"
  by (induction bl) (simp_all add: buf_size_def)

lemma bl_concatenate_append [simp]:
  "bl_concatenate (bl_append a b) = bl_concatenate a @ bl_concatenate b"
  unfolding bl_append_def by (induction a) simp_all

lemma bl_concatenate_string [simp]: "bl_concatenate (bl_of_string s) = s"
  by (simp add: bl_of_string_def)

lemma bl_to_buffer_str: "bl_to_buffer bl = Inr b \<Longrightarrow> buf_str b = bl_concatenate bl"
  by (auto simp: bl_to_buffer_def split: list.splits)

lemma bl_remove_prefix_concat:
  assumes "\<forall>b \<in> set bl. buf_ok b"
  shows "case bl_remove_prefix bl n of
      Inl e \<Rightarrow> length (bl_concatenate bl) < n
    | Inr bl' \<Rightarrow> n \<le> length (bl_concatenate bl) \<and> bl_concatenate bl' = drop n (bl_concatenate bl)"
  using assms
proof (induction bl n rule: bl_remove_prefix.induct)
  case (1 n)
  then show ?case by simp
next
  case (2 b bl n)
  consider "n = 0" | "0 < n" "n < length (buf_str b)" | "0 < n" "\<not> n < length (buf_str b)" by auto
  then show ?case
  proof cases
    case 1
    then show ?thesis by simp
  next
    case 2
    have "buf_ok b" using "2.prems" by simp
    then obtain b' where "buf_remove_prefix b n = Inr b'" "buf_str b' = drop n (buf_str b)"
      using 2 buf_remove_prefix_ok[of b n] by auto
    with 2 show ?thesis by simp
  next
    case 3
    with "2.IH" "2.prems" show ?thesis
      by (auto split: sum.splits)
  qed
qed

lemma bvl_remove_prefix_concat:
  "case bvl_remove_prefix vs n of
      Inl e \<Rightarrow> length (concat vs) < n
    | Inr vs' \<Rightarrow> n \<le> length (concat vs) \<and> concat vs' = drop n (concat vs)"
  by (induction vs n rule: bvl_remove_prefix.induct) (auto split: sum.splits)

lemma bvl_size_concat: "bvl_size vs = length (concat vs)"
  by (induction vs) simp_all

end
