(* ===== verification/Net_Parser.thy ===== *)
theory Net_Parser
  imports Net_Buffer
begin

text \<open>
  Integers in network byte order (\<open>libsponge/util/parser.hh\<close> and \<open>parser.cc\<close>):
  \<open>NetParser\<close> reads them from a \<open>Buffer\<close> and remembers the first lack of data,
  \<open>NetUnparser\<close> appends them to a string. The interface \<open>net_codec\<close> states the law that
  the header formats rely on: what was written is read back, and the rest is left.
\<close>

unbundle bit_operations_syntax

subsection \<open>Results\<close>

datatype ParseResult =
    NoError
  | BadChecksum
  | PacketTooShort
  | WrongIPVersion
  | HeaderTooShort
  | TruncatedPacket
  | Unsupported

text \<open>The table of names has six entries; the seventh result reads past its end, which C++
  leaves undefined.\<close>

definition as_string :: "ParseResult \<Rightarrow> string option" where
  "as_string r =
     (case r of
        NoError \<Rightarrow> Some ''NoError''
      | BadChecksum \<Rightarrow> Some ''BadChecksum''
      | PacketTooShort \<Rightarrow> Some ''PacketTooShort''
      | WrongIPVersion \<Rightarrow> Some ''WrongIPVersion''
      | HeaderTooShort \<Rightarrow> Some ''HeaderTooShort''
      | TruncatedPacket \<Rightarrow> Some ''TruncatedPacket''
      | Unsupported \<Rightarrow> None)"

subsection \<open>NetParser\<close>

record NetParser =
  np_buffer :: Buffer
  np_error :: ParseResult

definition np_new :: "Buffer \<Rightarrow> NetParser" where
  "np_new b = \<lparr>np_buffer = b, np_error = NoError\<rparr>"

definition np_set_error :: "NetParser \<Rightarrow> ParseResult \<Rightarrow> NetParser" where
  "np_set_error p res = p\<lparr>np_error := res\<rparr>"

definition np_has_error :: "NetParser \<Rightarrow> bool" where
  "np_has_error p \<longleftrightarrow> np_error p \<noteq> NoError"

definition np_check_size :: "NetParser \<Rightarrow> u64 \<Rightarrow> NetParser" where
  "np_check_size p n = (if n > buf_size (np_buffer p) then np_set_error p PacketTooShort else p)"

text \<open>After the size check the buffer holds the bytes to be discarded, so the exception of
  \<open>Buffer::remove_prefix\<close> cannot occur; its branch leaves the parser as it is.\<close>

definition np_discard :: "NetParser \<Rightarrow> u64 \<Rightarrow> NetParser" where
  "np_discard p n = (case buf_remove_prefix (np_buffer p) n of
     Inl e \<Rightarrow> p | Inr b \<Rightarrow> p\<lparr>np_buffer := b\<rparr>)"

definition np_parse_int :: "nat \<Rightarrow> NetParser \<Rightarrow> 'a::len word \<times> NetParser" where
  "np_parse_int len p0 =
     (let p = np_check_size p0 len in
      if np_has_error p then (0, p)
      else
        let ret = fold (\<lambda>b ret. push_bit 8 ret + ucast b) (take len (buf_str (np_buffer p))) 0
        in (ret, np_discard p len))"

definition np_u32 :: "NetParser \<Rightarrow> 32 word \<times> NetParser" where
  "np_u32 = np_parse_int 4"

definition np_u16 :: "NetParser \<Rightarrow> 16 word \<times> NetParser" where
  "np_u16 = np_parse_int 2"

definition np_u8 :: "NetParser \<Rightarrow> 8 word \<times> NetParser" where
  "np_u8 = np_parse_int 1"

definition np_remove_prefix :: "NetParser \<Rightarrow> u64 \<Rightarrow> NetParser" where
  "np_remove_prefix p0 n =
     (let p = np_check_size p0 n in if np_has_error p then p else np_discard p n)"

subsection \<open>NetUnparser\<close>

definition nu_unparse_int :: "nat \<Rightarrow> 'a::len word \<Rightarrow> bytes" where
  "nu_unparse_int len val = map (\<lambda>i. ucast (drop_bit ((len - i - 1) * 8) val AND 0xff)) [0..<len]"

definition nu_u32 :: "32 word \<Rightarrow> bytes" where
  "nu_u32 val = nu_unparse_int 4 val"

definition nu_u16 :: "16 word \<Rightarrow> bytes" where
  "nu_u16 val = nu_unparse_int 2 val"

definition nu_u8 :: "8 word \<Rightarrow> bytes" where
  "nu_u8 val = nu_unparse_int 1 val"

subsection \<open>The bytes of an integer\<close>

lemma ucast_byte: "ucast (ucast (x AND 0xff) :: byte) = take_bit 8 (x :: 'a::len word)"
proof -
  have "x AND 0xff = take_bit 8 x"
    using take_bit_eq_mask[of 8 x] by (simp add: mask_eq_exp_minus_1)
  then show ?thesis
    by (simp add: unsigned_ucast_eq bit_eq_iff bit_simps)
qed

lemma fold_unparse:
  assumes "k \<le> len" "LENGTH('a::len) = 8 * len"
  shows "fold (\<lambda>b ret. push_bit 8 ret + ucast b)
      (map (\<lambda>i. ucast (drop_bit ((len - i - 1) * 8) val AND 0xff) :: byte) [0..<k]) 0 =
    drop_bit (8 * (len - k)) (val :: 'a word)"
  using assms(1)
proof (induction k)
  case 0
  have "drop_bit (8 * len) val = 0"
    using assms(2) by (intro bit_word_eqI) (auto simp: bit_simps dest: bit_imp_le_length)
  then show ?case by simp
next
  case (Suc k)
  have n: "8 * (len - k) = 8 * (len - Suc k) + 8" "(len - k - 1) * 8 = 8 * (len - Suc k)"
    using Suc.prems by auto
  let ?v = "drop_bit (8 * (len - Suc k)) val"
  have "drop_bit (8 * (len - k)) val = drop_bit 8 ?v"
    unfolding n(1) by (simp add: add.commute)
  then have "push_bit 8 (drop_bit (8 * (len - k)) val) + take_bit 8 ?v = ?v"
    by (simp only: bits_ident)
  then show ?case
    using Suc by (simp add: ucast_byte mult.commute)
qed

lemma length_unparse [simp]: "length (nu_unparse_int len val) = len"
  by (simp add: nu_unparse_int_def)

subsection \<open>Reading\<close>

text \<open>The parser stands before the bytes \<open>bs\<close> and no error has occurred.\<close>

definition np_at :: "NetParser \<Rightarrow> bytes \<Rightarrow> bool" where
  "np_at p bs \<longleftrightarrow> np_error p = NoError \<and> buf_ok (np_buffer p) \<and> buf_str (np_buffer p) = bs"

lemma np_at_new: "buf_ok b \<Longrightarrow> np_at (np_new b) (buf_str b)"
  by (simp add: np_at_def np_new_def)

lemma np_at_discard: "np_at p bs \<Longrightarrow> n \<le> length bs \<Longrightarrow> np_at (np_discard p n) (drop n bs)"
  using buf_remove_prefix_ok[of "np_buffer p" n] by (fastforce simp: np_at_def np_discard_def)

lemma np_parse_int_at:
  assumes "np_at p bs" "len \<le> length bs"
  defines "res \<equiv> np_parse_int len p :: 'a::len word \<times> NetParser"
  shows "fst res = fold (\<lambda>b ret. push_bit 8 ret + ucast b) (take len bs) 0"
    and "np_at (snd res) (drop len bs)"
proof -
  have "np_check_size p len = p" "\<not> np_has_error p"
    using assms by (auto simp: np_check_size_def np_at_def buf_size_def np_has_error_def)
  then have "res = (fold (\<lambda>b ret. push_bit 8 ret + ucast b) (take len bs) 0, np_discard p len)"
    using assms(1) by (simp add: res_def np_parse_int_def Let_def np_at_def)
  then show "fst res = fold (\<lambda>b ret. push_bit 8 ret + ucast b) (take len bs) 0"
    and "np_at (snd res) (drop len bs)"
    using np_at_discard[OF assms(1,2)] by simp_all
qed

lemma np_parse_unparse:
  fixes val :: "'a::len word"
  assumes "np_at p (nu_unparse_int len val @ rest)" "LENGTH('a) = 8 * len"
  shows "fst (np_parse_int len p) = val \<and>
    np_at (snd (np_parse_int len p :: 'a word \<times> NetParser)) rest"
proof -
  have "take len (nu_unparse_int len val @ rest) = nu_unparse_int len val"
    by simp
  then show ?thesis
    using np_parse_int_at[OF assms(1), of len, where 'a = 'a] fold_unparse[of len len val] assms(2)
    by (simp add: nu_unparse_int_def)
qed

lemma np_remove_prefix_at:
  assumes "np_at p bs" "n \<le> length bs"
  shows "np_at (np_remove_prefix p n) (drop n bs)"
proof -
  have "np_check_size p n = p" "\<not> np_has_error p"
    using assms by (auto simp: np_check_size_def np_at_def buf_size_def np_has_error_def)
  then show ?thesis
    using np_at_discard[OF assms] by (simp add: np_remove_prefix_def)
qed

text \<open>What a parser can still read: \<open>None\<close> once data was missing. In this view every
  read of \<open>n\<close> bytes subtracts \<open>n\<close>, whatever the bytes are.\<close>

definition np_sound :: "NetParser \<Rightarrow> bool" where
  "np_sound p \<longleftrightarrow> buf_ok (np_buffer p) \<and> np_error p \<in> {NoError, PacketTooShort}"

definition np_left :: "NetParser \<Rightarrow> nat option" where
  "np_left p = (if np_error p = NoError then Some (buf_size (np_buffer p)) else None)"

definition left_after :: "nat option \<Rightarrow> nat \<Rightarrow> nat option" where
  "left_after l n = (case l of None \<Rightarrow> None | Some m \<Rightarrow> if n \<le> m then Some (m - n) else None)"

lemma np_at_left: "np_at p bs \<Longrightarrow> np_left p = Some (length bs) \<and> np_sound p"
  by (simp add: np_at_def np_left_def np_sound_def buf_size_def)

lemma np_left_at: "np_sound p \<Longrightarrow> np_left p = Some n \<Longrightarrow> np_at p (buf_str (np_buffer p))"
  by (auto simp: np_at_def np_left_def np_sound_def split: if_splits)

lemma np_sound_error: "np_sound p \<Longrightarrow> np_error p = (if np_left p = None then PacketTooShort else NoError)"
  by (auto simp: np_sound_def np_left_def)

lemma np_remove_prefix_left:
  assumes "np_sound p"
  shows "np_sound (np_remove_prefix p n)" "np_left (np_remove_prefix p n) = left_after (np_left p) n"
proof -
  consider "np_at p (buf_str (np_buffer p))" "n \<le> buf_size (np_buffer p)"
    | "buf_size (np_buffer p) < n \<or> np_error p = PacketTooShort"
    using assms by (cases "n \<le> buf_size (np_buffer p)") (auto simp: np_sound_def np_at_def)
  then have "np_sound (np_remove_prefix p n) \<and> np_left (np_remove_prefix p n) = left_after (np_left p) n"
  proof cases
    case 1
    then show ?thesis
      using np_at_left[OF np_remove_prefix_at[OF 1(1), of n]] np_at_left[OF 1(1)]
      by (simp add: left_after_def buf_size_def)
  next
    case 2
    then show ?thesis
      using assms by (auto simp: np_remove_prefix_def np_check_size_def np_has_error_def
          np_set_error_def np_sound_def np_left_def left_after_def)
  qed
  then show "np_sound (np_remove_prefix p n)"
    and "np_left (np_remove_prefix p n) = left_after (np_left p) n" by simp_all
qed

lemma np_parse_int_left:
  fixes n :: nat
  assumes "np_sound p"
  defines "q \<equiv> snd (np_parse_int n p :: 'a::len word \<times> NetParser)"
  shows "np_sound q" "np_left q = left_after (np_left p) n"
proof -
  have "q = np_remove_prefix p n"
    by (simp add: q_def np_parse_int_def np_remove_prefix_def Let_def)
  then show "np_sound q" "np_left q = left_after (np_left p) n"
    using np_remove_prefix_left[OF assms(1)] by simp_all
qed

lemma np_u8_at: "np_at p (b # bs) \<Longrightarrow> fst (np_u8 p) = b"
  using np_parse_int_at(1)[of p "b # bs" 1, where 'a = 8] by (simp add: np_u8_def)

lemma np_u8_advance: "np_at p bs \<Longrightarrow> 1 \<le> length bs \<Longrightarrow> np_at (snd (np_u8 p)) (drop 1 bs)"
  unfolding np_u8_def by (rule np_parse_int_at(2))

lemma np_u16_advance: "np_at p bs \<Longrightarrow> 2 \<le> length bs \<Longrightarrow> np_at (snd (np_u16 p)) (drop 2 bs)"
  unfolding np_u16_def by (rule np_parse_int_at(2))

lemma np_u32_advance: "np_at p bs \<Longrightarrow> 4 \<le> length bs \<Longrightarrow> np_at (snd (np_u32 p)) (drop 4 bs)"
  unfolding np_u32_def by (rule np_parse_int_at(2))

lemma left_after_add: "left_after (left_after l m) n = left_after l (m + n)"
  by (auto simp: left_after_def split: option.splits)

subsection \<open>The interface the header formats use\<close>

locale net_codec =
  fixes put :: "'v \<Rightarrow> bytes"
    and get :: "NetParser \<Rightarrow> 'v \<times> NetParser"
    and width :: nat
  assumes get_put: "np_at p (put v @ rest) \<Longrightarrow> fst (get p) = v \<and> np_at (snd (get p)) rest"
    and put_width: "length (put v) = width"
    and get_left: "np_sound p \<Longrightarrow>
      np_sound (snd (get p)) \<and> np_left (snd (get p)) = left_after (np_left p) width"
begin

lemma get_put_value: "np_at p (put v @ rest) \<Longrightarrow> fst (get p) = v"
  using get_put by blast

lemma get_put_rest: "np_at p (put v @ rest) \<Longrightarrow> np_at (snd (get p)) rest"
  using get_put by blast

lemma get_step:
  assumes "np_at p (put v @ rest)"
  obtains p' where "get p = (v, p')" "np_at p' rest"
  using get_put[OF assms] by (cases "get p") auto

lemma put_inject: "length a < two64 \<Longrightarrow> put v @ a = put w @ b \<Longrightarrow> width < two64 - length a \<Longrightarrow> v = w \<and> a = b"
proof -
  assume len: "length a < two64" "width < two64 - length a" and eq: "put v @ a = put w @ b"
  let ?p = "np_new (buf_of_string (put v @ a))"
  have "np_at ?p (put v @ a)"
    using len put_width[of v] np_at_new[of "buf_of_string (put v @ a)"] by simp
  then have "v = w"
    using get_put_value[of ?p v a] get_put_value[of ?p w b] eq by simp
  with eq show ?thesis by simp
qed

end

interpretation c8: net_codec nu_u8 np_u8 1
proof (unfold_locales, goal_cases)
  case (1 p v rest)
  then show ?case unfolding nu_u8_def np_u8_def by (rule np_parse_unparse) simp
qed (auto simp: nu_u8_def np_u8_def np_parse_int_left)

interpretation c16: net_codec nu_u16 np_u16 2
proof (unfold_locales, goal_cases)
  case (1 p v rest)
  then show ?case unfolding nu_u16_def np_u16_def by (rule np_parse_unparse) simp
qed (auto simp: nu_u16_def np_u16_def np_parse_int_left)

interpretation c32: net_codec nu_u32 np_u32 4
proof (unfold_locales, goal_cases)
  case (1 p v rest)
  then show ?case unfolding nu_u32_def np_u32_def by (rule np_parse_unparse) simp
qed (auto simp: nu_u32_def np_u32_def np_parse_int_left)

lemmas codec_left = c8.get_left c16.get_left c32.get_left
lemmas codec_values = c8.get_put_value c16.get_put_value c32.get_put_value
lemmas codec_rests = c8.get_put_rest c16.get_put_rest c32.get_put_rest

end
