(* ===== verification/Internet_Checksum.thy ===== *)
theory Internet_Checksum
  imports Net_Parser
begin

text \<open>
  The Internet checksum (\<open>class InternetChecksum\<close> of \<open>libsponge/util/util.hh\<close> and
  \<open>util.cc\<close>): a 32-bit sum of 16-bit big-endian words, folded to 16 bits and
  complemented. The lemmas read it over the naturals: the folded sum is the sum modulo
  65535, so a packet whose checksum field was filled with the value over the packet with a
  zero field checks to zero.
\<close>

unbundle bit_operations_syntax

subsection \<open>The class\<close>

record InternetChecksum =
  ck_sum :: "32 word"
  ck_parity :: bool

definition ck_new :: "32 word \<Rightarrow> InternetChecksum" where
  "ck_new initial_sum = \<lparr>ck_sum = initial_sum, ck_parity = False\<rparr>"

definition ck_add_byte :: "byte \<Rightarrow> InternetChecksum \<Rightarrow> InternetChecksum" where
  "ck_add_byte b c =
     (let val0 = (ucast b :: 16 word);
          val = (if \<not> ck_parity c then push_bit 8 val0 else val0)
      in \<lparr>ck_sum = ck_sum c + ucast val, ck_parity = (\<not> ck_parity c)\<rparr>)"

definition ck_add :: "InternetChecksum \<Rightarrow> bytes \<Rightarrow> InternetChecksum" where
  "ck_add c data = fold ck_add_byte data c"

lemma unat_fold_step:
  "unat (drop_bit 16 (x :: 32 word) + (x AND 0xffff)) = unat x div 65536 + unat x mod 65536"
proof -
  have a: "unat (x AND 0xffff) = unat x mod 65536"
    using take_bit_eq_mask[of 16 x] unsigned_take_bit_eq[of 16 x]
    by (simp add: mask_eq_exp_minus_1 take_bit_eq_mod)
  have d: "unat (drop_bit 16 x) = unat x div 65536"
    by (simp add: drop_bit_eq_div unat_div_distrib)
  have "unat x < 2 ^ 32" using unsigned_less[of x] by simp
  then have "unat x div 65536 < 65536" by simp
  moreover have "unat x mod 65536 < 65536" by simp
  ultimately have "unat x div 65536 + unat x mod 65536 < 2 ^ 32" by simp
  then show ?thesis
    by (simp add: unat_word_ariths a d)
qed

function ck_fold :: "32 word \<Rightarrow> 32 word" where
  "ck_fold ret = (if ret > 0xffff then ck_fold (drop_bit 16 ret + (ret AND 0xffff)) else ret)"
  by pat_completeness auto
termination
proof (relation "measure unat", goal_cases)
  case 1
  then show ?case by simp
next
  case (2 ret)
  then have "unat ret > 65535" by (simp add: word_less_nat_alt)
  then have "1 \<le> unat ret div 65536" by simp
  moreover have "unat ret = 65536 * (unat ret div 65536) + unat ret mod 65536" by simp
  ultimately have "unat ret div 65536 + unat ret mod 65536 < unat ret" by linarith
  then show ?case by (simp add: unat_fold_step)
qed

declare ck_fold.simps [simp del]

definition ck_value :: "InternetChecksum \<Rightarrow> 16 word" where
  "ck_value c = ucast (NOT (ck_fold (ck_sum c)))"

subsection \<open>The sum over the naturals\<close>

fun be_sum :: "bool \<Rightarrow> bytes \<Rightarrow> nat" where
  "be_sum odd_pos [] = 0"
| "be_sum odd_pos (b # bs) = (if odd_pos then unat b else 256 * unat b) + be_sum (\<not> odd_pos) bs"

lemma be_sum_append: "be_sum p (a @ b) = be_sum p a + be_sum (p \<noteq> odd (length a)) b"
  by (induction p a rule: be_sum.induct) auto

lemma be_sum_bound: "be_sum p d \<le> 65280 * length d"
proof (induction p d rule: be_sum.induct)
  case (2 p b bs)
  have "unat b < 256" using unsigned_less[of b] by simp
  with 2 show ?case by auto
qed simp

lemma be_sum_zeros [simp]: "be_sum p (replicate n 0) = 0"
  by (induction n arbitrary: p) auto

lemma unat_push_byte: "unat (push_bit 8 (ucast (b :: byte) :: 16 word)) = 256 * unat b"
proof -
  have "unat b < 256" using unsigned_less[of b] by simp
  then show ?thesis
    by (simp add: push_bit_eq_mult unat_word_ariths unsigned_ucast_eq take_bit_eq_mod)
qed

lemma ck_add_byte_sum:
  assumes "unat (ck_sum c) + 256 * unat b < 2 ^ 32 \<or> ck_parity c \<and> unat (ck_sum c) + unat b < 2 ^ 32"
  shows "unat (ck_sum (ck_add_byte b c)) =
    unat (ck_sum c) + (if ck_parity c then unat b else 256 * unat b)"
proof -
  have "unat b < 256" using unsigned_less[of b] by simp
  then show ?thesis
    using assms by (auto simp: ck_add_byte_def Let_def unat_word_ariths unsigned_ucast_eq
        take_bit_eq_mod unat_push_byte)
qed

lemma ck_add_parity: "ck_parity (ck_add c d) = (ck_parity c \<noteq> odd (length d))"
  unfolding ck_add_def
  by (induction d arbitrary: c) (auto simp: ck_add_byte_def Let_def)

lemma ck_add_sum:
  "unat (ck_sum c) + be_sum (ck_parity c) d < 2 ^ 32 \<Longrightarrow>
   unat (ck_sum (ck_add c d)) = unat (ck_sum c) + be_sum (ck_parity c) d"
proof (induction d arbitrary: c)
  case Nil
  show ?case by (simp add: ck_add_def)
next
  case (Cons b d)
  let ?c = "ck_add_byte b c"
  have v: "unat (ck_sum ?c) = unat (ck_sum c) + (if ck_parity c then unat b else 256 * unat b)"
    using Cons.prems by (intro ck_add_byte_sum) (auto split: if_splits)
  have p: "ck_parity ?c = (\<not> ck_parity c)"
    by (simp add: ck_add_byte_def Let_def)
  have "ck_add c (b # d) = ck_add ?c d"
    by (simp add: ck_add_def)
  moreover have "unat (ck_sum ?c) + be_sum (ck_parity ?c) d < 2 ^ 32"
    using Cons.prems v p by simp
  ultimately show ?case
    using Cons.IH[of ?c] v p by simp
qed

lemma fold_mod_65535: "(n :: nat) mod 65535 = (n div 65536 + n mod 65536) mod 65535"
proof -
  have "n = 65535 * (n div 65536) + (n div 65536 + n mod 65536)" by simp
  then show ?thesis by (metis mod_mult_self4)
qed

lemma ck_fold_nat:
  "unat (ck_fold x) \<le> 65535 \<and> unat (ck_fold x) mod 65535 = unat x mod 65535 \<and>
   (ck_fold x = 0 \<longleftrightarrow> x = 0)"
proof (induction x rule: ck_fold.induct)
  case (1 x)
  show ?case
  proof (cases "x > 0xffff")
    case False
    then have "unat x \<le> 65535" by (simp add: word_less_nat_alt)
    with False show ?thesis by (simp add: ck_fold.simps[of x])
  next
    case True
    let ?y = "drop_bit 16 x + (x AND 0xffff)"
    have y: "unat ?y = unat x div 65536 + unat x mod 65536" by (rule unat_fold_step)
    have x: "unat x = 65536 * (unat x div 65536) + unat x mod 65536" by simp
    have "unat x mod 65535 = unat ?y mod 65535"
      unfolding y using fold_mod_65535 by metis
    moreover have "0 < unat ?y"
    proof -
      have "unat x > 65535" using True by (simp add: word_less_nat_alt)
      then have "1 \<le> unat x div 65536" by simp
      then show ?thesis unfolding y by linarith
    qed
    then have "?y \<noteq> 0" "x \<noteq> 0" using True by auto
    ultimately show ?thesis
      using "1.IH"[OF True] True by (simp add: ck_fold.simps[of x])
  qed
qed

lemma unat_ck_value: "unat (ck_value c) = 65535 - unat (ck_fold (ck_sum c))"
proof -
  let ?r = "ck_fold (ck_sum c)"
  have r: "unat ?r \<le> 65535" using ck_fold_nat by blast
  have "unat (NOT ?r) = 4294967295 - unat ?r"
  proof -
    have "NOT ?r = - 1 - ?r" by (simp add: not_eq_complement)
    then show ?thesis using unat_sub[of ?r "- 1"] by (simp add: unsigned_minus_1_eq_mask mask_eq_exp_minus_1)
  qed
  then have "unat (ck_value c) = (4294967295 - unat ?r) mod 65536"
    by (simp add: ck_value_def unsigned_ucast_eq take_bit_eq_mod)
  also have "4294967295 - unat ?r = 65536 * 65535 + (65535 - unat ?r)"
    using r by simp
  also have "(65536 * 65535 + (65535 - unat ?r)) mod 65536 = 65535 - unat ?r"
    using mod_mult_self4[of 65536 65535 "65535 - unat ?r"] by simp
  finally show ?thesis .
qed

lemma ck_value_zero_iff: "ck_value c = 0 \<longleftrightarrow> ck_sum c \<noteq> 0 \<and> unat (ck_sum c) mod 65535 = 0"
proof -
  let ?r = "ck_fold (ck_sum c)"
  have r: "unat ?r \<le> 65535" "unat ?r mod 65535 = unat (ck_sum c) mod 65535"
    "?r = 0 \<longleftrightarrow> ck_sum c = 0"
    using ck_fold_nat by blast+
  have "ck_value c = 0 \<longleftrightarrow> unat (ck_value c) = 0" by (simp add: unat_eq_0)
  also have "\<dots> \<longleftrightarrow> unat ?r = 65535" using r(1) unat_ck_value[of c] by auto
  also have "\<dots> \<longleftrightarrow> unat ?r \<noteq> 0 \<and> unat ?r mod 65535 = 0"
    using r(1) by (cases "unat ?r = 65535") auto
  finally show ?thesis using r(2,3) by (simp add: unat_eq_0)
qed

text \<open>Adding the value of a sum to the sum makes it check.\<close>

lemma ck_value_completes:
  "(unat (ck_sum c) + unat (ck_value c)) mod 65535 = 0 \<and> 0 < unat (ck_sum c) + unat (ck_value c)"
proof -
  let ?r = "ck_fold (ck_sum c)"
  have r: "unat ?r \<le> 65535" "unat ?r mod 65535 = unat (ck_sum c) mod 65535"
    "?r = 0 \<longleftrightarrow> ck_sum c = 0"
    using ck_fold_nat by blast+
  have "(unat (ck_sum c) + unat (ck_value c)) mod 65535 = (unat ?r + (65535 - unat ?r)) mod 65535"
    unfolding unat_ck_value using r(2) by (metis mod_add_left_eq)
  moreover have "0 < unat (ck_sum c) + unat (ck_value c)"
  proof (cases "ck_sum c = 0")
    case True
    then show ?thesis using r(3) unat_ck_value[of c] by simp
  next
    case False
    then show ?thesis by (simp add: unat_gt_0)
  qed
  ultimately show ?thesis using r(1) by simp
qed

lemma be_sum_u16: "be_sum False (nu_u16 v) = unat v"
proof -
  have b: "unat (ucast (x AND 0xff) :: byte) = unat x mod 256" for x :: "16 word"
    using take_bit_eq_mask[of 8 x] unsigned_take_bit_eq[of 8 x, where 'a = nat]
    by (simp add: mask_eq_exp_minus_1 unsigned_ucast_eq take_bit_eq_mod)
  have d: "unat (drop_bit 8 v) = unat v div 256"
    by (simp add: drop_bit_eq_div unat_div_distrib)
  have "unat v < 65536" using unsigned_less[of v] by simp
  then have "unat v div 256 mod 256 = unat v div 256" by simp
  then show ?thesis
    by (simp add: nu_u16_def nu_unparse_int_def upt_rec numeral_2_eq_2 b d)
qed

subsection \<open>Checking a whole string\<close>

definition sum_fits :: "32 word \<Rightarrow> nat \<Rightarrow> bool" where
  "sum_fits initial n \<longleftrightarrow> unat initial + 65280 * n < 2 ^ 32"

lemma ck_add_new_sum:
  "sum_fits initial (length d) \<Longrightarrow> unat (ck_sum (ck_add (ck_new initial) d)) = unat initial + be_sum False d"
  using ck_add_sum[of "ck_new initial" d] be_sum_bound[of False d]
  by (simp add: ck_new_def sum_fits_def)

lemma ck_add_append: "ck_add (ck_add c a) b = ck_add c (a @ b)"
  by (simp add: ck_add_def)

lemma ck_check_iff:
  assumes "sum_fits initial (length d)"
  shows "ck_value (ck_add (ck_new initial) d) = 0 \<longleftrightarrow>
    0 < unat initial + be_sum False d \<and> (unat initial + be_sum False d) mod 65535 = 0"
  unfolding ck_value_zero_iff ck_add_new_sum[OF assms, symmetric] by (simp add: unat_gt_0)

text \<open>Filling in, at an even position, the value computed with zero in its place.\<close>

lemma ck_fill_in:
  assumes "sum_fits initial (length d')" "length d' = length d"
    and "be_sum False d' = be_sum False d + unat (ck_value (ck_add (ck_new initial) d))"
  shows "ck_value (ck_add (ck_new initial) d') = 0"
  using ck_value_completes[of "ck_add (ck_new initial) d"] assms
  by (simp add: ck_check_iff ck_add_new_sum add.assoc)

lemma be_sum_update:
  "i < length d \<Longrightarrow> be_sum p (d[i := b]) + (if p = even i then 1 else 256) * unat (d ! i) =
     be_sum p d + (if p = even i then 1 else 256) * unat b"
proof (induction p d arbitrary: i rule: be_sum.induct)
  case (2 p x d)
  show ?case
  proof (cases i)
    case 0
    then show ?thesis by simp
  next
    case (Suc j)
    then show ?thesis using "2.IH"[of j] "2.prems" by (cases p; cases "even j") simp_all
  qed
qed simp

text \<open>A string with one byte changed does not check.\<close>

lemma ck_detects_byte_error:
  assumes "sum_fits initial (length d)" "ck_value (ck_add (ck_new initial) d) = 0"
    and "i < length d" "b \<noteq> d ! i"
  shows "ck_value (ck_add (ck_new initial) (d[i := b])) \<noteq> 0"
proof
  assume "ck_value (ck_add (ck_new initial) (d[i := b])) = 0"
  let ?w = "if False = even i then 1 else 256 :: nat" and ?v = "unat initial"
  have z: "(?v + be_sum False d) mod 65535 = 0" "(?v + be_sum False (d[i := b])) mod 65535 = 0"
    using assms(1,2) \<open>ck_value (ck_add (ck_new initial) (d[i := b])) = 0\<close> by (simp_all add: ck_check_iff)
  have "?v + be_sum False (d[i := b]) + ?w * unat (d ! i) = ?v + be_sum False d + ?w * unat b"
    using be_sum_update[OF assms(3), of False b] by simp
  then have "(?w * unat (d ! i)) mod 65535 = (?w * unat b) mod 65535"
    using z by (metis add.left_neutral mod_add_left_eq)
  moreover have "unat (d ! i) < 256" "unat b < 256"
    using unsigned_less[of "d ! i"] unsigned_less[of b] by simp_all
  ultimately have "unat (d ! i) = unat b" by (auto split: if_splits)
  then have "d ! i = b" by (rule unsigned_word_eqI)
  with assms(4) show False by simp
qed

end
