(* ===== verification/Wrapping_Integers.thy ===== *)
theory Wrapping_Integers
  imports Sponge_Prelude
begin

text \<open>
  32-bit sequence numbers relative to an initial sequence number
  (\<open>libsponge/wrapping_integers.hh\<close> and \<open>wrapping_integers.cc\<close>): the class
  \<open>WrappingInt32\<close> with its operators, \<open>wrap\<close> from absolute 64-bit numbers and
  \<open>unwrap\<close> back to them, and the interface \<open>sequence_space\<close> that the receiver and the
  sender rely on.
\<close>

subsection \<open>The class and its operators\<close>

datatype WrappingInt32 = WrappingInt32 (raw_value: "32 word")

definition wi_diff :: "WrappingInt32 \<Rightarrow> WrappingInt32 \<Rightarrow> int" where
  "wi_diff a b = sint (raw_value a - raw_value b)"

definition wi_ge :: "WrappingInt32 \<Rightarrow> WrappingInt32 \<Rightarrow> bool" where
  "wi_ge a b \<longleftrightarrow> raw_value a \<ge> raw_value b"

definition wi_gt :: "WrappingInt32 \<Rightarrow> WrappingInt32 \<Rightarrow> bool" where
  "wi_gt a b \<longleftrightarrow> raw_value a > raw_value b"

definition wi_lt :: "WrappingInt32 \<Rightarrow> WrappingInt32 \<Rightarrow> bool" where
  "wi_lt a b \<longleftrightarrow> raw_value a < raw_value b"

definition wi_add :: "WrappingInt32 \<Rightarrow> 32 word \<Rightarrow> WrappingInt32" where
  "wi_add a b = WrappingInt32 (raw_value a + b)"

definition wi_minus :: "WrappingInt32 \<Rightarrow> 32 word \<Rightarrow> WrappingInt32" where
  "wi_minus a b = wi_add a (- b)"

subsection \<open>Conversions\<close>

definition wrap :: "u64 \<Rightarrow> WrappingInt32 \<Rightarrow> WrappingInt32" where
  "wrap n isn = wi_add isn (of_nat n)"

definition unwrap :: "WrappingInt32 \<Rightarrow> WrappingInt32 \<Rightarrow> u64 \<Rightarrow> u64" where
  "unwrap n isn checkpoint =
     (let rlt = wrap checkpoint isn;
          distance = wi_diff n rlt;
          Abs_seqno = sint (of_nat checkpoint + of_int distance :: 64 word)
      in if Abs_seqno \<ge> 0 then nat Abs_seqno
         else unat (of_int Abs_seqno + 2 ^ 32 :: 64 word))"

subsection \<open>Arithmetic of the distance\<close>

lemma sint64_exact: "- (2 ^ 63) \<le> x \<Longrightarrow> x < 2 ^ 63 \<Longrightarrow> sint (of_int x :: 64 word) = x"
  by (simp add: signed_of_int signed_take_bit_int_eq_self)

lemma wi_diff_bounds: "- (2 ^ 31) \<le> wi_diff a b" "wi_diff a b < 2 ^ 31"
  using sint_ge[of "raw_value a - raw_value b"] sint_lt[of "raw_value a - raw_value b"]
  by (simp_all add: wi_diff_def)

lemma of_int_wi_diff: "(of_int (wi_diff a b) :: 32 word) = raw_value a - raw_value b"
  by (simp add: wi_diff_def)

lemma raw_wrap: "raw_value (wrap n isn) = raw_value isn + of_nat n"
  by (simp add: wrap_def wi_add_def)

lemma of_int_word32_eq_iff: "(of_int x :: 32 word) = of_int y \<longleftrightarrow> (x - y) mod 2 ^ 32 = 0"
  by (simp add: word_of_int_eq_iff take_bit_eq_mod mod_eq_dvd_iff dvd_eq_mod_eq_0)

text \<open>The absolute numbers that wrap to \<open>n\<close> are those at the wrapped distance, up to
  multiples of \<open>2 ^ 32\<close>.\<close>

lemma wrap_eq_iff:
  "wrap m isn = n \<longleftrightarrow> (int m - (int cp + wi_diff n (wrap cp isn))) mod 2 ^ 32 = 0"
proof -
  have d: "(of_int (wi_diff n (wrap cp isn)) :: 32 word) = raw_value n - raw_value isn - of_nat cp"
    by (simp add: of_int_wi_diff raw_wrap algebra_simps)
  have "wrap m isn = n \<longleftrightarrow> raw_value isn + of_nat m = raw_value n"
    by (cases n) (simp add: wrap_def wi_add_def)
  also have "\<dots> \<longleftrightarrow> (of_int (int m) :: 32 word) = of_int (int cp + wi_diff n (wrap cp isn))"
    by (auto simp: d algebra_simps)
  also have "\<dots> \<longleftrightarrow> (int m - (int cp + wi_diff n (wrap cp isn))) mod 2 ^ 32 = 0"
    by (rule of_int_word32_eq_iff)
  finally show ?thesis .
qed

lemma unwrap_int:
  fixes cp :: nat and n isn :: WrappingInt32
  assumes "cp < 2 ^ 63 - 2 ^ 31"
  defines "a \<equiv> int cp + wi_diff n (wrap cp isn)"
  shows "int (unwrap n isn cp) = (if a \<ge> 0 then a else a + 2 ^ 32)"
proof -
  have b: "- (2 ^ 31) \<le> a" "a < 2 ^ 63"
    using wi_diff_bounds[of n "wrap cp isn"] assms(1) unfolding a_def by simp_all
  have w: "(of_nat cp + of_int (wi_diff n (wrap cp isn)) :: 64 word) = of_int a"
    by (simp add: a_def)
  have s: "sint (of_int a :: 64 word) = a"
    using b by (intro sint64_exact) simp_all
  have u: "unat (of_int a + 2 ^ 32 :: 64 word) = nat (a + 2 ^ 32)" if "a < 0"
  proof -
    have "(of_int a + 2 ^ 32 :: 64 word) = of_nat (nat (a + 2 ^ 32))"
      using b by simp
    moreover have "nat (a + 2 ^ 32) < 2 ^ 64"
      using that b by simp
    ultimately show ?thesis
      by (simp only: unat_of_nat) simp
  qed
  show ?thesis
    using b u by (auto simp: unwrap_def Let_def w s)
qed

lemma wrap_unwrap:
  assumes "cp < 2 ^ 63 - 2 ^ 31"
  shows "wrap (unwrap n isn cp) isn = n"
  using unwrap_int[OF assms, of n isn] by (auto simp: wrap_eq_iff[of _ isn n cp])

lemma unwrap_nearest:
  assumes "cp < 2 ^ 63 - 2 ^ 31" "wrap m isn = n"
  shows "\<bar>int (unwrap n isn cp) - int cp\<bar> \<le> \<bar>int m - int cp\<bar>"
proof -
  define d where "d = wi_diff n (wrap cp isn)"
  have d: "- (2 ^ 31) \<le> d" "d < 2 ^ 31"
    unfolding d_def by (rule wi_diff_bounds)+
  from assms(2) have "(int m - (int cp + d)) mod 2 ^ 32 = 0"
    unfolding d_def by (simp only: wrap_eq_iff[of m isn n cp])
  then obtain q where q: "int m = int cp + d + 2 ^ 32 * q"
    by (metis add.commute diff_add_cancel dvd_def mod_0_imp_dvd)
  have r: "int (unwrap n isn cp) = (if int cp + d \<ge> 0 then int cp + d else int cp + d + 2 ^ 32)"
    using unwrap_int[OF assms(1), of n isn] by (simp add: d_def)
  consider "q = 0" | "q \<ge> 1" | "q \<le> - 1" by linarith
  then show ?thesis
  proof cases
    case 1
    with q r show ?thesis by auto
  next
    case 2
    then have "int m \<ge> int cp + d + 2 ^ 32" using q by simp
    with r d show ?thesis by auto
  next
    case 3
    then have "int m \<le> int cp + d - 2 ^ 32" using q by simp
    with r d show ?thesis by auto
  qed
qed

lemma unwrap_wrap:
  assumes "cp < 2 ^ 63 - 2 ^ 31" "\<bar>int m - int cp\<bar> < 2 ^ 31"
  shows "unwrap (wrap m isn) isn cp = m"
proof -
  define d where "d = wi_diff (wrap m isn) (wrap cp isn)"
  have "(int m - (int cp + d)) mod 2 ^ 32 = 0"
    using wrap_eq_iff[of m isn "wrap m isn" cp] by (simp add: d_def)
  then obtain q where q: "int m - int cp - d = 2 ^ 32 * q"
    by (metis diff_diff_eq dvd_def mod_0_imp_dvd)
  have d: "- (2 ^ 31) \<le> d" "d < 2 ^ 31"
    unfolding d_def by (rule wi_diff_bounds)+
  have "q = 0"
  proof (rule ccontr)
    assume "q \<noteq> 0"
    then have "q \<ge> 1 \<or> q \<le> - 1" by linarith
    with q have "int m - int cp - d \<ge> 2 ^ 32 \<or> int m - int cp - d \<le> - (2 ^ 32)" by auto
    with d assms(2) show False by auto
  qed
  with q have "int m = int cp + d" by simp
  then show ?thesis
    using unwrap_int[OF assms(1), of "wrap m isn" isn] by (simp add: d_def)
qed

lemma wrap_add: "wrap (a + b) isn = wi_add (wrap a isn) (of_nat b)"
  by (simp add: wrap_def wi_add_def add.assoc)

lemma wrap_0 [simp]: "wrap 0 isn = isn"
  by (simp add: wrap_def wi_add_def)

lemma wrap_mod: "wrap (n mod two64) isn = wrap n isn"
proof -
  have "(of_nat (n mod two64) :: 32 word) = of_nat n"
    by (simp add: word_of_nat_eq_iff take_bit_eq_mod two64_def mod_mod_cancel)
  then show ?thesis by (simp add: wrap_def)
qed

subsection \<open>The interface other components use\<close>

text \<open>
  Both ends of a connection number their bytes absolutely and exchange wrapped numbers;
  they rely on getting back the number the peer meant whenever it is less than \<open>half\<close>
  away from what they expect.
\<close>

locale sequence_space =
  fixes wr :: "nat \<Rightarrow> 'i \<Rightarrow> 'i"
    and unwr :: "'i \<Rightarrow> 'i \<Rightarrow> nat \<Rightarrow> nat"
    and half limit :: nat
  assumes recover: "cp < limit \<Longrightarrow> m < cp + half \<Longrightarrow> cp < m + half \<Longrightarrow> unwr (wr m isn) isn cp = m"
    and half_pos: "0 < half"
begin

lemma recover_self: "cp < limit \<Longrightarrow> unwr (wr cp isn) isn cp = cp"
  using half_pos by (intro recover) auto

lemma recover_behind: "cp < limit \<Longrightarrow> m \<le> cp \<Longrightarrow> cp - m < half \<Longrightarrow> unwr (wr m isn) isn cp = m"
  using half_pos by (intro recover) auto

text \<open>Numbers within a window of the expected one are not confused with each other.\<close>

lemma wr_inj_near:
  assumes "cp < limit" "a < cp + half" "cp < a + half" "b < cp + half" "cp < b + half"
    and "wr a isn = wr b isn"
  shows "a = b"
  using recover[of cp a isn] recover[of cp b isn] assms by metis

end

interpretation seqs: sequence_space wrap unwrap "2 ^ 31" "2 ^ 63 - 2 ^ 31"
proof (unfold_locales, goal_cases)
  case (1 cp m isn)
  then have "\<bar>int m - int cp\<bar> < 2 ^ 31" by (simp add: abs_less_iff)
  with 1 show ?case by (intro unwrap_wrap)
qed simp

subsection \<open>Properties\<close>

text \<open>
  C14. \<open>unwrap\<close> returns the absolute sequence number that wraps to \<open>n\<close> and is closest to
  the checkpoint, for every checkpoint below \<open>2 ^ 63 - 2 ^ 31\<close>: the result wraps to \<open>n\<close>,
  and no other non-negative number that wraps to \<open>n\<close> is closer.
\<close>

theorem unwrap_closest:
  assumes "cp < 2 ^ 63 - 2 ^ 31"
  shows "wrap (unwrap n isn cp) isn = n \<and>
    (\<forall>m. wrap m isn = n \<longrightarrow> \<bar>int (unwrap n isn cp) - int cp\<bar> \<le> \<bar>int m - int cp\<bar>)"
  using wrap_unwrap[OF assms] unwrap_nearest[OF assms] by blast

theorem unwrap_closest_witness:
  "wrap (unwrap (WrappingInt32 17) (WrappingInt32 15) 4294967296) (WrappingInt32 15) = WrappingInt32 17 \<and>
   \<bar>int (unwrap (WrappingInt32 17) (WrappingInt32 15) 4294967296) - 4294967296\<bar> \<le>
     \<bar>int 2 - 4294967296\<bar>"
proof -
  have cp: "(4294967296::nat) < 2 ^ 63 - 2 ^ 31" by simp
  have "wrap 2 (WrappingInt32 15) = WrappingInt32 17" by (simp add: wrap_def wi_add_def)
  with unwrap_closest[OF cp, of "WrappingInt32 17" "WrappingInt32 15"] show ?thesis by auto
qed

text \<open>
  Round trip: wrapping an absolute sequence number and unwrapping it against a
  checkpoint less than \<open>2 ^ 31\<close> away gives the number back.
\<close>

theorem unwrap_wrap_roundtrip:
  assumes "cp < 2 ^ 63 - 2 ^ 31" "m < cp + 2 ^ 31" "cp < m + 2 ^ 31"
  shows "unwrap (wrap m isn) isn cp = m"
  using assms by (rule seqs.recover)

theorem unwrap_wrap_roundtrip_witness:
  "unwrap (wrap 5000000000 (WrappingInt32 4294967295)) (WrappingInt32 4294967295) 4999999000 = 5000000000"
  by (rule unwrap_wrap_roundtrip) simp_all

text \<open>
  At checkpoints of \<open>2 ^ 63\<close> and more the sum is negative as a signed 64-bit value and
  \<open>unwrap\<close> adds \<open>2 ^ 32\<close>: unwrapping the checkpoint's own sequence number does not
  return the checkpoint, although it is at distance zero.
\<close>

theorem unwrap_wrong_above_2_63:
  "unwrap (wrap (2 ^ 63) (WrappingInt32 0)) (WrappingInt32 0) (2 ^ 63) = 2 ^ 63 + 2 ^ 32"
  by (simp add: unwrap_def wrap_def wi_add_def wi_diff_def Let_def)

end
