(* ===== verification/TCP_Segment.thy ===== *)
theory TCP_Segment
  imports Net_Parser Internet_Checksum Wrapping_Integers
begin

text \<open>
  The wire format of TCP (\<open>libsponge/tcp_helpers/tcp_header.hh\<close>, \<open>tcp_header.cc\<close>,
  \<open>tcp_segment.hh\<close> and \<open>tcp_segment.cc\<close>): the header and its parser and serializer,
  and the segment, whose checksum covers the header, the payload and the pseudo header of
  the datagram below it.
\<close>

unbundle bit_operations_syntax

subsection \<open>The header\<close>

record TCPHeader =
  th_sport :: "16 word"
  th_dport :: "16 word"
  th_seqno :: WrappingInt32
  th_ackno :: WrappingInt32
  th_doff :: "8 word"
  th_urg :: bool
  th_ack :: bool
  th_psh :: bool
  th_rst :: bool
  th_syn :: bool
  th_fin :: bool
  th_win :: "16 word"
  th_cksum :: "16 word"
  th_uptr :: "16 word"

definition TCPHeader_LENGTH :: nat where
  "TCPHeader_LENGTH = 20"

definition th_new :: TCPHeader where
  "th_new = \<lparr>th_sport = 0, th_dport = 0, th_seqno = WrappingInt32 0, th_ackno = WrappingInt32 0,
     th_doff = 5, th_urg = False, th_ack = False, th_psh = False, th_rst = False,
     th_syn = False, th_fin = False, th_win = 0, th_cksum = 0, th_uptr = 0\<rparr>"

text \<open>The parser assigns every field, also those it could not read; the result, the header and
  the parser are returned.\<close>

definition th_parse :: "NetParser \<Rightarrow> ParseResult \<times> TCPHeader \<times> NetParser" where
  "th_parse p0 =
     (let (sport, p1) = np_u16 p0;
          (dport, p2) = np_u16 p1;
          (seqno, p3) = np_u32 p2;
          (ackno, p4) = np_u32 p3;
          (off_b, p5) = np_u8 p4;
          doff = drop_bit 4 off_b;
          (fl_b, p6) = np_u8 p5;
          (win, p7) = np_u16 p6;
          (cksum, p8) = np_u16 p7;
          (uptr, p9) = np_u16 p8;
          h = \<lparr>th_sport = sport, th_dport = dport, th_seqno = WrappingInt32 seqno,
               th_ackno = WrappingInt32 ackno, th_doff = doff,
               th_urg = (fl_b AND 0x20 \<noteq> 0), th_ack = (fl_b AND 0x10 \<noteq> 0),
               th_psh = (fl_b AND 0x08 \<noteq> 0), th_rst = (fl_b AND 0x04 \<noteq> 0),
               th_syn = (fl_b AND 0x02 \<noteq> 0), th_fin = (fl_b AND 0x01 \<noteq> 0),
               th_win = win, th_cksum = cksum, th_uptr = uptr\<rparr>
      in if doff < 5 then (HeaderTooShort, h, p9)
         else
           let p10 = np_remove_prefix p9 (unat doff * 4 - TCPHeader_LENGTH)
           in if np_has_error p10 then (np_error p10, h, p10) else (NoError, h, p10))"

definition th_flags :: "TCPHeader \<Rightarrow> 8 word" where
  "th_flags h =
     (if th_urg h then 0x20 else 0) OR (if th_ack h then 0x10 else 0) OR
     (if th_psh h then 0x08 else 0) OR (if th_rst h then 0x04 else 0) OR
     (if th_syn h then 0x02 else 0) OR (if th_fin h then 0x01 else 0)"

definition th_serialize :: "TCPHeader \<Rightarrow> cpp_error + bytes" where
  "th_serialize h =
     (if th_doff h < 5 then Inl (RuntimeError ''TCP header too short'')
      else Inr (str_resize
        (nu_u16 (th_sport h) @ nu_u16 (th_dport h) @
         nu_u32 (raw_value (th_seqno h)) @ nu_u32 (raw_value (th_ackno h)) @
         nu_u8 (push_bit 4 (th_doff h)) @ nu_u8 (th_flags h) @ nu_u16 (th_win h) @
         nu_u16 (th_cksum h) @ nu_u16 (th_uptr h))
        (4 * unat (th_doff h))))"

definition th_equal :: "TCPHeader \<Rightarrow> TCPHeader \<Rightarrow> bool" where
  "th_equal h other \<longleftrightarrow>
     th_seqno h = th_seqno other \<and> th_ackno h = th_ackno other \<and> th_doff h = th_doff other \<and>
     th_urg h = th_urg other \<and> th_ack h = th_ack other \<and> th_psh h = th_psh other \<and>
     th_rst h = th_rst other \<and> th_syn h = th_syn other \<and> th_fin h = th_fin other \<and>
     th_win h = th_win other \<and> th_uptr h = th_uptr other"

subsection \<open>The segment\<close>

record TCPSegment =
  ts_header :: TCPHeader
  ts_payload :: Buffer

definition ts_new :: TCPSegment where
  "ts_new = \<lparr>ts_header = th_new, ts_payload = buf_empty\<rparr>"

definition ts_parse :: "TCPSegment \<Rightarrow> Buffer \<Rightarrow> 32 word \<Rightarrow> ParseResult \<times> TCPSegment" where
  "ts_parse seg buffer datagram_layer_checksum =
     (let check = ck_add (ck_new datagram_layer_checksum) (buf_str buffer) in
      if ck_value check \<noteq> 0 then (BadChecksum, seg)
      else
        let (res, h, p) = th_parse (np_new buffer)
        in (np_error p, \<lparr>ts_header = h, ts_payload = np_buffer p\<rparr>))"

definition ts_length_in_sequence_space :: "TCPSegment \<Rightarrow> u64" where
  "ts_length_in_sequence_space seg =
     buf_size (ts_payload seg) + (if th_syn (ts_header seg) then 1 else 0) +
     (if th_fin (ts_header seg) then 1 else 0)"

definition ts_serialize :: "TCPSegment \<Rightarrow> 32 word \<Rightarrow> cpp_error + BufferList" where
  "ts_serialize seg datagram_layer_checksum =
     (let header_out = (ts_header seg)\<lparr>th_cksum := 0\<rparr> in
      throw_bind (th_serialize header_out) (\<lambda>s0.
        let check = ck_add (ck_add (ck_new datagram_layer_checksum) s0) (buf_str (ts_payload seg));
            header_out' = header_out\<lparr>th_cksum := ck_value check\<rparr>
        in throw_bind (th_serialize header_out') (\<lambda>s.
             Inr (bl_append (bl_of_string s) [ts_payload seg]))))"

subsection \<open>Round trip of the header\<close>

lemma doff_nibble:
  assumes "(d :: 8 word) < 16"
  shows "drop_bit 4 (push_bit 4 d) = d"
proof -
  have "unat d < 16" using assms by (simp add: word_less_nat_alt)
  then have "unat (drop_bit 4 (push_bit 4 d)) = unat d"
    by (simp add: drop_bit_eq_div push_bit_eq_mult unat_div_distrib unat_word_ariths)
  then show ?thesis by (simp only: unsigned_word_eqI)
qed

lemma flags_bits:
  "(th_flags h AND 0x20 \<noteq> 0) = th_urg h" "(th_flags h AND 0x10 \<noteq> 0) = th_ack h"
  "(th_flags h AND 0x08 \<noteq> 0) = th_psh h" "(th_flags h AND 0x04 \<noteq> 0) = th_rst h"
  "(th_flags h AND 0x02 \<noteq> 0) = th_syn h" "(th_flags h AND 0x01 \<noteq> 0) = th_fin h"
  unfolding th_flags_def
  by (cases "th_urg h"; cases "th_ack h"; cases "th_psh h"; cases "th_rst h"; cases "th_syn h";
      cases "th_fin h"; simp)+

lemma th_serialize_length: "th_serialize h = Inr s \<Longrightarrow> length s = 4 * unat (th_doff h)"
  by (auto simp: th_serialize_def split: if_splits)

lemma th_serialize_ok:
  assumes "5 \<le> th_doff h"
  shows "th_serialize h = Inr (nu_u16 (th_sport h) @ nu_u16 (th_dport h) @
     nu_u32 (raw_value (th_seqno h)) @ nu_u32 (raw_value (th_ackno h)) @
     nu_u8 (push_bit 4 (th_doff h)) @ nu_u8 (th_flags h) @ nu_u16 (th_win h) @
     nu_u16 (th_cksum h) @ nu_u16 (th_uptr h) @ replicate (4 * unat (th_doff h) - 20) 0)"
  using assms
  by (simp add: th_serialize_def str_resize_extend c8.put_width c16.put_width c32.put_width
      word_le_nat_alt not_less)

lemma th_parse_serialize:
  assumes "5 \<le> th_doff h" "th_doff h < 16" "th_serialize h = Inr s" "np_at p0 (s @ rest)"
  shows "\<exists>p. th_parse p0 = (NoError, h, p) \<and> np_at p rest"
proof -
  let ?skip = "4 * unat (th_doff h) - 20"
  let ?t9 = "replicate ?skip 0 @ rest"
  let ?t8 = "nu_u16 (th_uptr h) @ ?t9"
  let ?t7 = "nu_u16 (th_cksum h) @ ?t8"
  let ?t6 = "nu_u16 (th_win h) @ ?t7"
  let ?t5 = "nu_u8 (th_flags h) @ ?t6"
  let ?t4 = "nu_u8 (push_bit 4 (th_doff h)) @ ?t5"
  let ?t3 = "nu_u32 (raw_value (th_ackno h)) @ ?t4"
  let ?t2 = "nu_u32 (raw_value (th_seqno h)) @ ?t3"
  let ?t1 = "nu_u16 (th_dport h) @ ?t2"
  have "s @ rest = nu_u16 (th_sport h) @ ?t1"
    using assms(3) th_serialize_ok[OF assms(1)] by auto
  with assms(4) have "np_at p0 (nu_u16 (th_sport h) @ ?t1)" by (simp only:)
  then obtain p1 where p1: "np_u16 p0 = (th_sport h, p1)" "np_at p1 ?t1" by (rule c16.get_step)
  from p1(2) obtain p2 where p2: "np_u16 p1 = (th_dport h, p2)" "np_at p2 ?t2" by (rule c16.get_step)
  from p2(2) obtain p3 where p3: "np_u32 p2 = (raw_value (th_seqno h), p3)" "np_at p3 ?t3"
    by (rule c32.get_step)
  from p3(2) obtain p4 where p4: "np_u32 p3 = (raw_value (th_ackno h), p4)" "np_at p4 ?t4"
    by (rule c32.get_step)
  from p4(2) obtain p5 where p5: "np_u8 p4 = (push_bit 4 (th_doff h), p5)" "np_at p5 ?t5"
    by (rule c8.get_step)
  from p5(2) obtain p6 where p6: "np_u8 p5 = (th_flags h, p6)" "np_at p6 ?t6" by (rule c8.get_step)
  from p6(2) obtain p7 where p7: "np_u16 p6 = (th_win h, p7)" "np_at p7 ?t7" by (rule c16.get_step)
  from p7(2) obtain p8 where p8: "np_u16 p7 = (th_cksum h, p8)" "np_at p8 ?t8" by (rule c16.get_step)
  from p8(2) obtain p9 where p9: "np_u16 p8 = (th_uptr h, p9)" "np_at p9 ?t9" by (rule c16.get_step)
  let ?p = "np_remove_prefix p9 ?skip"
  have at: "np_at ?p rest"
    using np_remove_prefix_at[OF p9(2), of ?skip] by simp
  then have "\<not> np_has_error ?p"
    by (simp add: np_at_def np_has_error_def)
  then have "th_parse p0 = (NoError, h, ?p)"
    using assms(1) p1(1) p2(1) p3(1) p4(1) p5(1) p6(1) p7(1) p8(1) p9(1)
    by (simp add: th_parse_def Let_def doff_nibble[OF assms(2)] flags_bits TCPHeader_LENGTH_def
        mult.commute not_less)
  with at show ?thesis by blast
qed

subsection \<open>Round trip of the segment\<close>

lemma th_serialize_cksum_sum:
  assumes "5 \<le> th_doff h" "th_serialize (h\<lparr>th_cksum := 0\<rparr>) = Inr s0"
    and "th_serialize (h\<lparr>th_cksum := v\<rparr>) = Inr s"
  shows "be_sum False s = be_sum False s0 + unat v"
proof -
  have "nu_u16 (0 :: 16 word) = [0, 0]"
    by (simp add: nu_u16_def nu_unparse_int_def upt_rec numeral_2_eq_2)
  with assms show ?thesis
    using th_serialize_ok[of "h\<lparr>th_cksum := 0\<rparr>"] th_serialize_ok[of "h\<lparr>th_cksum := v\<rparr>"]
    by (auto simp: be_sum_append be_sum_u16 c8.put_width c16.put_width c32.put_width th_flags_def)
qed

text \<open>What is sent is the serialized header with a checksum under which the whole string
  checks, and the payload.\<close>

lemma ts_serialize_string:
  assumes "5 \<le> th_doff (ts_header seg)"
    and fits: "sum_fits ds (4 * unat (th_doff (ts_header seg)) + buf_size (ts_payload seg))"
  obtains bl v s where "ts_serialize seg ds = Inr bl"
    and "th_serialize ((ts_header seg)\<lparr>th_cksum := v\<rparr>) = Inr s"
    and "bl_concatenate bl = s @ buf_str (ts_payload seg)"
    and "ck_value (ck_add (ck_new ds) (bl_concatenate bl)) = 0"
proof -
  let ?h = "ts_header seg" and ?pl = "buf_str (ts_payload seg)"
  obtain s0 where s0: "th_serialize (?h\<lparr>th_cksum := 0\<rparr>) = Inr s0"
    using th_serialize_ok[of "?h\<lparr>th_cksum := 0\<rparr>"] assms(1) by simp
  let ?v = "ck_value (ck_add (ck_new ds) (s0 @ ?pl))"
  obtain s where s: "th_serialize (?h\<lparr>th_cksum := ?v\<rparr>) = Inr s"
    using th_serialize_ok[of "?h\<lparr>th_cksum := ?v\<rparr>"] assms(1) by simp
  have len: "length s = 4 * unat (th_doff ?h)" "length s0 = 4 * unat (th_doff ?h)"
    using th_serialize_length[OF s] th_serialize_length[OF s0] by simp_all
  have "be_sum False s = be_sum False s0 + unat ?v"
    by (rule th_serialize_cksum_sum[OF assms(1) s0 s])
  then have "ck_value (ck_add (ck_new ds) (s @ ?pl)) = 0"
    using fits len by (intro ck_fill_in[of ds _ "s0 @ ?pl"]) (auto simp: be_sum_append buf_size_def)
  moreover have "ts_serialize seg ds = Inr (bl_append (bl_of_string s) [ts_payload seg])"
    using s0 s by (simp add: ts_serialize_def Let_def ck_add_append)
  ultimately show thesis
    using that[OF _ s] by simp
qed

lemma ts_parse_checked:
  assumes "ck_value (ck_add (ck_new ds) (buf_str b)) = 0" "th_parse (np_new b) = (r, h, p)"
  shows "ts_parse seg b ds = (np_error p, \<lparr>ts_header = h, ts_payload = np_buffer p\<rparr>)"
  using assms by (simp add: ts_parse_def)

lemma ts_parse_serialize:
  assumes "5 \<le> th_doff (ts_header seg)" "th_doff (ts_header seg) < 16"
    and "sum_fits ds (60 + buf_size (ts_payload seg))"
  obtains bl v where "ts_serialize seg ds = Inr bl"
    and "bl_size bl = 4 * unat (th_doff (ts_header seg)) + buf_size (ts_payload seg)"
    and "\<And>b seg0. buf_ok b \<Longrightarrow> buf_str b = bl_concatenate bl \<Longrightarrow>
      \<exists>pl. ts_parse seg0 b ds = (NoError, \<lparr>ts_header = (ts_header seg)\<lparr>th_cksum := v\<rparr>, ts_payload = pl\<rparr>) \<and>
        buf_ok pl \<and> buf_str pl = buf_str (ts_payload seg)"
proof -
  let ?h = "ts_header seg"
  have doff: "unat (th_doff ?h) < 16" using assms(2) by (simp add: word_less_nat_alt)
  have "sum_fits ds (4 * unat (th_doff ?h) + buf_size (ts_payload seg))"
    using assms(3) doff by (simp add: sum_fits_def)
  then obtain bl v s where bl: "ts_serialize seg ds = Inr bl"
    and s: "th_serialize (?h\<lparr>th_cksum := v\<rparr>) = Inr s"
    and con: "bl_concatenate bl = s @ buf_str (ts_payload seg)"
    and ck: "ck_value (ck_add (ck_new ds) (bl_concatenate bl)) = 0"
    using ts_serialize_string[OF assms(1)] by blast
  have "\<exists>pl. ts_parse seg0 b ds = (NoError, \<lparr>ts_header = ?h\<lparr>th_cksum := v\<rparr>, ts_payload = pl\<rparr>) \<and>
        buf_ok pl \<and> buf_str pl = buf_str (ts_payload seg)"
    if b: "buf_ok b" "buf_str b = bl_concatenate bl" for b seg0
  proof -
    have "np_at (np_new b) (s @ buf_str (ts_payload seg))"
      using np_at_new[OF b(1)] b(2) con by simp
    then obtain p where p: "th_parse (np_new b) = (NoError, ?h\<lparr>th_cksum := v\<rparr>, p)"
      "np_at p (buf_str (ts_payload seg))"
      using th_parse_serialize[OF _ _ s] assms(1,2) by auto
    then show ?thesis
      using ts_parse_checked[OF _ p(1)] ck b(2) by (simp add: np_at_def)
  qed
  moreover have "bl_size bl = 4 * unat (th_doff ?h) + buf_size (ts_payload seg)"
    using con th_serialize_length[OF s] by (simp add: bl_size_concatenate buf_size_def)
  ultimately show thesis using that[OF bl] by blast
qed

text \<open>
  C12. A segment survives the wire: for a header of 5 to 15 words, a payload whose bytes do not
  overflow the 32-bit sum, and any pseudo header sum, what \<open>TCPSegment::serialize\<close> produces
  is accepted by \<open>TCPSegment::parse\<close> with every header field (the checksum apart, which is
  the computed one) and the payload as they were.
\<close>

theorem tcp_segment_roundtrip:
  assumes "5 \<le> th_doff (ts_header seg)" "th_doff (ts_header seg) < 16"
    and "sum_fits ds (60 + buf_size (ts_payload seg))"
  shows "\<exists>bl seg'. ts_serialize seg ds = Inr bl \<and>
    ts_parse seg0 (buf_of_string (bl_concatenate bl)) ds = (NoError, seg') \<and>
    (ts_header seg')\<lparr>th_cksum := th_cksum (ts_header seg)\<rparr> = ts_header seg \<and>
    buf_str (ts_payload seg') = buf_str (ts_payload seg)"
proof -
  obtain bl v where bl: "ts_serialize seg ds = Inr bl"
    "bl_size bl = 4 * unat (th_doff (ts_header seg)) + buf_size (ts_payload seg)"
    "\<And>b seg0. buf_ok b \<Longrightarrow> buf_str b = bl_concatenate bl \<Longrightarrow>
      \<exists>pl. ts_parse seg0 b ds = (NoError, \<lparr>ts_header = (ts_header seg)\<lparr>th_cksum := v\<rparr>, ts_payload = pl\<rparr>) \<and>
        buf_ok pl \<and> buf_str pl = buf_str (ts_payload seg)"
    using ts_parse_serialize[OF assms] by blast
  have "length (bl_concatenate bl) < two64"
    using bl(2) assms(2,3) by (simp add: bl_size_concatenate sum_fits_def word_less_nat_alt two64_def)
  then show ?thesis
    using bl(1) bl(3)[of "buf_of_string (bl_concatenate bl)" seg0] by auto
qed

theorem tcp_segment_roundtrip_witness:
  "\<exists>bl seg'. ts_serialize (ts_new\<lparr>ts_payload := buf_of_string [1, 2, 3]\<rparr>) 7 = Inr bl \<and>
    ts_parse ts_new (buf_of_string (bl_concatenate bl)) 7 = (NoError, seg') \<and>
    (ts_header seg')\<lparr>th_cksum := 0\<rparr> = th_new \<and> buf_str (ts_payload seg') = [1, 2, 3]"
  using tcp_segment_roundtrip[of "ts_new\<lparr>ts_payload := buf_of_string [1, 2, 3]\<rparr>" 7 ts_new]
  by (simp add: ts_new_def th_new_def sum_fits_def buf_size_def)

text \<open>
  C22. Damage of any one byte of a segment on the wire is detected: \<open>TCPSegment::parse\<close>
  reports \<open>BadChecksum\<close> and leaves the segment it was called on unchanged.
\<close>

theorem tcp_parse_detects_byte_error:
  assumes "5 \<le> th_doff (ts_header seg)" "th_doff (ts_header seg) < 16"
    and "sum_fits ds (60 + buf_size (ts_payload seg))"
    and "ts_serialize seg ds = Inr bl" "i < length (bl_concatenate bl)" "b \<noteq> bl_concatenate bl ! i"
  shows "ts_parse seg0 (buf_of_string ((bl_concatenate bl)[i := b])) ds = (BadChecksum, seg0)"
proof -
  have doff: "unat (th_doff (ts_header seg)) < 16" using assms(2) by (simp add: word_less_nat_alt)
  then have fits: "sum_fits ds (4 * unat (th_doff (ts_header seg)) + buf_size (ts_payload seg))"
    using assms(3) by (simp add: sum_fits_def)
  obtain bl' v s where "ts_serialize seg ds = Inr bl'"
    and "th_serialize ((ts_header seg)\<lparr>th_cksum := v\<rparr>) = Inr s"
    and "bl_concatenate bl' = s @ buf_str (ts_payload seg)"
    and "ck_value (ck_add (ck_new ds) (bl_concatenate bl')) = 0"
    using ts_serialize_string[OF assms(1) fits] by blast
  moreover from this(1) have "bl' = bl" using assms(4) by simp
  ultimately have s: "th_serialize ((ts_header seg)\<lparr>th_cksum := v\<rparr>) = Inr s"
    "bl_concatenate bl = s @ buf_str (ts_payload seg)"
    and ck: "ck_value (ck_add (ck_new ds) (bl_concatenate bl)) = 0"
    by simp_all
  then have "length (bl_concatenate bl) = 4 * unat (th_doff (ts_header seg)) + buf_size (ts_payload seg)"
    using th_serialize_length by (auto simp: buf_size_def)
  then have "ck_value (ck_add (ck_new ds) ((bl_concatenate bl)[i := b])) \<noteq> 0"
    using ck_detects_byte_error[OF _ ck assms(5,6)] fits by simp
  then show ?thesis by (simp add: ts_parse_def)
qed

lemma ts_serialize_example:
  "ts_serialize (ts_new\<lparr>ts_payload := buf_of_string [7]\<rparr>) 0 =
     Inr [buf_of_string [0, 0, 0, 0, 0, 0, 0, 0, 0, 0, 0, 0, 0x50, 0, 0, 0, 0xa8, 0xff, 0, 0],
          buf_of_string [7]]"
  by code_simp

theorem tcp_parse_detects_byte_error_witness:
  "ts_parse ts_new (buf_of_string
     [0, 0, 0, 9, 0, 0, 0, 0, 0, 0, 0, 0, 0x50, 0, 0, 0, 0xa8, 0xff, 0, 0, 7]) 0 = (BadChecksum, ts_new)"
  using tcp_parse_detects_byte_error[of "ts_new\<lparr>ts_payload := buf_of_string [7]\<rparr>" 0 _ 3 9 ts_new,
      OF _ _ _ ts_serialize_example]
  by (simp add: ts_new_def th_new_def sum_fits_def buf_size_def)

subsection \<open>The result of parsing\<close>

lemma left_after_0 [simp]: "left_after l 0 = l"
  by (simp add: left_after_def split: option.splits)

lemma th_parse_left:
  assumes "np_sound p0" "th_parse p0 = (r, h, p)"
  shows "np_sound p"
    and "np_left p = left_after (np_left p0) (if th_doff h < 5 then 20 else 4 * unat (th_doff h))"
proof -
  let ?p1 = "snd (np_u16 p0)"
  let ?p2 = "snd (np_u16 ?p1)"
  let ?p3 = "snd (np_u32 ?p2)"
  let ?p4 = "snd (np_u32 ?p3)"
  let ?p5 = "snd (np_u8 ?p4)"
  let ?p6 = "snd (np_u8 ?p5)"
  let ?p9 = "snd (np_u16 (snd (np_u16 (snd (np_u16 ?p6)))))"
  have p9: "np_sound ?p9" "np_left ?p9 = left_after (np_left p0) 20"
    using assms(1) by (simp_all add: codec_left left_after_add)
  have h: "th_doff h = drop_bit 4 (fst (np_u8 ?p4))"
    using assms(2) by (auto simp: th_parse_def Let_def case_prod_beta split: if_splits)
  have p: "p = (if th_doff h < 5 then ?p9 else np_remove_prefix ?p9 (unat (th_doff h) * 4 - 20))"
    using assms(2) unfolding h
    by (auto simp: th_parse_def Let_def case_prod_beta TCPHeader_LENGTH_def split: if_splits)
  have "20 + (unat (th_doff h) * 4 - 20) = 4 * unat (th_doff h)" if "\<not> th_doff h < 5"
    using that by (simp add: word_less_nat_alt)
  then show "np_sound p"
    and "np_left p = left_after (np_left p0) (if th_doff h < 5 then 20 else 4 * unat (th_doff h))"
    unfolding p using p9 np_remove_prefix_left[OF p9(1)] by (auto simp: left_after_add)
qed

lemma th_parse_doff:
  assumes "np_at p0 bs" "20 \<le> length bs" "th_parse p0 = (r, h, p)"
  shows "th_doff h = drop_bit 4 (bs ! 12)"
proof -
  let ?p4 = "snd (np_u32 (snd (np_u32 (snd (np_u16 (snd (np_u16 p0)))))))"
  have "np_at ?p4 (drop 4 (drop 4 (drop 2 (drop 2 bs))))"
    using assms(1,2) by (intro np_u16_advance np_u32_advance) auto
  moreover have "drop 4 (drop 4 (drop 2 (drop 2 bs))) = bs ! 12 # drop 13 bs"
    using assms(2) Cons_nth_drop_Suc[of 12 bs] by simp
  ultimately have "fst (np_u8 ?p4) = bs ! 12"
    using np_u8_at by simp
  then show ?thesis
    using assms(3) by (auto simp: th_parse_def Let_def case_prod_beta split: if_splits)
qed

lemma th_parse_short_doff:
  assumes "np_at p0 bs" "20 \<le> length bs" "drop_bit 4 (bs ! 12) < 5"
  shows "fst (th_parse p0) = HeaderTooShort"
proof -
  obtain r h p where p: "th_parse p0 = (r, h, p)" by (metis prod_cases3)
  then have "th_doff h < 5" using th_parse_doff[OF assms(1,2)] assms(3) by simp
  with p show ?thesis by (auto simp: th_parse_def Let_def case_prod_beta split: if_splits)
qed

text \<open>
  The result of \<open>TCPSegment::parse\<close> in every case: \<open>BadChecksum\<close> when the sum does
  not check; \<open>PacketTooShort\<close> when the 20 bytes of the header, or the words its data offset
  announces, are not there; \<open>NoError\<close> otherwise. In particular a data offset below 5 is
  not an error of the segment, although \<open>TCPHeader::parse\<close> reports it.
\<close>

theorem tcp_parse_result:
  assumes "buf_ok b"
  shows "fst (ts_parse seg b ds) =
    (let doff = unat (drop_bit 4 (buf_str b ! 12)) in
     if ck_value (ck_add (ck_new ds) (buf_str b)) \<noteq> 0 then BadChecksum
     else if buf_size b < 20 \<or> 5 \<le> doff \<and> buf_size b < 4 * doff then PacketTooShort
     else NoError)"
proof (cases "ck_value (ck_add (ck_new ds) (buf_str b)) = 0")
  case False
  then show ?thesis by (simp add: ts_parse_def)
next
  case True
  obtain r h p where p: "th_parse (np_new b) = (r, h, p)" by (metis prod_cases3)
  have at: "np_at (np_new b) (buf_str b)" by (rule np_at_new[OF assms])
  note left = th_parse_left[OF conjunct2[OF np_at_left[OF at]] p]
  have "fst (ts_parse seg b ds) = (if np_left p = None then PacketTooShort else NoError)"
    using ts_parse_checked[OF True p] np_sound_error[OF left(1)] by simp
  moreover have "np_left p = left_after (Some (buf_size b)) (if th_doff h < 5 then 20 else 4 * unat (th_doff h))"
    using left(2) np_at_left[OF at] by (simp add: buf_size_def)
  moreover have "20 \<le> buf_size b \<longrightarrow> th_doff h = drop_bit 4 (buf_str b ! 12)"
    using th_parse_doff[OF at _ p] by (simp add: buf_size_def)
  ultimately show ?thesis
    using True by (auto simp: left_after_def word_less_nat_alt Let_def)
qed

theorem tcp_parse_result_witness:
  "fst (ts_parse ts_new (buf_of_string
     [0, 0, 0, 0, 0, 0, 0, 0, 0, 0, 0, 0, 0x40, 0, 0, 0, 0xbf, 0xff, 0, 0]) 0) = NoError \<and>
   fst (th_parse (np_new (buf_of_string
     [0, 0, 0, 0, 0, 0, 0, 0, 0, 0, 0, 0, 0x40, 0, 0, 0, 0xbf, 0xff, 0, 0]))) = HeaderTooShort"
proof -
  let ?s = "[0, 0, 0, 0, 0, 0, 0, 0, 0, 0, 0, 0, 0x40, 0, 0, 0, 0xbf, 0xff, 0, 0] :: bytes"
  have "ck_value (ck_add (ck_new 0) ?s) = 0" by code_simp
  moreover have "fst (th_parse (np_new (buf_of_string ?s))) = HeaderTooShort"
    by (rule th_parse_short_doff[OF np_at_new]) (simp_all add: two64_def)
  ultimately show ?thesis
    using tcp_parse_result[of "buf_of_string ?s" ts_new 0]
    by (simp add: two64_def buf_size_def Let_def)
qed

end
