(* ===== verification/TCP_Config.thy ===== *)
theory TCP_Config
  imports Wrapping_Integers
begin

text \<open>
  The constants and the configuration record of a TCP endpoint
  (\<open>libsponge/tcp_helpers/tcp_config.hh\<close>, class \<open>TCPConfig\<close>).
\<close>

definition DEFAULT_CAPACITY :: u64 where
  "DEFAULT_CAPACITY = 64000"

definition MAX_PAYLOAD_SIZE :: u64 where
  "MAX_PAYLOAD_SIZE = 1000"

definition TIMEOUT_DFLT :: "16 word" where
  "TIMEOUT_DFLT = 1000"

definition MAX_RETX_ATTEMPTS :: "32 word" where
  "MAX_RETX_ATTEMPTS = 8"

record TCPConfig =
  cfg_rt_timeout :: "16 word"
  cfg_recv_capacity :: u64
  cfg_send_capacity :: u64
  cfg_fixed_isn :: "WrappingInt32 option"

definition cfg_default :: TCPConfig where
  "cfg_default = \<lparr>cfg_rt_timeout = TIMEOUT_DFLT, cfg_recv_capacity = DEFAULT_CAPACITY,
     cfg_send_capacity = DEFAULT_CAPACITY, cfg_fixed_isn = None\<rparr>"

end
