(* ===== verification/TCP_Sender.thy ===== *)
theory TCP_Sender
  imports Byte_Stream TCP_Segment TCP_Config
begin

text \<open>
  The sender (\<open>libsponge/tcp_sender.hh\<close> and \<open>tcp_sender.cc\<close>): it cuts the bytes of its
  stream into segments as the peer's window allows, keeps the segments that are not yet
  acknowledged and sends the oldest one again when the timer expires. The queue
  \<open>segments_out\<close> is shared with the connection, which takes segments from it.

  The loop of \<open>fill_window\<close> is a partial function; that it returns in every state a
  sender can reach is part of \<open>sender_fill_window\<close> (theory \<open>Sender_Correct\<close>).
\<close>

subsection \<open>State\<close>

record TCPSender =
  tx_isn :: WrappingInt32
  tx_segments_out :: "TCPSegment list"
  tx_outstanding :: "TCPSegment list"
  tx_initial_rto :: "32 word"
  tx_applying_rto :: "32 word"
  tx_last_tick_time :: u64
  tx_timing_begins :: bool
  tx_consecutive :: "16 word"
  tx_stream :: ByteStream
  tx_next_seqno :: u64
  tx_confirmed_seqno :: u64
  tx_fin_sent :: bool
  tx_bytes_in_flight :: u64
  tx_receiver_window :: "16 word"

text \<open>The random number that stands in for a missing initial sequence number is an argument.\<close>

definition tx_new :: "32 word \<Rightarrow> u64 \<Rightarrow> 16 word \<Rightarrow> WrappingInt32 option \<Rightarrow> TCPSender" where
  "tx_new random capacity retx_timeout fixed_isn =
     \<lparr>tx_isn = (case fixed_isn of Some i \<Rightarrow> i | None \<Rightarrow> WrappingInt32 random),
      tx_segments_out = [], tx_outstanding = [],
      tx_initial_rto = ucast retx_timeout, tx_applying_rto = ucast retx_timeout,
      tx_last_tick_time = 0, tx_timing_begins = False, tx_consecutive = 0,
      tx_stream = bs_new capacity, tx_next_seqno = 0, tx_confirmed_seqno = 0,
      tx_fin_sent = False, tx_bytes_in_flight = 0, tx_receiver_window = 0\<rparr>"

subsection \<open>Operations\<close>

text \<open>\<open>send_tcp_segment\<close> writes the sequence number into its argument; the segment is
  returned with the sender.\<close>

definition tx_send_tcp_segment :: "TCPSender \<Rightarrow> TCPSegment \<Rightarrow> TCPSegment \<times> TCPSender" where
  "tx_send_tcp_segment tx seg0 =
     (let seg = seg0\<lparr>ts_header := (ts_header seg0)\<lparr>th_seqno := wrap (tx_next_seqno tx) (tx_isn tx)\<rparr>\<rparr>;
          len = ts_length_in_sequence_space seg;
          tx1 = tx\<lparr>tx_segments_out := tx_segments_out tx @ [seg],
                   tx_outstanding := tx_outstanding tx @ [seg],
                   tx_next_seqno := u64_add (tx_next_seqno tx) len,
                   tx_bytes_in_flight := u64_add (tx_bytes_in_flight tx) len\<rparr>
      in (seg, if \<not> tx_timing_begins tx1
               then tx1\<lparr>tx_timing_begins := True, tx_last_tick_time := 0\<rparr> else tx1))"

definition tx_payload_size :: "TCPSender \<Rightarrow> u64 \<Rightarrow> u64" where
  "tx_payload_size tx available_window =
     min (bs_buffer_size (tx_stream tx)) (min available_window MAX_PAYLOAD_SIZE)"

text \<open>One round of the loop: the segment variable lives outside the loop and keeps its header.\<close>

definition tx_fill_round :: "TCPSender \<Rightarrow> TCPSegment \<Rightarrow> u64 \<Rightarrow> TCPSender \<times> TCPSegment \<times> u64" where
  "tx_fill_round tx seg available_window =
     (let (data, stream') = bs_read (tx_stream tx) (tx_payload_size tx available_window);
          seg1 = seg\<lparr>ts_payload := buf_of_string data\<rparr>;
          tx1 = tx\<lparr>tx_stream := stream'\<rparr>;
          fin = (bs_eof stream' \<and> ts_length_in_sequence_space seg1 < available_window);
          seg2 = (if fin then seg1\<lparr>ts_header := (ts_header seg1)\<lparr>th_fin := True\<rparr>\<rparr> else seg1);
          tx2 = (if fin then tx1\<lparr>tx_fin_sent := True\<rparr> else tx1);
          (seg3, tx3) = tx_send_tcp_segment tx2 seg2
      in (tx3, seg3, u64_sub available_window (ts_length_in_sequence_space seg3)))"

partial_function (option) tx_fill_loop :: "TCPSender \<Rightarrow> TCPSegment \<Rightarrow> u64 \<Rightarrow> TCPSender option" where
  "tx_fill_loop tx seg available_window =
     (if \<not> bs_buffer_empty (tx_stream tx) \<and> available_window \<noteq> 0
      then (case tx_fill_round tx seg available_window of (tx', seg', w') \<Rightarrow> tx_fill_loop tx' seg' w')
      else Some tx)"

declare tx_fill_loop.simps [code]

definition tx_logical_window :: "TCPSender \<Rightarrow> 16 word" where
  "tx_logical_window tx = (if tx_receiver_window tx = 0 then 1 else tx_receiver_window tx)"

definition tx_fill_window :: "TCPSender \<Rightarrow> TCPSender option" where
  "tx_fill_window tx =
     (if tx_fin_sent tx then Some tx
      else if tx_next_seqno tx = 0 then
        Some (snd (tx_send_tcp_segment tx (ts_new\<lparr>ts_header := th_new\<lparr>th_syn := True\<rparr>\<rparr>)))
      else
        let w = unat (tx_logical_window tx) in
        if u64_add (tx_confirmed_seqno tx) w \<le> tx_next_seqno tx then Some tx
        else if bs_eof (tx_stream tx) then
          Some ((snd (tx_send_tcp_segment tx (ts_new\<lparr>ts_header := th_new\<lparr>th_fin := True\<rparr>\<rparr>)))
                  \<lparr>tx_fin_sent := True\<rparr>)
        else
          tx_fill_loop tx ts_new (u64_sub w (u64_sub (tx_next_seqno tx) (tx_confirmed_seqno tx))))"

definition tx_tick :: "TCPSender \<Rightarrow> u64 \<Rightarrow> TCPSender" where
  "tx_tick tx ms_since_last_tick =
     (if \<not> tx_timing_begins tx then tx
      else
        let tx1 = tx\<lparr>tx_last_tick_time := u64_add (tx_last_tick_time tx) ms_since_last_tick\<rparr> in
        case tx_outstanding tx1 of
          [] \<Rightarrow> tx1
        | seg # _ \<Rightarrow>
            if tx_last_tick_time tx1 \<ge> unat (tx_applying_rto tx1) then
              (let tx2 = tx1\<lparr>tx_segments_out := tx_segments_out tx1 @ [seg], tx_last_tick_time := 0\<rparr>
               in if tx_receiver_window tx2 > 0 \<or> th_syn (ts_header seg)
                  then tx2\<lparr>tx_consecutive := tx_consecutive tx2 + 1,
                           tx_applying_rto := tx_applying_rto tx2 * 2\<rparr>
                  else tx2)
            else tx1)"

definition tx_front_ackno :: "TCPSender \<Rightarrow> u64" where
  "tx_front_ackno tx =
     (case tx_outstanding tx of
        [] \<Rightarrow> 0
      | front # _ \<Rightarrow> u64_add (unwrap (th_seqno (ts_header front)) (tx_isn tx) (tx_next_seqno tx))
                      (ts_length_in_sequence_space front))"

definition tx_front_size :: "TCPSender \<Rightarrow> u64" where
  "tx_front_size tx =
     (case tx_outstanding tx of [] \<Rightarrow> 0 | front # _ \<Rightarrow> ts_length_in_sequence_space front)"

text \<open>The loop over the outstanding segments: whether the method returned from inside the loop,
  whether a segment was acknowledged, and the sender.\<close>

function tx_ack_loop :: "u64 \<Rightarrow> bool \<Rightarrow> TCPSender \<Rightarrow> bool \<times> bool \<times> TCPSender" where
  "tx_ack_loop abs_ackno ack tx =
     (if tx_outstanding tx = [] then (False, ack, tx)
      else if abs_ackno < tx_front_ackno tx then (True, ack, tx)
      else
        let tx1 = (if \<not> ack
                   then tx\<lparr>tx_applying_rto := tx_initial_rto tx, tx_consecutive := 0,
                           tx_last_tick_time := 0\<rparr> else tx);
            tx2 = tx1\<lparr>tx_bytes_in_flight := u64_sub (tx_bytes_in_flight tx1) (tx_front_size tx1),
                      tx_outstanding := tl (tx_outstanding tx1)\<rparr>
        in tx_ack_loop abs_ackno True tx2)"
  by pat_completeness auto
termination
  by (relation "measure (\<lambda>(_, _, tx). length (tx_outstanding tx))") auto

declare tx_ack_loop.simps [simp del]

definition tx_ack_received :: "TCPSender \<Rightarrow> WrappingInt32 \<Rightarrow> 16 word \<Rightarrow> TCPSender option" where
  "tx_ack_received tx ackno window_size =
     (let abs_ackno = unwrap ackno (tx_isn tx) (tx_next_seqno tx) in
      if tx_confirmed_seqno tx > abs_ackno \<or> abs_ackno > tx_next_seqno tx then Some tx
      else
        let tx1 = tx\<lparr>tx_confirmed_seqno := abs_ackno, tx_receiver_window := window_size\<rparr>
        in case tx_ack_loop abs_ackno False tx1 of (returned, ack, tx2) \<Rightarrow>
             if returned then Some tx2
             else map_option (\<lambda>tx3. tx3\<lparr>tx_timing_begins := (tx_outstanding tx3 \<noteq> [])\<rparr>)
                    (if ack then tx_fill_window tx2 else Some tx2))"

definition tx_send_empty_segment :: "TCPSender \<Rightarrow> TCPSender" where
  "tx_send_empty_segment tx = tx\<lparr>tx_segments_out := tx_segments_out tx @
     [ts_new\<lparr>ts_header := th_new\<lparr>th_seqno := wrap (tx_next_seqno tx) (tx_isn tx)\<rparr>\<rparr>]\<rparr>"

definition tx_next_seqno_wrapped :: "TCPSender \<Rightarrow> WrappingInt32" where
  "tx_next_seqno_wrapped tx = wrap (tx_next_seqno tx) (tx_isn tx)"

definition tx_is_empty :: "TCPSender \<Rightarrow> bool" where
  "tx_is_empty tx \<longleftrightarrow> tx_segments_out tx = []"

text \<open>\<open>front\<close> of an empty queue is undefined; the callers check first.\<close>

definition tx_read_a_segment :: "TCPSender \<Rightarrow> (TCPSegment \<times> TCPSender) option" where
  "tx_read_a_segment tx =
     (case tx_segments_out tx of [] \<Rightarrow> None | seg # rest \<Rightarrow> Some (seg, tx\<lparr>tx_segments_out := rest\<rparr>))"

end
