(* ===== verification/Sender_Invariant.thy ===== *)
theory Sender_Invariant
  imports TCP_Sender
begin

text \<open>
  What a sender has sent. The invariant relates a sender to the list of all segments it has
  sent for the first time: they are numbered one after the other, the outstanding ones are
  exactly those not fully acknowledged, and their payloads are the bytes taken from the stream.
  Every operation keeps it, with any arguments: no assumption is made about the
  acknowledgments, window sizes and times that come in.
\<close>

subsection \<open>Lists of segments\<close>

abbreviation lsp :: "TCPSegment \<Rightarrow> nat" where
  "lsp \<equiv> ts_length_in_sequence_space"

abbreviation pay :: "TCPSegment \<Rightarrow> bytes" where
  "pay seg \<equiv> buf_str (ts_payload seg)"

definition lsum :: "TCPSegment list \<Rightarrow> nat" where
  "lsum L = sum_list (map lsp L)"

lemma lsum_simps [simp]: "lsum [] = 0" "lsum (x # L) = lsp x + lsum L" "lsum (L @ M) = lsum L + lsum M"
  by (simp_all add: lsum_def)

lemma lsum_take_drop: "lsum (take j L) + lsum (drop j L) = lsum L"
  by (metis append_take_drop_id lsum_simps(3))

lemma lsum_take_le: "lsum (take j L) \<le> lsum L"
  using lsum_take_drop[of j L] by simp

lemma lsum_take_Suc: "j < length L \<Longrightarrow> lsum (take (Suc j) L) = lsum (take j L) + lsp (L ! j)"
  by (simp add: take_Suc_conv_app_nth)

definition numbered :: "WrappingInt32 \<Rightarrow> TCPSegment list \<Rightarrow> bool" where
  "numbered isn L \<longleftrightarrow> (\<forall>j < length L. th_seqno (ts_header (L ! j)) = wrap (lsum (take j L)) isn)"

lemma numbered_append:
  "numbered isn (L @ [x]) \<longleftrightarrow> numbered isn L \<and> th_seqno (ts_header x) = wrap (lsum L) isn"
  by (auto simp: numbered_def nth_append less_Suc_eq)

subsection \<open>The invariant\<close>

text \<open>The queue of outstanding segments: \<open>j\<close> segments are acknowledged.\<close>

definition tx_queue :: "TCPSegment list \<Rightarrow> nat \<Rightarrow> TCPSender \<Rightarrow> bool" where
  "tx_queue L j tx \<longleftrightarrow>
     j \<le> length L \<and> tx_outstanding tx = drop j L \<and> numbered (tx_isn tx) L \<and>
     tx_next_seqno tx = lsum L \<and> tx_bytes_in_flight tx = lsum (drop j L) \<and>
     lsum (take j L) \<le> tx_confirmed_seqno tx \<and> tx_confirmed_seqno tx \<le> lsum L \<and>
     lsum L \<le> tx_confirmed_seqno tx + 65535 \<and>
     (\<forall>x \<in> set L. 0 < lsp x \<and> lsp x \<le> 1001)"

text \<open>After an acknowledgment was handled: the first outstanding segment is not covered, and the
  timer runs when something is outstanding.\<close>

definition tx_settled :: "TCPSegment list \<Rightarrow> nat \<Rightarrow> TCPSender \<Rightarrow> bool" where
  "tx_settled L j tx \<longleftrightarrow> (j < length L \<longrightarrow>
     tx_confirmed_seqno tx < lsum (take (Suc j) L) \<and> tx_timing_begins tx)"

text \<open>The contents: an opening segment, then pieces of the bytes \<open>w\<close> written to the stream, the
  last of them with the end mark once it was sent.\<close>

definition tx_contents :: "bytes \<Rightarrow> TCPSegment list \<Rightarrow> TCPSender \<Rightarrow> bool" where
  "tx_contents w L tx \<longleftrightarrow>
     bs_inv (tx_stream tx) \<and> concat (map pay L) @ bs_stream (tx_stream tx) = w \<and>
     (L \<noteq> [] \<longrightarrow> th_syn (ts_header (hd L)) \<and> pay (hd L) = [] \<and> \<not> th_fin (ts_header (hd L))) \<and>
     (\<forall>x \<in> set (tl L). \<not> th_syn (ts_header x) \<and> length (pay x) \<le> MAX_PAYLOAD_SIZE \<and>
        (pay x = [] \<longrightarrow> th_fin (ts_header x))) \<and>
     (\<forall>x \<in> set (butlast L). \<not> th_fin (ts_header x)) \<and>
     (tx_fin_sent tx \<longleftrightarrow> L \<noteq> [] \<and> th_fin (ts_header (last L))) \<and>
     (tx_fin_sent tx \<longrightarrow> bs_input_ended (tx_stream tx))"

definition empty_segment :: "TCPSegment \<Rightarrow> bool" where
  "empty_segment seg \<longleftrightarrow> \<not> th_syn (ts_header seg) \<and> \<not> th_fin (ts_header seg) \<and> pay seg = []"

definition tx_good :: "bytes \<Rightarrow> TCPSegment list \<Rightarrow> nat \<Rightarrow> TCPSender \<Rightarrow> bool" where
  "tx_good w L j tx \<longleftrightarrow> tx_queue L j tx \<and> tx_settled L j tx \<and> tx_contents w L tx \<and>
     (\<forall>x \<in> set (tx_segments_out tx). x \<in> set L \<or> empty_segment x)"

lemma lsp_eq: "lsp seg = length (pay seg) + (if th_syn (ts_header seg) then 1 else 0) +
    (if th_fin (ts_header seg) then 1 else 0)"
  by (simp add: ts_length_in_sequence_space_def buf_size_def)

lemma tx_contents_length:
  assumes "tx_contents w L tx" "L \<noteq> []"
  shows "lsum L = 1 + length (concat (map pay L)) + (if tx_fin_sent tx then 1 else 0)"
proof -
  have sum: "lsum M = length (concat (map pay M))"
    if "\<forall>x \<in> set M. \<not> th_syn (ts_header x) \<and> \<not> th_fin (ts_header x)" for M
    using that by (induction M) (auto simp: lsp_eq)
  obtain h M where L: "L = h # M" using assms(2) by (cases L) auto
  show ?thesis
  proof (cases M rule: rev_cases)
    case Nil
    then show ?thesis using assms L by (auto simp: tx_contents_def lsp_eq)
  next
    case (snoc N l)
    have "\<forall>x \<in> set N. \<not> th_syn (ts_header x) \<and> \<not> th_fin (ts_header x)"
      using assms L snoc by (auto simp: tx_contents_def butlast_append)
    from sum[OF this] show ?thesis
      using assms L snoc by (auto simp: tx_contents_def lsp_eq)
  qed
qed

lemma tx_contents_bound:
  assumes "tx_contents w L tx" "length w < 2 ^ 62"
  shows "lsum L < 2 ^ 62 + 2"
  using tx_contents_length[OF assms(1)] assms by (cases "L = []") (auto simp: tx_contents_def)

lemma tx_good_new:
  "c < two64 \<Longrightarrow> tx_good [] [] 0 (tx_new rnd c rto isn)"
  by (simp add: tx_good_def tx_queue_def tx_settled_def tx_contents_def tx_new_def numbered_def
      bs_inv_new) (simp add: bs_new_def)

subsection \<open>Sending\<close>

lemma tx_send_queue:
  fixes seg :: TCPSegment
  assumes q: "tx_queue L j tx" "tx_settled L j tx"
    and seg: "0 < lsp seg" "lsp seg \<le> 1001" "lsum L + lsp seg \<le> tx_confirmed_seqno tx + 65535"
    and bound: "lsum L < 2 ^ 62 + 2"
    and eq: "tx_send_tcp_segment tx seg = (seg', tx')"
  shows "tx_queue (L @ [seg']) j tx'" "tx_settled (L @ [seg']) j tx'"
    and "seg' = seg\<lparr>ts_header := (ts_header seg)\<lparr>th_seqno := wrap (lsum L) (tx_isn tx)\<rparr>\<rparr>"
    and "tx_segments_out tx' = tx_segments_out tx @ [seg']"
    and "tx_stream tx' = tx_stream tx" "tx_fin_sent tx' = tx_fin_sent tx"
    and "tx_confirmed_seqno tx' = tx_confirmed_seqno tx" "tx_isn tx' = tx_isn tx"
    and "tx_receiver_window tx' = tx_receiver_window tx"
proof -
  let ?s = "seg\<lparr>ts_header := (ts_header seg)\<lparr>th_seqno := wrap (lsum L) (tx_isn tx)\<rparr>\<rparr>"
  have s': "seg' = ?s"
    using eq q(1) by (simp add: tx_send_tcp_segment_def Let_def tx_queue_def)
  have len: "lsp ?s = lsp seg" by (simp add: lsp_eq)
  have fl: "lsum (drop j L) \<le> lsum L" using lsum_take_drop[of j L] by simp
  have adds: "u64_add (lsum L) (lsp seg) = lsum L + lsp seg"
    "u64_add (lsum (drop j L)) (lsp seg) = lsum (drop j L) + lsp seg"
    using bound seg(2) fl by (simp_all add: u64_add_exact two64_def)
  have tx': "tx' = (if \<not> tx_timing_begins tx then
       tx\<lparr>tx_segments_out := tx_segments_out tx @ [?s], tx_outstanding := drop j L @ [?s],
          tx_next_seqno := lsum L + lsp seg, tx_bytes_in_flight := lsum (drop j L) + lsp seg,
          tx_timing_begins := True, tx_last_tick_time := 0\<rparr>
     else tx\<lparr>tx_segments_out := tx_segments_out tx @ [?s], tx_outstanding := drop j L @ [?s],
          tx_next_seqno := lsum L + lsp seg, tx_bytes_in_flight := lsum (drop j L) + lsp seg\<rparr>)"
  proof -
    have "tx' = snd (tx_send_tcp_segment tx seg)" using eq by simp
    moreover have "tx_next_seqno tx = lsum L" "tx_bytes_in_flight tx = lsum (drop j L)"
      "tx_outstanding tx = drop j L"
      using q(1) by (auto simp: tx_queue_def)
    ultimately show ?thesis
      by (simp add: tx_send_tcp_segment_def Let_def len adds)
  qed
  show "tx_queue (L @ [seg']) j tx'"
    using q(1) seg len by (auto simp: tx_queue_def tx' s' numbered_append)
  have conf: "tx_confirmed_seqno tx < lsum (take (Suc j) (L @ [seg']))"
  proof (cases "j < length L")
    case True
    then show ?thesis using q(2) by (simp add: tx_settled_def)
  next
    case False
    then show ?thesis using q(1) seg(1) len by (simp add: tx_queue_def s')
  qed
  then show "tx_settled (L @ [seg']) j tx'"
    using q by (auto simp: tx_settled_def tx' tx_queue_def)
qed (use eq q(1) in \<open>auto simp: tx_send_tcp_segment_def Let_def tx_queue_def split: if_splits\<close>)

lemma tx_contents_append:
  assumes "tx_contents w L tx" "\<not> tx_fin_sent tx" "L \<noteq> []"
    and "\<not> th_syn (ts_header seg)" "length (pay seg) \<le> MAX_PAYLOAD_SIZE" "pay seg = [] \<Longrightarrow> th_fin (ts_header seg)"
    and "bs_inv (tx_stream tx')" "pay seg @ bs_stream (tx_stream tx') = bs_stream (tx_stream tx)"
    and "tx_fin_sent tx' = th_fin (ts_header seg)" "tx_fin_sent tx' \<Longrightarrow> bs_input_ended (tx_stream tx')"
  shows "tx_contents w (L @ [seg]) tx'"
proof -
  have "butlast L @ [last L] = L" using assms(3) by simp
  moreover have "\<not> th_fin (ts_header (last L))" using assms(1-3) by (simp add: tx_contents_def)
  ultimately have "\<forall>x \<in> set L. \<not> th_fin (ts_header x)"
    using assms(1) by (metis UnE empty_iff empty_set set_ConsD set_append tx_contents_def)
  then show ?thesis using assms by (auto simp: tx_contents_def)
qed

definition same_peer :: "TCPSender \<Rightarrow> TCPSender \<Rightarrow> bool" where
  "same_peer tx tx' \<longleftrightarrow> tx_confirmed_seqno tx' = tx_confirmed_seqno tx \<and> tx_isn tx' = tx_isn tx \<and>
     tx_receiver_window tx' = tx_receiver_window tx"

lemma tx_fill_round_good:
  assumes good: "tx_good w L j tx" and w: "length w < 2 ^ 62" and L: "L \<noteq> []" "\<not> tx_fin_sent tx"
    and more: "bs_stream (tx_stream tx) \<noteq> []" "0 < avail" "lsum L + avail \<le> tx_confirmed_seqno tx + 65535"
    and seg: "\<not> th_syn (ts_header seg)" "\<not> th_fin (ts_header seg)"
    and eq: "tx_fill_round tx seg avail = (tx', seg', avail')"
  shows "tx_good w (L @ [seg']) j tx'" and "lsum (L @ [seg']) + avail' = lsum L + avail"
    and "\<not> th_syn (ts_header seg')" "th_fin (ts_header seg') = tx_fin_sent tx'"
    and "length (bs_stream (tx_stream tx')) < length (bs_stream (tx_stream tx))"
    and "tx_fin_sent tx' \<longrightarrow> bs_stream (tx_stream tx') = []"
    and "tx_segments_out tx' = tx_segments_out tx @ [seg']" "same_peer tx tx'"
    and "bs_input_ended (tx_stream tx') = bs_input_ended (tx_stream tx)"
    and "bs_eof (tx_stream tx') \<longrightarrow> lsp seg' < avail \<longrightarrow> tx_fin_sent tx'"
proof -
  have q: "tx_queue L j tx" "tx_settled L j tx" "tx_contents w L tx" and inv: "bs_inv (tx_stream tx)"
    using good by (auto simp: tx_good_def tx_contents_def)
  define n where "n = min (length (bs_stream (tx_stream tx))) (min avail 1000)"
  define data where "data = take n (bs_stream (tx_stream tx))"
  define stream where "stream = bs_pop_output (tx_stream tx) n"
  define fin where "fin = (bs_eof stream \<and> length data < avail)"
  define seg1 where "seg1 = seg\<lparr>ts_payload := buf_of_string data\<rparr>"
  define seg2 where "seg2 = (if fin then seg1\<lparr>ts_header := (ts_header seg1)\<lparr>th_fin := True\<rparr>\<rparr> else seg1)"
  define tx2 where "tx2 = (if fin then tx\<lparr>tx_stream := stream\<rparr>\<lparr>tx_fin_sent := True\<rparr> else tx\<lparr>tx_stream := stream\<rparr>)"
  have n: "0 < n" "n \<le> avail" "n \<le> 1000" "length data = n" using more by (auto simp: n_def data_def)
  have size: "tx_payload_size tx avail = n"
    using inv by (simp add: tx_payload_size_def MAX_PAYLOAD_SIZE_def bs_inv_def n_def)
  have l1: "lsp seg1 = length data" using seg by (simp add: lsp_eq seg1_def)
  have "tx_fill_round tx seg avail = (case tx_send_tcp_segment tx2 seg2 of (s, t) \<Rightarrow> (t, s, u64_sub avail (lsp s)))"
    unfolding tx_fill_round_def size bs_read_eq[OF inv] Let_def prod.case
    by (simp only: data_def[symmetric] stream_def[symmetric] seg1_def[symmetric] l1 fin_def[symmetric]
        seg2_def[symmetric] tx2_def[symmetric])
  then have snd: "tx_send_tcp_segment tx2 seg2 = (seg', tx')" and av: "avail' = u64_sub avail (lsp seg')"
    using eq by (auto simp: split_beta)
  have tx2: "tx_segments_out tx2 = tx_segments_out tx" "tx_stream tx2 = stream" "tx_fin_sent tx2 = fin"
    "same_peer tx tx2" "tx_queue L j tx2" "tx_settled L j tx2"
    using q(1,2) L(2) by (auto simp: tx2_def same_peer_def tx_queue_def tx_settled_def)
  have seg2: "lsp seg2 = n + (if fin then 1 else 0)" "\<not> th_syn (ts_header seg2)"
    "th_fin (ts_header seg2) = fin" "pay seg2 = data"
    using seg n(4) by (auto simp: lsp_eq seg2_def seg1_def)
  have conf: "tx_confirmed_seqno tx2 = tx_confirmed_seqno tx" using tx2(4) by (simp add: same_peer_def)
  have l2: "0 < lsp seg2" "lsp seg2 \<le> 1001" "lsum L + lsp seg2 \<le> tx_confirmed_seqno tx2 + 65535" "lsp seg2 \<le> avail"
    using seg2(1) n more(3) conf by (auto simp: fin_def)
  note s = tx_send_queue[OF tx2(5,6) l2(1-3) tx_contents_bound[OF q(3) w] snd]
  have seg': "lsp seg' = lsp seg2" "\<not> th_syn (ts_header seg')" "th_fin (ts_header seg') = fin" "pay seg' = data"
    unfolding s(3) using seg2(2-4) by (auto simp: lsp_eq)
  have bs: "bs_stream stream = drop n (bs_stream (tx_stream tx))" "bs_inv stream"
    "bs_input_ended stream = bs_input_ended (tx_stream tx)"
    using bs_inv_pop[OF inv] by (simp_all add: stream_def bs_pop_eq[OF inv])
  show "bs_eof (tx_stream tx') \<longrightarrow> lsp seg' < avail \<longrightarrow> tx_fin_sent tx'"
    using seg'(1) seg2(1) n(4) by (auto simp: s(5,6) tx2(2,3) fin_def)
  have avail: "avail < two64" using more(3) q(1) tx_contents_bound[OF q(3) w] by (simp add: tx_queue_def two64_def)
  show "lsum (L @ [seg']) + avail' = lsum L + avail"
    using av seg'(1) l2(4) avail by (simp add: u64_sub_exact)
  show "\<not> th_syn (ts_header seg')" "th_fin (ts_header seg') = tx_fin_sent tx'"
    using seg' s(6) tx2(3) by simp_all
  show "length (bs_stream (tx_stream tx')) < length (bs_stream (tx_stream tx))"
    using n(1) more(1) by (simp add: s(5) tx2(2) bs(1))
  show "tx_fin_sent tx' \<longrightarrow> bs_stream (tx_stream tx') = []"
    by (simp add: s(5,6) tx2(2,3) fin_def bs_eof_def bs_buffer_empty_def)
  have "tx_contents w (L @ [seg']) tx'"
  proof (rule tx_contents_append[OF q(3) L(2,1) seg'(2)])
    show "length (pay seg') \<le> MAX_PAYLOAD_SIZE" using seg'(4) n by (simp add: MAX_PAYLOAD_SIZE_def)
    show "pay seg' = [] \<Longrightarrow> th_fin (ts_header seg')" using seg'(4) n by auto
    show "bs_inv (tx_stream tx')" by (simp add: s(5) tx2(2) bs(2))
    show "pay seg' @ bs_stream (tx_stream tx') = bs_stream (tx_stream tx)"
      by (simp add: s(5) tx2(2) bs(1) seg'(4) data_def)
    show "tx_fin_sent tx' = th_fin (ts_header seg')" by (simp add: s(6) tx2(3) seg'(3))
    show "tx_fin_sent tx' \<Longrightarrow> bs_input_ended (tx_stream tx')"
      by (simp add: s(5,6) tx2(2,3) fin_def bs_eof_def)
  qed
  then show "tx_good w (L @ [seg']) j tx'"
    using good s(1,2,4) tx2(1) by (auto simp: tx_good_def)
  show "tx_segments_out tx' = tx_segments_out tx @ [seg']" using s(4) tx2(1) by simp
  show "same_peer tx tx'" using s(7-9) tx2(4) by (simp add: same_peer_def)
  show "bs_input_ended (tx_stream tx') = bs_input_ended (tx_stream tx)" using s(5) tx2(2) bs(3) by simp
qed

lemma tx_fill_loop_good:
  assumes "tx_good w L j tx" "length w < 2 ^ 62" "L \<noteq> []" "\<not> tx_fin_sent tx"
    and "lsum L + avail \<le> tx_confirmed_seqno tx + 65535"
    and "\<not> th_syn (ts_header seg)" "\<not> th_fin (ts_header seg)"
  shows "\<exists>tx' M. tx_fill_loop tx seg avail = Some tx' \<and> tx_good w (L @ M) j tx' \<and>
    tx_segments_out tx' = tx_segments_out tx @ M \<and> same_peer tx tx' \<and> lsum M \<le> avail \<and>
    (bs_stream (tx_stream tx') = [] \<or> lsum M = avail) \<and>
    (bs_stream (tx_stream tx) \<noteq> [] \<longrightarrow> bs_eof (tx_stream tx') \<longrightarrow> lsum M < avail \<longrightarrow> tx_fin_sent tx')"
  using assms
proof (induction "length (bs_stream (tx_stream tx))" arbitrary: tx seg avail L rule: less_induct)
  case less
  show ?case
  proof (cases "bs_stream (tx_stream tx) \<noteq> [] \<and> avail \<noteq> 0")
    case False
    then have "tx_fill_loop tx seg avail = Some tx"
      by (subst tx_fill_loop.simps) (auto simp: bs_buffer_empty_def)
    then show ?thesis
      using less.prems(1) False by (intro exI[of _ tx] exI[of _ "[]"]) (auto simp: same_peer_def)
  next
    case True
    obtain tx1 seg1 avail1 where r: "tx_fill_round tx seg avail = (tx1, seg1, avail1)"
      by (metis prod_cases3)
    have T: "bs_stream (tx_stream tx) \<noteq> []" "0 < avail" using True by auto
    note g = tx_fill_round_good[OF less.prems(1-4) T less.prems(5-7) r]
    have eq: "tx_fill_loop tx seg avail = tx_fill_loop tx1 seg1 avail1"
      using T r by (subst tx_fill_loop.simps) (simp add: bs_buffer_empty_def)
    show ?thesis
    proof (cases "tx_fin_sent tx1")
      case True
      then have "bs_stream (tx_stream tx1) = []" using g(6) by simp
      then have "tx_fill_loop tx1 seg1 avail1 = Some tx1"
        by (subst tx_fill_loop.simps) (simp add: bs_buffer_empty_def)
      then show ?thesis
        using eq g True \<open>bs_stream (tx_stream tx1) = []\<close> by (intro exI[of _ tx1] exI[of _ "[seg1]"]) auto
    next
      case False
      have c1: "tx_confirmed_seqno tx1 = tx_confirmed_seqno tx" using g(8) by (simp add: same_peer_def)
      have p: "lsum (L @ [seg1]) + avail1 \<le> tx_confirmed_seqno tx1 + 65535"
        using g(2) less.prems(5) c1 by simp
      obtain tx' M where M: "tx_fill_loop tx1 seg1 avail1 = Some tx'" "tx_good w ((L @ [seg1]) @ M) j tx'"
        "tx_segments_out tx' = tx_segments_out tx1 @ M" "same_peer tx1 tx'" "lsum M \<le> avail1"
        "bs_stream (tx_stream tx') = [] \<or> lsum M = avail1"
        "bs_stream (tx_stream tx1) \<noteq> [] \<longrightarrow> bs_eof (tx_stream tx') \<longrightarrow> lsum M < avail1 \<longrightarrow> tx_fin_sent tx'"
        using less.hyps[OF g(5) g(1) less.prems(2) _ False p g(3)] g(4) False by auto
      have "tx_fin_sent tx'" if "bs_eof (tx_stream tx')" "lsum (seg1 # M) < avail"
      proof (cases "bs_stream (tx_stream tx1) = []")
        case True
        then have "tx' = tx1"
          using M(1) by (subst (asm) tx_fill_loop.simps) (simp add: bs_buffer_empty_def)
        have "M = []" using M(3) \<open>tx' = tx1\<close> by simp
        then show ?thesis using g(10) that \<open>tx' = tx1\<close> by simp
      next
        case False
        then show ?thesis using M(7) that g(2) by simp
      qed
      then show ?thesis
        using eq M g(2,7,8) by (intro exI[of _ tx'] exI[of _ "seg1 # M"]) (auto simp: same_peer_def)
    qed
  qed
qed

subsection \<open>Filling the window\<close>

lemma tx_queue_started: "tx_queue L j tx \<Longrightarrow> tx_next_seqno tx = 0 \<longleftrightarrow> L = []"
  by (cases L) (auto simp: tx_queue_def)

lemma tx_send_syn:
  assumes good: "tx_good w [] j tx" and "length w < 2 ^ 62"
    and eq: "tx_send_tcp_segment tx (ts_new\<lparr>ts_header := th_new\<lparr>th_syn := True\<rparr>\<rparr>) = (seg, tx')"
  shows "tx_good w [seg] j tx'" "lsum [seg] = 1" "tx_segments_out tx' = tx_segments_out tx @ [seg]"
    "same_peer tx tx'"
proof -
  let ?syn = "ts_new\<lparr>ts_header := th_new\<lparr>th_syn := True\<rparr>\<rparr>"
  have l: "lsp ?syn = 1" by (simp add: lsp_eq ts_new_def th_new_def)
  have q: "tx_queue [] j tx" "tx_settled [] j tx" "tx_contents w [] tx" using good by (auto simp: tx_good_def)
  have b: "0 < lsp ?syn" "lsp ?syn \<le> 1001" "lsum [] + lsp ?syn \<le> tx_confirmed_seqno tx + 65535" "lsum [] < 2 ^ 62 + 2"
    using l by auto
  note s = tx_send_queue[OF q(1,2) b eq]
  have seg: "th_syn (ts_header seg)" "pay seg = []" "\<not> th_fin (ts_header seg)" "lsp seg = 1"
    unfolding s(3) by (auto simp: lsp_eq ts_new_def th_new_def)
  have "tx_contents w [seg] tx'"
    using q(3) seg s(5,6) by (simp add: tx_contents_def)
  then show "tx_good w [seg] j tx'" using good s(1,2,4) by (auto simp: tx_good_def)
  show "lsum [seg] = 1" using seg(4) by simp
  show "tx_segments_out tx' = tx_segments_out tx @ [seg]" by (rule s(4))
  show "same_peer tx tx'" using s(7-9) by (simp add: same_peer_def)
qed

lemma tx_send_fin:
  assumes good: "tx_good w L j tx" and w: "length w < 2 ^ 62" and L: "L \<noteq> []" "\<not> tx_fin_sent tx"
    and eof: "bs_eof (tx_stream tx)" and room: "lsum L < tx_confirmed_seqno tx + 65535"
    and eq: "tx_send_tcp_segment tx (ts_new\<lparr>ts_header := th_new\<lparr>th_fin := True\<rparr>\<rparr>) = (seg, tx')"
  shows "tx_good w (L @ [seg]) j (tx'\<lparr>tx_fin_sent := True\<rparr>)" "lsp seg = 1"
    "tx_segments_out tx' = tx_segments_out tx @ [seg]" "same_peer tx (tx'\<lparr>tx_fin_sent := True\<rparr>)"
proof -
  let ?fin = "ts_new\<lparr>ts_header := th_new\<lparr>th_fin := True\<rparr>\<rparr>"
  have l: "lsp ?fin = 1" by (simp add: lsp_eq ts_new_def th_new_def)
  have q: "tx_queue L j tx" "tx_settled L j tx" "tx_contents w L tx" using good by (auto simp: tx_good_def)
  have b: "0 < lsp ?fin" "lsp ?fin \<le> 1001" "lsum L + lsp ?fin \<le> tx_confirmed_seqno tx + 65535"
    using l room by auto
  note s = tx_send_queue[OF q(1,2) b tx_contents_bound[OF q(3) w] eq]
  have seg: "\<not> th_syn (ts_header seg)" "pay seg = []" "th_fin (ts_header seg)" "lsp seg = 1"
    unfolding s(3) by (auto simp: lsp_eq ts_new_def th_new_def)
  have "tx_contents w (L @ [seg]) (tx'\<lparr>tx_fin_sent := True\<rparr>)"
    using q(3) L seg s(5) eof
    by (intro tx_contents_append[OF q(3)]) (auto simp: tx_contents_def bs_eof_def bs_buffer_empty_def)
  then show "tx_good w (L @ [seg]) j (tx'\<lparr>tx_fin_sent := True\<rparr>)"
    using good s(1,2,4) by (auto simp: tx_good_def tx_queue_def tx_settled_def)
  show "lsp seg = 1" by (rule seg(4))
  show "tx_segments_out tx' = tx_segments_out tx @ [seg]" by (rule s(4))
  show "same_peer tx (tx'\<lparr>tx_fin_sent := True\<rparr>)" using s(7-9) by (simp add: same_peer_def)
qed

lemma tx_logical_window_nat: "unat (tx_logical_window tx) = max 1 (unat (tx_receiver_window tx))"
  "unat (tx_logical_window tx) \<le> 65535"
proof -
  have "unat (tx_receiver_window tx) < 65536" using unsigned_less[of "tx_receiver_window tx"] by simp
  then show "unat (tx_logical_window tx) = max 1 (unat (tx_receiver_window tx))"
    "unat (tx_logical_window tx) \<le> 65535"
    by (auto simp: tx_logical_window_def max_def unat_eq_0 Suc_le_eq unat_gt_0)
qed

text \<open>Why a filled sender stops: it has sent the end, the window is full, or there is nothing to send.\<close>

definition tx_filled :: "TCPSender \<Rightarrow> bool" where
  "tx_filled tx \<longleftrightarrow> tx_fin_sent tx \<or>
     tx_confirmed_seqno tx + max 1 (unat (tx_receiver_window tx)) \<le> tx_next_seqno tx \<or>
     bs_buffer_empty (tx_stream tx) \<and> \<not> bs_input_ended (tx_stream tx)"

lemma tx_fill_window_good:
  assumes good: "tx_good w L j tx" and w: "length w < 2 ^ 62"
  shows "\<exists>tx' M. tx_fill_window tx = Some tx' \<and> tx_good w (L @ M) j tx' \<and>
    tx_segments_out tx' = tx_segments_out tx @ M \<and> same_peer tx tx' \<and>
    lsum (L @ M) \<le> max (lsum L) (tx_confirmed_seqno tx + max 1 (unat (tx_receiver_window tx))) \<and>
    (L \<noteq> [] \<longrightarrow> tx_filled tx') \<and> (L = [] \<longrightarrow> length M = 1)"
proof -
  have q: "tx_queue L j tx" "tx_settled L j tx" "tx_contents w L tx" using good by (auto simp: tx_good_def)
  have nx: "tx_next_seqno tx = lsum L" and le: "tx_confirmed_seqno tx \<le> lsum L"
    using q(1) by (auto simp: tx_queue_def)
  note lw = tx_logical_window_nat[of tx]
  let ?W = "max 1 (unat (tx_receiver_window tx))"
  have Wle: "?W \<le> 65535" using lw by simp
  have small: "tx_confirmed_seqno tx + ?W < two64" "lsum L < two64"
    using le Wle tx_contents_bound[OF q(3) w] by (simp_all add: two64_def)
  have stay: ?thesis if "tx_fill_window tx = Some tx" "tx_filled tx" "L \<noteq> []"
    using that good by (intro exI[of _ tx] exI[of _ "[]"]) (auto simp: same_peer_def)
  consider (syn) "\<not> tx_fin_sent tx" "L = []" | (fin) "tx_fin_sent tx"
    | (full) "\<not> tx_fin_sent tx" "L \<noteq> []" "tx_confirmed_seqno tx + ?W \<le> lsum L"
    | (eof) "\<not> tx_fin_sent tx" "L \<noteq> []" "lsum L < tx_confirmed_seqno tx + ?W" "bs_eof (tx_stream tx)"
    | (data) "\<not> tx_fin_sent tx" "L \<noteq> []" "lsum L < tx_confirmed_seqno tx + ?W" "\<not> bs_eof (tx_stream tx)"
    by linarith
  then show ?thesis
  proof cases
    case syn
    obtain seg tx' where s: "tx_send_tcp_segment tx (ts_new\<lparr>ts_header := th_new\<lparr>th_syn := True\<rparr>\<rparr>) = (seg, tx')"
      by (metis prod.exhaust)
    have "tx_fill_window tx = Some tx'" using syn s nx by (simp add: tx_fill_window_def)
    then show ?thesis
      using tx_send_syn[OF good[unfolded syn(2)] w s] syn(2) by (intro exI[of _ tx'] exI[of _ "[seg]"]) auto
  next
    case fin
    then have "L \<noteq> []" using q(3) by (auto simp: tx_contents_def)
    with fin stay show ?thesis by (simp add: tx_fill_window_def tx_filled_def)
  next
    case full
    then have "tx_fill_window tx = Some tx"
      using nx lw(1) small tx_queue_started[OF q(1)] by (simp add: tx_fill_window_def Let_def u64_add_exact)
    with full stay nx show ?thesis by (simp add: tx_filled_def)
  next
    case eof
    obtain seg tx' where s: "tx_send_tcp_segment tx (ts_new\<lparr>ts_header := th_new\<lparr>th_fin := True\<rparr>\<rparr>) = (seg, tx')"
      by (metis prod.exhaust)
    have room: "lsum L < tx_confirmed_seqno tx + 65535" using eof(3) Wle by linarith
    have "tx_fill_window tx = Some (tx'\<lparr>tx_fin_sent := True\<rparr>)"
      using eof s nx lw(1) small tx_queue_started[OF q(1)] by (simp add: tx_fill_window_def Let_def u64_add_exact)
    then show ?thesis
      using tx_send_fin[OF good w eof(2,1,4) room s] eof(2,3)
      by (intro exI[of _ "tx'\<lparr>tx_fin_sent := True\<rparr>"] exI[of _ "[seg]"]) (auto simp: tx_filled_def)
  next
    case data
    let ?a = "?W - (lsum L - tx_confirmed_seqno tx)"
    have a: "lsum L + ?a = tx_confirmed_seqno tx + ?W" using data(3) le by simp
    have "u64_sub (lsum L) (tx_confirmed_seqno tx) = lsum L - tx_confirmed_seqno tx"
      using le small by (intro u64_sub_exact) auto
    moreover have "u64_sub ?W (lsum L - tx_confirmed_seqno tx) = ?a"
      using data(3) le small by (intro u64_sub_exact) auto
    ultimately have eq: "tx_fill_window tx = tx_fill_loop tx ts_new ?a"
      using data nx lw(1) small tx_queue_started[OF q(1)] by (simp add: tx_fill_window_def Let_def u64_add_exact)
    have hdr: "\<not> th_syn (ts_header ts_new)" "\<not> th_fin (ts_header ts_new)" by (simp_all add: ts_new_def th_new_def)
    have lim: "lsum L + ?a \<le> tx_confirmed_seqno tx + 65535" using a Wle by simp
    obtain tx' M where M: "tx_fill_loop tx ts_new ?a = Some tx'" "tx_good w (L @ M) j tx'"
      "tx_segments_out tx' = tx_segments_out tx @ M" "same_peer tx tx'" "lsum M \<le> ?a"
      "bs_stream (tx_stream tx') = [] \<or> lsum M = ?a"
      "bs_stream (tx_stream tx) \<noteq> [] \<longrightarrow> bs_eof (tx_stream tx') \<longrightarrow> lsum M < ?a \<longrightarrow> tx_fin_sent tx'"
      using tx_fill_loop_good[OF good w data(2,1) lim hdr] by blast
    have nx': "tx_next_seqno tx' = lsum L + lsum M" using M(2) by (simp add: tx_good_def tx_queue_def)
    have "tx_filled tx'"
    proof (cases "bs_stream (tx_stream tx) = []")
      case True
      then have "tx' = tx" using M(1) by (subst (asm) tx_fill_loop.simps) (simp add: bs_buffer_empty_def)
      then show ?thesis using True data(4) by (auto simp: tx_filled_def bs_eof_def bs_buffer_empty_def)
    next
      case False
      then show ?thesis
        using M(4-7) nx' a by (auto simp: tx_filled_def bs_eof_def bs_buffer_empty_def same_peer_def)
    qed
    with M eq a data(2,3) show ?thesis by (intro exI[of _ tx'] exI[of _ M]) auto
  qed
qed

subsection \<open>Acknowledgments\<close>

lemma tx_front:
  assumes "tx_queue L j tx" "j < length L" "lsum (drop j L) < 2 ^ 31" "lsum L < 2 ^ 62 + 2"
  shows "tx_front_ackno tx = lsum (take (Suc j) L)" "tx_front_size tx = lsp (L ! j)"
    "tx_outstanding tx = L ! j # drop (Suc j) L"
proof -
  show out: "tx_outstanding tx = L ! j # drop (Suc j) L"
    using assms(1,2) by (simp add: tx_queue_def Cons_nth_drop_Suc)
  have sum: "lsum (take j L) + lsum (drop j L) = lsum L" by (rule lsum_take_drop)
  have seq: "th_seqno (ts_header (L ! j)) = wrap (lsum (take j L)) (tx_isn tx)" "tx_next_seqno tx = lsum L"
    using assms(1,2) by (auto simp: tx_queue_def numbered_def)
  have "unwrap (wrap (lsum (take j L)) (tx_isn tx)) (tx_isn tx) (lsum L) = lsum (take j L)"
    using sum assms(3,4) by (intro seqs.recover_behind) auto
  moreover have "lsum (take (Suc j) L) \<le> lsum L" by (rule lsum_take_le)
  then have "u64_add (lsum (take j L)) (lsp (L ! j)) = lsum (take (Suc j) L)"
    using assms(2,4) by (simp add: lsum_take_Suc u64_add_exact two64_def)
  ultimately show "tx_front_ackno tx = lsum (take (Suc j) L)"
    by (simp add: tx_front_ackno_def out seq)
  show "tx_front_size tx = lsp (L ! j)" by (simp add: tx_front_size_def out)
qed

text \<open>What the loop may change.\<close>

definition same_stream :: "TCPSender \<Rightarrow> TCPSender \<Rightarrow> bool" where
  "same_stream tx tx' \<longleftrightarrow> tx_stream tx' = tx_stream tx \<and> tx_fin_sent tx' = tx_fin_sent tx \<and>
     tx_segments_out tx' = tx_segments_out tx \<and> tx_timing_begins tx' = tx_timing_begins tx \<and>
     tx_initial_rto tx' = tx_initial_rto tx \<and> same_peer tx tx'"

lemma tx_ack_loop_queue:
  assumes "tx_queue L j tx" "lsum (drop j L) < 2 ^ 31" "lsum L < 2 ^ 62 + 2"
    and "tx_ack_loop (tx_confirmed_seqno tx) ack tx = (ret, ack', tx')"
  shows "\<exists>j'. j \<le> j' \<and> tx_queue L j' tx' \<and> same_stream tx tx' \<and> (ret \<longleftrightarrow> j' < length L) \<and>
    (ret \<longrightarrow> tx_confirmed_seqno tx < lsum (take (Suc j') L)) \<and> (ack' \<longleftrightarrow> ack \<or> j < j') \<and>
    (j < j' \<and> \<not> ack \<longrightarrow> tx_applying_rto tx' = tx_initial_rto tx \<and> tx_consecutive tx' = 0 \<and> tx_last_tick_time tx' = 0) \<and>
    (j = j' \<or> ack \<longrightarrow> tx_applying_rto tx' = tx_applying_rto tx \<and> tx_consecutive tx' = tx_consecutive tx \<and>
       tx_last_tick_time tx' = tx_last_tick_time tx)"
  using assms
proof (induction "length L - j" arbitrary: j tx ack)
  case 0
  then have "tx_outstanding tx = []" "j = length L" by (auto simp: tx_queue_def)
  then show ?case
    using 0 by (intro exI[of _ j]) (auto simp: tx_ack_loop.simps same_stream_def same_peer_def)
next
  case (Suc n)
  have j: "j < length L" using Suc.hyps(2) by simp
  note f = tx_front[OF Suc.prems(1) j Suc.prems(2,3)]
  show ?case
  proof (cases "tx_confirmed_seqno tx < lsum (take (Suc j) L)")
    case True
    then show ?thesis
      using Suc.prems(1,4) f j
      by (intro exI[of _ j]) (auto simp: tx_ack_loop.simps[of _ _ tx] same_stream_def same_peer_def)
  next
    case False
    define tx1 where "tx1 = (if \<not> ack then tx\<lparr>tx_applying_rto := tx_initial_rto tx, tx_consecutive := 0,
        tx_last_tick_time := 0\<rparr> else tx)"
    define tx2 where "tx2 = tx1\<lparr>tx_bytes_in_flight := u64_sub (tx_bytes_in_flight tx1) (tx_front_size tx1),
        tx_outstanding := tl (tx_outstanding tx1)\<rparr>"
    have size: "tx_front_size tx1 = lsp (L ! j)"
      using f(2) by (simp add: tx1_def tx_front_size_def)
    have d: "lsum (drop j L) = lsp (L ! j) + lsum (drop (Suc j) L)"
      using j by (metis Cons_nth_drop_Suc lsum_simps(2))
    have "tx_bytes_in_flight tx1 = lsum (drop j L)" using Suc.prems(1) by (simp add: tx1_def tx_queue_def)
    then have bif: "u64_sub (tx_bytes_in_flight tx1) (tx_front_size tx1) = lsum (drop (Suc j) L)"
      using d size Suc.prems(2) by (simp add: u64_sub_exact two64_def)
    have same: "same_stream tx tx2" "tx_confirmed_seqno tx2 = tx_confirmed_seqno tx"
      by (simp_all add: same_stream_def same_peer_def tx1_def tx2_def)
    have "tx_queue L (Suc j) tx2"
      using Suc.prems(1) False j bif by (auto simp: tx_queue_def tx2_def tx1_def drop_Suc tl_drop)
    moreover have "lsum (drop (Suc j) L) < 2 ^ 31" using d Suc.prems(2) by simp
    moreover have "tx_ack_loop (tx_confirmed_seqno tx2) True tx2 = (ret, ack', tx')"
      using Suc.prems(4) False f(1,3)
      by (simp add: tx_ack_loop.simps[of _ ack tx] Let_def same(2) flip: tx1_def)
        (simp flip: tx2_def)
    ultimately obtain j' where j': "Suc j \<le> j'" "tx_queue L j' tx'" "same_stream tx2 tx'" "ret \<longleftrightarrow> j' < length L"
      "ret \<longrightarrow> tx_confirmed_seqno tx < lsum (take (Suc j') L)" "ack'"
      "tx_applying_rto tx' = tx_applying_rto tx2" "tx_consecutive tx' = tx_consecutive tx2"
      "tx_last_tick_time tx' = tx_last_tick_time tx2"
    proof -
      have n: "n = length L - Suc j" using Suc.hyps(2) by simp
      from Suc.hyps(1)[OF n, of tx2 True] \<open>tx_queue L (Suc j) tx2\<close> \<open>lsum (drop (Suc j) L) < 2 ^ 31\<close>
        \<open>tx_ack_loop (tx_confirmed_seqno tx2) True tx2 = (ret, ack', tx')\<close> Suc.prems(3) same(2)
      show thesis using that by auto
    qed
    then show ?thesis
      using same(1) by (intro exI[of _ j']) (auto simp: same_stream_def same_peer_def tx2_def tx1_def)
  qed
qed

lemma tx_good_flight:
  assumes "tx_good w L j tx"
  shows "lsum (drop j L) \<le> 65535 + 1001"
proof (cases "j < length L")
  case True
  have q: "tx_queue L j tx" "tx_settled L j tx" using assms by (auto simp: tx_good_def)
  have "lsp (L ! j) \<le> 1001" using q(1) True by (auto simp: tx_queue_def)
  moreover have "tx_confirmed_seqno tx < lsum (take j L) + lsp (L ! j)"
    using q(2) True by (simp add: tx_settled_def lsum_take_Suc)
  ultimately show ?thesis using q(1) lsum_take_drop[of j L] by (simp add: tx_queue_def)
qed simp

lemma tx_ack_received_good:
  assumes good: "tx_good w L j tx" and w: "length w < 2 ^ 62"
  shows "\<exists>tx' M j'. tx_ack_received tx ackno win = Some tx' \<and> tx_good w (L @ M) j' tx' \<and> j \<le> j' \<and>
    tx_segments_out tx' = tx_segments_out tx @ M \<and> tx_isn tx' = tx_isn tx \<and>
    (tx' = tx \<or> tx_confirmed_seqno tx' = unwrap ackno (tx_isn tx) (tx_next_seqno tx) \<and> tx_receiver_window tx' = win \<and>
       lsum (L @ M) \<le> max (lsum L) (tx_confirmed_seqno tx' + max 1 (unat win)))"
proof -
  define a where "a = unwrap ackno (tx_isn tx) (tx_next_seqno tx)"
  have q: "tx_queue L j tx" "tx_settled L j tx" "tx_contents w L tx" using good by (auto simp: tx_good_def)
  show ?thesis
  proof (cases "tx_confirmed_seqno tx > a \<or> a > tx_next_seqno tx")
    case True
    then have "tx_ack_received tx ackno win = Some tx" by (simp add: tx_ack_received_def a_def Let_def)
    then show ?thesis using good by (intro exI[of _ tx] exI[of _ "[]"] exI[of _ j]) auto
  next
    case False
    define tx1 where "tx1 = tx\<lparr>tx_confirmed_seqno := a, tx_receiver_window := win\<rparr>"
    have q1: "tx_queue L j tx1" using q(1) False by (auto simp: tx_queue_def tx1_def)
    obtain ret ack tx2 where l: "tx_ack_loop (tx_confirmed_seqno tx1) False tx1 = (ret, ack, tx2)"
      by (metis prod_cases3)
    have "lsum (drop j L) < 2 ^ 31" using tx_good_flight[OF good] by simp
    then obtain j' where j': "j \<le> j'" "tx_queue L j' tx2" "same_stream tx1 tx2" "ret \<longleftrightarrow> j' < length L"
      "ret \<longrightarrow> tx_confirmed_seqno tx1 < lsum (take (Suc j') L)"
      using tx_ack_loop_queue[OF q1 _ tx_contents_bound[OF q(3) w] l] by blast
    have f2: "tx_segments_out tx2 = tx_segments_out tx" "tx_stream tx2 = tx_stream tx"
      "tx_fin_sent tx2 = tx_fin_sent tx" "tx_timing_begins tx2 = tx_timing_begins tx" "tx_isn tx2 = tx_isn tx"
      "tx_confirmed_seqno tx2 = a" "tx_receiver_window tx2 = win"
      using j'(3) by (auto simp: same_stream_def same_peer_def tx1_def)
    have eq: "tx_ack_received tx ackno win =
      (if ret then Some tx2 else map_option (\<lambda>tx3. tx3\<lparr>tx_timing_begins := (tx_outstanding tx3 \<noteq> [])\<rparr>)
         (if ack then tx_fill_window tx2 else Some tx2))"
      using False l by (simp add: tx_ack_received_def a_def[symmetric] tx1_def Let_def)
    have timing: "j' < length L \<longrightarrow> tx_timing_begins tx" using q(2) j'(1) by (auto simp: tx_settled_def)
    have "tx_settled L j' tx2"
      using j'(4,5) timing f2 by (auto simp: tx_settled_def tx1_def)
    moreover have "tx_contents w L tx2" using q(3) f2 by (simp add: tx_contents_def)
    ultimately have g2: "tx_good w L j' tx2" using good j'(2) f2 by (auto simp: tx_good_def)
    have restamp: "tx_good w K i (t\<lparr>tx_timing_begins := (tx_outstanding t \<noteq> [])\<rparr>)" if "tx_good w K i t" for K i t
      using that by (auto simp: tx_good_def tx_queue_def tx_settled_def tx_contents_def)
    show ?thesis
    proof (cases "\<not> ret \<and> ack")
      case True
      obtain tx3 M where M: "tx_fill_window tx2 = Some tx3" "tx_good w (L @ M) j' tx3"
        "tx_segments_out tx3 = tx_segments_out tx2 @ M" "same_peer tx2 tx3"
        "lsum (L @ M) \<le> max (lsum L) (tx_confirmed_seqno tx2 + max 1 (unat (tx_receiver_window tx2)))"
        using tx_fill_window_good[OF g2 w] by blast
      then show ?thesis
        using True eq j'(1) restamp[OF M(2)] f2
        by (intro exI[of _ "tx3\<lparr>tx_timing_begins := (tx_outstanding tx3 \<noteq> [])\<rparr>"] exI[of _ M] exI[of _ j'])
          (auto simp: same_peer_def a_def[symmetric])
    next
      case False
      show ?thesis
      proof (cases ret)
        case True
        then show ?thesis using eq g2 j'(1) f2
            by (intro exI[of _ tx2] exI[of _ "[]"] exI[of _ j']) (auto simp: a_def[symmetric])
      next
        case noret: False
        then show ?thesis
          using False eq restamp[OF g2] j'(1) f2
          by (intro exI[of _ "tx2\<lparr>tx_timing_begins := (tx_outstanding tx2 \<noteq> [])\<rparr>"] exI[of _ "[]"] exI[of _ j'])
            (auto simp: a_def[symmetric])
      qed
    qed
  qed
qed

subsection \<open>The other operations\<close>

lemma tx_tick_good:
  assumes "tx_good w L j tx"
  shows "tx_good w L j (tx_tick tx ms)"
proof -
  have out: "tx_outstanding tx = drop j L" using assms by (simp add: tx_good_def tx_queue_def)
  have mem: "x \<in> set L" if "drop j L = x # xs" for x xs
    using that by (metis in_set_dropD list.set_intros(1))
  show ?thesis
    using assms mem by (auto simp: tx_tick_def Let_def out tx_good_def tx_queue_def tx_settled_def tx_contents_def
        split: list.splits)
qed

lemma tx_empty_good:
  assumes "tx_good w L j tx"
  shows "tx_good w L j (tx_send_empty_segment tx)"
  using assms by (auto simp: tx_send_empty_segment_def tx_good_def tx_queue_def tx_settled_def
      tx_contents_def empty_segment_def ts_new_def th_new_def)

lemma tx_write_good:
  assumes "tx_good w L j tx" "bs_write (tx_stream tx) d = (n, s')"
  shows "tx_good (w @ take n d) L j (tx\<lparr>tx_stream := s'\<rparr>)" "n \<le> length d"
proof -
  have inv: "bs_inv (tx_stream tx)" using assms(1) by (simp add: tx_good_def tx_contents_def)
  have s': "bs_inv s'" "bs_stream s' = bs_stream (tx_stream tx) @ take n d" "n \<le> length d"
    "bs_input_ended s' = bs_input_ended (tx_stream tx)"
    using assms(2) bs_inv_write[OF inv, of d] bs_write_eq[OF inv, of d] by auto
  then show "tx_good (w @ take n d) L j (tx\<lparr>tx_stream := s'\<rparr>)" "n \<le> length d"
    using assms(1) by (auto simp: tx_good_def tx_queue_def tx_settled_def tx_contents_def)
qed

lemma tx_end_good: "tx_good w L j tx \<Longrightarrow> tx_good w L j (tx\<lparr>tx_stream := bs_end_input (tx_stream tx)\<rparr>)"
  by (auto simp: tx_good_def tx_queue_def tx_settled_def tx_contents_def bs_end_input_def bs_inv_def)

lemma tx_take_good:
  assumes "tx_good w L j tx" "tx_read_a_segment tx = Some (seg, tx')"
  shows "tx_good w L j tx' \<and> (seg \<in> set L \<or> empty_segment seg)"
proof -
  obtain rest where out: "tx_segments_out tx = seg # rest" and tx': "tx' = tx\<lparr>tx_segments_out := rest\<rparr>"
    using assms(2) by (auto simp: tx_read_a_segment_def split: list.splits)
  have "tx_queue L j tx'" "tx_settled L j tx'" "tx_contents w L tx'"
    using assms(1) by (simp_all add: tx_good_def tx' tx_queue_def tx_settled_def tx_contents_def)
  then show ?thesis using assms(1) out by (simp add: tx_good_def tx')
qed

end
