(* ===== verification/TCP_Receiver.thy ===== *)
theory TCP_Receiver
  imports Reassembler_Progress TCP_Segment
begin

text \<open>
  The receiver (\<open>libsponge/tcp_receiver.hh\<close> and \<open>tcp_receiver.cc\<close>): it finds the place of
  a segment in the stream from its sequence number, hands its payload to the reassembler and
  computes the acknowledgment number. The main theorem follows a whole conversation with a
  peer that keeps to one segmentation of its stream: every segment is handled, and the
  acknowledgment number is that of the first byte that is still missing.
\<close>

subsection \<open>State and operations\<close>

record TCPReceiver =
  tr_reassembler :: StreamReassembler
  tr_capacity :: u64
  tr_abs_seqno :: u64
  tr_ISN :: WrappingInt32
  tr_first_segment :: bool

definition tr_new :: "u64 \<Rightarrow> TCPReceiver" where
  "tr_new capacity = \<lparr>tr_reassembler = sr_new capacity, tr_capacity = capacity, tr_abs_seqno = 0,
     tr_ISN = WrappingInt32 0, tr_first_segment = True\<rparr>"

definition tr_stream_out :: "TCPReceiver \<Rightarrow> ByteStream" where
  "tr_stream_out rx = sr_output (tr_reassembler rx)"

text \<open>\<open>None\<close> when the reassembler does not return.\<close>

definition tr_segment_received :: "TCPReceiver \<Rightarrow> TCPSegment \<Rightarrow> TCPReceiver option" where
  "tr_segment_received rx seg =
     (let data = buf_copy (ts_payload seg);
          header = ts_header seg;
          seg_seqno = th_seqno header
      in
      if tr_first_segment rx \<and> \<not> th_syn header then Some rx
      else
        let rx1 = (if tr_first_segment rx \<and> th_syn header
                   then rx\<lparr>tr_first_segment := False, tr_ISN := seg_seqno\<rparr> else rx);
            temp_abs_seqno = unwrap seg_seqno (tr_ISN rx1) (tr_abs_seqno rx1)
        in
        if tr_abs_seqno rx1 = 1 \<and> temp_abs_seqno < tr_abs_seqno rx1 then Some rx1
        else
          let index = (if temp_abs_seqno > 0 then temp_abs_seqno - 1 else temp_abs_seqno)
          in
          case push_substring (tr_reassembler rx1) data index (th_fin header) of
            None \<Rightarrow> None
          | Some r' \<Rightarrow>
              let rx2 = rx1\<lparr>tr_reassembler := r'\<rparr> in
              if temp_abs_seqno \<noteq> tr_abs_seqno rx2 then Some rx2
              else
                let rx3 =
                      (if length data \<noteq> 0
                       then rx2\<lparr>tr_abs_seqno := u64_add (bs_bytes_written (tr_stream_out rx2)) 1\<rparr>
                       else if temp_abs_seqno = 0
                       then rx2\<lparr>tr_abs_seqno := u64_add (tr_abs_seqno rx2) 1\<rparr> else rx2)
                in Some (if th_fin header \<or> bs_input_ended (tr_stream_out rx3)
                         then rx3\<lparr>tr_abs_seqno := u64_add (tr_abs_seqno rx3) 1\<rparr> else rx3))"

definition tr_ackno :: "TCPReceiver \<Rightarrow> WrappingInt32 option" where
  "tr_ackno rx = (if tr_first_segment rx then None else Some (wrap (tr_abs_seqno rx) (tr_ISN rx)))"

definition tr_window_size :: "TCPReceiver \<Rightarrow> u64" where
  "tr_window_size rx = u64_sub (tr_capacity rx) (bs_buffer_size (tr_stream_out rx))"

definition tr_unassembled_bytes :: "TCPReceiver \<Rightarrow> u64" where
  "tr_unassembled_bytes rx = sr_unassembled (tr_reassembler rx)"

subsection \<open>Conversations\<close>

text \<open>Segments of a peer with initial sequence number \<open>isn\<close> whose stream is cut into \<open>segs\<close>:
  the opening one, a piece of the stream (the last one with the end mark), and an empty one
  at the expected place, as sent to acknowledge.\<close>

definition peer_syn :: "WrappingInt32 \<Rightarrow> TCPSegment \<Rightarrow> bool" where
  "peer_syn isn seg \<longleftrightarrow> th_seqno (ts_header seg) = isn \<and> th_syn (ts_header seg) \<and>
     \<not> th_fin (ts_header seg) \<and> buf_str (ts_payload seg) = []"

definition peer_data :: "bytes list \<Rightarrow> WrappingInt32 \<Rightarrow> nat \<Rightarrow> TCPSegment \<Rightarrow> bool" where
  "peer_data segs isn k seg \<longleftrightarrow> k < length segs \<and>
     th_seqno (ts_header seg) = wrap (1 + seg_off segs k) isn \<and> \<not> th_syn (ts_header seg) \<and>
     th_fin (ts_header seg) = (Suc k = length segs) \<and> buf_str (ts_payload seg) = segs ! k"

definition peer_ack :: "WrappingInt32 \<Rightarrow> TCPReceiver \<Rightarrow> TCPSegment \<Rightarrow> bool" where
  "peer_ack isn rx seg \<longleftrightarrow> th_seqno (ts_header seg) = wrap (tr_abs_seqno rx) isn \<and>
     \<not> th_syn (ts_header seg) \<and> \<not> th_fin (ts_header seg) \<and> buf_str (ts_payload seg) = []"

datatype rx_event = RxSyn TCPSegment | RxData nat TCPSegment | RxAck TCPSegment | RxRead nat

fun rx_step :: "TCPReceiver \<Rightarrow> rx_event \<Rightarrow> TCPReceiver option" where
  "rx_step rx (RxSyn seg) = tr_segment_received rx seg"
| "rx_step rx (RxData k seg) = tr_segment_received rx seg"
| "rx_step rx (RxAck seg) = tr_segment_received rx seg"
| "rx_step rx (RxRead n) = Some (rx\<lparr>tr_reassembler :=
     (tr_reassembler rx)\<lparr>sr_output := bs_pop_output (tr_stream_out rx) n\<rparr>\<rparr>)"

fun rx_run :: "TCPReceiver \<Rightarrow> rx_event list \<Rightarrow> TCPReceiver option" where
  "rx_run rx [] = Some rx"
| "rx_run rx (ev # evs) = (case rx_step rx ev of None \<Rightarrow> None | Some rx' \<Rightarrow> rx_run rx' evs)"

text \<open>What the peer may send in a state: the opening segment again, a piece that ends with its
  end mark inside the window, an acknowledgment before the end of the stream; all less than
  \<open>2 ^ 31\<close> behind the expected number.\<close>

definition rx_allowed_data :: "bytes list \<Rightarrow> WrappingInt32 \<Rightarrow> TCPReceiver \<Rightarrow> nat \<Rightarrow> TCPSegment \<Rightarrow> bool" where
  "rx_allowed_data segs isn rx k seg \<longleftrightarrow> peer_data segs isn k seg \<and>
     seg_off segs k + length (segs ! k) + (if Suc k = length segs then 1 else 0)
       \<le> sr_window_end (tr_reassembler rx) \<and>
     tr_abs_seqno rx < 1 + seg_off segs k + 2 ^ 31"

fun rx_allowed :: "bytes list \<Rightarrow> WrappingInt32 \<Rightarrow> TCPReceiver \<Rightarrow> rx_event \<Rightarrow> bool" where
  "rx_allowed segs isn rx (RxSyn seg) \<longleftrightarrow> peer_syn isn seg \<and> tr_abs_seqno rx < 2 ^ 31"
| "rx_allowed segs isn rx (RxData k seg) \<longleftrightarrow> rx_allowed_data segs isn rx k seg"
| "rx_allowed segs isn rx (RxAck seg) \<longleftrightarrow>
     peer_ack isn rx seg \<and> \<not> bs_input_ended (tr_stream_out rx)"
| "rx_allowed segs isn rx (RxRead n) \<longleftrightarrow> True"

fun rx_run_allowed :: "bytes list \<Rightarrow> WrappingInt32 \<Rightarrow> TCPReceiver \<Rightarrow> rx_event list \<Rightarrow> bool" where
  "rx_run_allowed segs isn rx [] \<longleftrightarrow> True"
| "rx_run_allowed segs isn rx (ev # evs) \<longleftrightarrow>
     rx_allowed segs isn rx ev \<and>
     (case rx_step rx ev of None \<Rightarrow> True | Some rx' \<Rightarrow> rx_run_allowed segs isn rx' evs)"

subsection \<open>The courses of segment_received\<close>

text \<open>After the opening segment, with the place \<open>t\<close> of the segment and the reassembler's result.\<close>

definition tr_settle :: "bool \<Rightarrow> nat \<Rightarrow> bytes \<Rightarrow> TCPReceiver \<Rightarrow> TCPReceiver" where
  "tr_settle fin t data rx =
     (if t \<noteq> tr_abs_seqno rx then rx
      else
        let a = (if length data \<noteq> 0 then u64_add (bs_bytes_written (tr_stream_out rx)) 1
                 else if t = 0 then u64_add (tr_abs_seqno rx) 1 else tr_abs_seqno rx)
        in rx\<lparr>tr_abs_seqno := (if fin \<or> bs_input_ended (tr_stream_out rx) then u64_add a 1 else a)\<rparr>)"

lemma tr_segment_received_later:
  assumes "\<not> tr_first_segment rx" "unwrap (th_seqno (ts_header seg)) (tr_ISN rx) (tr_abs_seqno rx) = t"
    and "\<not> (tr_abs_seqno rx = 1 \<and> t = 0)"
  shows "tr_segment_received rx seg =
    map_option (\<lambda>r'. tr_settle (th_fin (ts_header seg)) t (buf_str (ts_payload seg)) (rx\<lparr>tr_reassembler := r'\<rparr>))
      (push_substring (tr_reassembler rx) (buf_str (ts_payload seg)) (t - 1) (th_fin (ts_header seg)))"
proof -
  let ?data = "buf_str (ts_payload seg)" and ?fin = "th_fin (ts_header seg)"
  have i: "(if t > 0 then t - 1 else t) = t - 1" and early: "\<not> (tr_abs_seqno rx = 1 \<and> t < tr_abs_seqno rx)"
    using assms(3) by auto
  have r1: "(if tr_first_segment rx \<and> th_syn (ts_header seg)
      then rx\<lparr>tr_first_segment := False, tr_ISN := th_seqno (ts_header seg)\<rparr> else rx) = rx"
    using assms(1) by simp
  show ?thesis
  proof (cases "push_substring (tr_reassembler rx) ?data (t - 1) ?fin")
    case None
    then show ?thesis
      unfolding tr_segment_received_def Let_def r1 assms(2) i buf_copy_def if_not_P[OF early]
      using assms(1) by simp
  next
    case (Some r')
    have same: "rx\<lparr>tr_reassembler := r', tr_abs_seqno := tr_abs_seqno rx\<rparr> = rx\<lparr>tr_reassembler := r'\<rparr>"
      by simp
    from Some show ?thesis
      unfolding tr_segment_received_def Let_def r1 assms(2) i buf_copy_def if_not_P[OF early]
      using assms(1) by (simp add: tr_settle_def tr_stream_out_def Let_def same)
  qed
qed

lemma tr_segment_received_old_syn:
  assumes "\<not> tr_first_segment rx" "unwrap (th_seqno (ts_header seg)) (tr_ISN rx) (tr_abs_seqno rx) = 0"
    and "tr_abs_seqno rx = 1"
  shows "tr_segment_received rx seg = Some rx"
  using assms by (simp add: tr_segment_received_def)

lemma push_empty_here:
  assumes "index \<le> sr_next_assembling_index r" "bs_inv (sr_output r)" "sr_next_assembling_index r < two64"
  shows "push_substring r [] index False = Some r"
proof (cases "bs_remaining_capacity (sr_output r) = 0 \<or> index \<ge> sr_indicator r")
  case True
  then show ?thesis by (rule push_refused)
next
  case False
  have "sr_accept r [] index False = (False, r)"
    using assms by (auto simp: sr_accept_def bs_write_eq bs_inv_def u64_add_exact Let_def)
  with False assms(1) show ?thesis
    by (subst push_written) (auto simp: sr_pulls_def sr_finish_def)
qed

lemma first_segment_syn:
  assumes "tr_first_segment rx" "peer_syn isn seg" "tr_abs_seqno rx = 0" "tr_reassembler rx = sr_new c" "c < two64"
  shows "tr_segment_received rx seg =
    Some (rx\<lparr>tr_first_segment := False, tr_ISN := isn, tr_abs_seqno := 1\<rparr>)"
proof -
  have "unwrap isn isn 0 = 0"
    using unwrap_wrap[of 0 0 isn] by simp
  moreover have "push_substring (sr_new c) [] 0 False = Some (sr_new c)"
    using bs_inv_new[OF assms(5)] by (intro push_empty_here) (auto simp: sr_new_def)
  moreover have "u64_add 0 1 = 1" by (simp add: u64_add_def two64_def)
  ultimately show ?thesis
    using assms by (simp add: tr_segment_received_def peer_syn_def buf_copy_def Let_def
        tr_stream_out_def sr_new_def bs_new_def)
qed

subsection \<open>The invariant of a conversation\<close>

text \<open>The expected number is one more than the number of bytes written, one more again when the
  end of the stream was acknowledged.\<close>

definition rx_acked :: "bytes list \<Rightarrow> TCPReceiver \<Rightarrow> bool" where
  "rx_acked segs rx \<longleftrightarrow>
     (let w = bs_bytes_written (tr_stream_out rx); ended = bs_input_ended (tr_stream_out rx) in
      tr_abs_seqno rx = 1 + w \<and> (ended \<longrightarrow> last segs = []) \<or> tr_abs_seqno rx = 2 + w \<and> ended)"

definition rx_good :: "bytes list \<Rightarrow> WrappingInt32 \<Rightarrow> nat \<Rightarrow> nat set \<Rightarrow> TCPReceiver \<Rightarrow> bool" where
  "rx_good segs isn c G rx \<longleftrightarrow> \<not> tr_first_segment rx \<and> tr_ISN rx = isn \<and> tr_capacity rx = c \<and>
     sr_capacity (tr_reassembler rx) = c \<and> (\<exists>m ks. seg_good segs G (tr_reassembler rx) m ks) \<and>
     rx_acked segs rx"

definition rx_limits :: "bytes list \<Rightarrow> nat \<Rightarrow> bool" where
  "rx_limits segs c \<longleftrightarrow> wf_segs segs \<and> length (concat segs) < 2 ^ 62 \<and> c < 2 ^ 31"

lemma seg_good_facts:
  assumes "seg_good segs G r m ks"
  shows "bs_bytes_written (sr_output r) = seg_off segs m" "sr_next_assembling_index r = seg_off segs m"
    "sr_inv (concat segs) r" "m \<le> length segs" "bs_inv (sr_output r)"
    "sr_window_end r \<le> seg_off segs m + sr_capacity r"
    "bs_input_ended (sr_output r) \<longrightarrow> seg_off segs m = length (concat segs)"
    "m = length segs \<longrightarrow> bs_input_ended (sr_output r)"
  using assms by (auto simp: seg_good_def seg_state_def sr_inv_def out_ok_def sr_window_end_def)

lemma rx_unwrap:
  assumes "rx_limits segs c" "rx_good segs isn c G rx" "t \<le> 1 + bs_bytes_written (tr_stream_out rx) + c"
    and "tr_abs_seqno rx < t + 2 ^ 31"
  shows "unwrap (wrap t isn) isn (tr_abs_seqno rx) = t"
proof (rule seqs.recover)
  obtain m ks where good: "seg_good segs G (tr_reassembler rx) m ks"
    using assms(2) by (auto simp: rx_good_def)
  have "bs_bytes_written (tr_stream_out rx) < 2 ^ 62"
    using seg_good_facts(1)[OF good] seg_off_le[of segs m] assms(1)
    by (simp add: rx_limits_def tr_stream_out_def)
  then show "tr_abs_seqno rx < 2 ^ 63 - 2 ^ 31"
    using assms(2) by (auto simp: rx_good_def rx_acked_def Let_def)
  show "t < tr_abs_seqno rx + 2 ^ 31"
    using assms by (auto simp: rx_good_def rx_acked_def rx_limits_def Let_def)
  show "tr_abs_seqno rx < t + 2 ^ 31" by fact
qed

lemma tr_settle_stays: "t \<noteq> tr_abs_seqno rx \<Longrightarrow> tr_settle fin t d rx = rx"
  by (simp add: tr_settle_def)

lemma rx_good_empty:
  assumes "rx_limits segs c" "rx_good segs isn c G rx" "\<not> tr_first_segment rx"
    and "th_seqno (ts_header seg) = wrap t isn" "\<not> th_fin (ts_header seg)" "buf_str (ts_payload seg) = []"
    and "t = tr_abs_seqno rx \<and> \<not> bs_input_ended (tr_stream_out rx) \<or> t = 0 \<and> tr_abs_seqno rx < 2 ^ 31"
  shows "tr_segment_received rx seg = Some rx"
proof -
  obtain m ks where good: "seg_good segs G (tr_reassembler rx) m ks"
    using assms(2) by (auto simp: rx_good_def)
  note f = seg_good_facts[OF good]
  have abs: "tr_abs_seqno rx \<noteq> 0" "tr_abs_seqno rx = 1 + bs_bytes_written (tr_stream_out rx) \<or>
      bs_input_ended (tr_stream_out rx)"
    using assms(2) by (auto simp: rx_good_def rx_acked_def Let_def)
  have "unwrap (wrap t isn) isn (tr_abs_seqno rx) = t"
    using assms(7) abs by (intro rx_unwrap[OF assms(1,2)]) auto
  then have u: "unwrap (th_seqno (ts_header seg)) (tr_ISN rx) (tr_abs_seqno rx) = t"
    using assms(2,4) by (simp add: rx_good_def)
  show ?thesis
  proof (cases "tr_abs_seqno rx = 1 \<and> t = 0")
    case True
    then show ?thesis using tr_segment_received_old_syn[OF assms(3)] u by simp
  next
    case False
    have "t - 1 \<le> seg_off segs m"
      using assms(7) abs f(1) by (auto simp: tr_stream_out_def)
    then have "push_substring (tr_reassembler rx) [] (t - 1) False = Some (tr_reassembler rx)"
      using f(2,5) seg_off_le[of segs m] assms(1)
      by (intro push_empty_here) (auto simp: rx_limits_def two64_def)
    moreover have "tr_settle False t [] rx = rx"
      using assms(7) abs(1) by (auto simp: tr_settle_def Let_def)
    ultimately show ?thesis
      using tr_segment_received_later[OF assms(3) u False] assms(5,6) by simp
  qed
qed

lemma rx_acked_next:
  assumes "rx_limits segs c" "rx_good segs isn c G rx" "seg_good segs G (tr_reassembler rx) m ks"
    and allowed: "rx_allowed_data segs isn rx k seg"
    and r': "seg_step segs (tr_reassembler rx) (Arrive k) = Some r'" "seg_good segs (insert k G) r' m' ks'" "m \<le> m'"
    and here: "1 + seg_off segs k = tr_abs_seqno rx"
  shows "rx_acked segs (tr_settle (Suc k = length segs) (1 + seg_off segs k) (segs ! k) (rx\<lparr>tr_reassembler := r'\<rparr>))"
proof -
  note f = seg_good_facts[OF assms(3)] and f' = seg_good_facts[OF r'(2)]
  have k: "k < length segs" using allowed by (simp add: rx_allowed_data_def peer_data_def)
  have le: "seg_off segs k \<le> length (concat segs)" by (rule seg_off_le)
  have off: "seg_off segs k = seg_off segs m"
    using here assms(2) f(1,7) le by (auto simp: rx_good_def rx_acked_def Let_def tr_stream_out_def)
  have small: "seg_off segs m' + 2 < two64"
    using assms(1) seg_off_le[of segs m'] by (simp add: rx_limits_def two64_def)
  show ?thesis
  proof (cases "segs ! k = []")
    case False
    have "k < m'" by (rule seg_next_written[OF _ assms(3) r'(2,3) off False k])
        (use assms(1) in \<open>simp add: rx_limits_def\<close>)
    then have "Suc k = length segs \<longrightarrow> bs_input_ended (sr_output r')" using f'(4,8) by auto
    then show ?thesis
      using False here small f'(1)
      by (auto simp: tr_settle_def rx_acked_def Let_def tr_stream_out_def u64_add_exact)
  next
    case True
    have last: "Suc k = length segs"
      using seg_nonempty[of segs k] True assms(1) k by (fastforce simp: rx_limits_def)
    have "sr_next_assembling_index r' = seg_off segs m"
      using seg_other_written[OF _ assms(3) _ r'(1)] True allowed f(2) assms(1)
      by (auto simp: rx_allowed_data_def peer_data_def rx_limits_def)
    then have "bs_bytes_written (sr_output r') = seg_off segs m" using f'(1,2) by simp
    moreover have "bs_input_ended (sr_output r')"
      using allowed r'(1) f(2) off last True
      by (intro push_fin_here[OF f(3), of "seg_off segs k"]) (auto simp: rx_allowed_data_def)
    ultimately show ?thesis
      using True here off last small seg_off_mono[OF r'(3), of segs]
      by (auto simp: tr_settle_def rx_acked_def Let_def tr_stream_out_def u64_add_exact)
  qed
qed

lemma rx_acked_other:
  assumes "rx_limits segs c" "rx_good segs isn c G rx" "seg_good segs G (tr_reassembler rx) m ks"
    and allowed: "rx_allowed_data segs isn rx k seg"
    and r': "seg_step segs (tr_reassembler rx) (Arrive k) = Some r'" "seg_good segs (insert k G) r' m' ks'" "m \<le> m'"
    and ended: "bs_input_ended (sr_output (tr_reassembler rx)) \<longrightarrow> bs_input_ended (sr_output r')"
    and "1 + seg_off segs k \<noteq> tr_abs_seqno rx"
  shows "rx_acked segs (rx\<lparr>tr_reassembler := r'\<rparr>)"
proof -
  note f = seg_good_facts[OF assms(3)] and f' = seg_good_facts[OF r'(2)]
  have wf: "wf_segs segs" using assms(1) by (simp add: rx_limits_def)
  have k: "seg_allowed segs (tr_reassembler rx) (Arrive k)"
    using allowed by (auto simp: rx_allowed_data_def peer_data_def split: if_splits)
  consider (running) "tr_abs_seqno rx = 1 + seg_off segs m" "bs_input_ended (tr_stream_out rx) \<longrightarrow> last segs = []"
    | (closed) "tr_abs_seqno rx = 2 + seg_off segs m" "bs_input_ended (tr_stream_out rx)"
    using assms(2) f(1) by (auto simp: rx_good_def rx_acked_def Let_def tr_stream_out_def)
  then show ?thesis
  proof cases
    case running
    have same: "seg_off segs m' = seg_off segs m"
      using seg_other_written[OF wf assms(3) k r'(1)] running(1) assms(9) f(2) f'(2) by simp
    have "last segs = []" if "bs_input_ended (sr_output r')"
    proof (rule ccontr)
      assume ne: "last segs \<noteq> []"
      have "seg_off segs m = seg_off segs (length segs)" using that f'(7) same by (simp add: seg_off_length)
      moreover have "seg_off segs m \<le> seg_off segs (length segs - 1)" if "m < length segs"
        using that by (intro seg_off_mono) simp
      moreover have "seg_off segs (length segs - 1) < seg_off segs (length segs)"
        using seg_off_Suc[of "length segs - 1" segs] ne wf by (simp add: wf_segs_def last_conv_nth)
      ultimately have "m = length segs" using f(4) by fastforce
      then show False using f(8) running(2) ne by (simp add: tr_stream_out_def)
    qed
    then show ?thesis using running(1) same f'(1) by (auto simp: rx_acked_def Let_def tr_stream_out_def)
  next
    case closed
    have "seg_off segs m' = seg_off segs m"
      using closed(2) f(7) seg_off_mono[OF r'(3), of segs] seg_off_le[of segs m']
      by (simp add: tr_stream_out_def)
    then show ?thesis
      using closed ended f'(1) by (simp add: rx_acked_def Let_def tr_stream_out_def)
  qed
qed

lemma rx_good_data:
  assumes "rx_limits segs c" "rx_good segs isn c G rx" "rx_allowed_data segs isn rx k seg"
  shows "\<exists>rx'. tr_segment_received rx seg = Some rx' \<and> rx_good segs isn c (insert k G) rx' \<and>
    tr_abs_seqno rx \<le> tr_abs_seqno rx' \<and>
    (Suc k = length segs \<longrightarrow> segs ! k = [] \<longrightarrow> 1 + seg_off segs k = tr_abs_seqno rx \<longrightarrow>
       tr_abs_seqno rx' = Suc (tr_abs_seqno rx))"
proof -
  obtain m ks where good: "seg_good segs G (tr_reassembler rx) m ks"
    using assms(2) by (auto simp: rx_good_def)
  note f = seg_good_facts[OF good]
  have wf: "wf_segs segs" using assms(1) by (simp add: rx_limits_def)
  have k: "seg_allowed segs (tr_reassembler rx) (Arrive k)"
    using assms(3) by (auto simp: rx_allowed_data_def peer_data_def split: if_splits)
  have cap: "sr_capacity (tr_reassembler rx) = c" and st: "\<not> tr_first_segment rx" "tr_ISN rx = isn"
    using assms(2) by (auto simp: rx_good_def)
  have pd: "th_seqno (ts_header seg) = wrap (1 + seg_off segs k) isn" "th_fin (ts_header seg) = (Suc k = length segs)"
    "buf_str (ts_payload seg) = segs ! k"
    using assms(3) by (auto simp: rx_allowed_data_def peer_data_def)
  obtain r' m' ks' where r': "seg_step segs (tr_reassembler rx) (Arrive k) = Some r'"
    "seg_good segs (insert k G) r' m' ks'" "m \<le> m'"
    and ended: "bs_input_ended (sr_output (tr_reassembler rx)) \<longrightarrow> bs_input_ended (sr_output r')"
    using seg_good_push[OF wf good k] by blast
  have push: "push_substring (tr_reassembler rx) (segs ! k) (seg_off segs k) (Suc k = length segs) = Some r'"
    using r'(1) by simp
  have "Suc k = length segs \<longrightarrow> seg_off segs k + length (segs ! k) = length (concat segs)"
    using k seg_off_Suc[of k segs] seg_off_length[of segs] by auto
  then have cap': "sr_capacity r' = c"
    using push_substring_ok[OF f(3) seg_excerpt _ _ push] k cap by simp
  have "unwrap (wrap (1 + seg_off segs k) isn) isn (tr_abs_seqno rx) = 1 + seg_off segs k"
    using assms(3) k f(1,6) cap
    by (intro rx_unwrap[OF assms(1,2)]) (auto simp: rx_allowed_data_def tr_stream_out_def)
  then have "tr_segment_received rx seg =
      Some (tr_settle (Suc k = length segs) (1 + seg_off segs k) (segs ! k) (rx\<lparr>tr_reassembler := r'\<rparr>))"
    using tr_segment_received_later[OF st(1), of seg "1 + seg_off segs k"] pd st(2) push by simp
  moreover have "rx_acked segs (tr_settle (Suc k = length segs) (1 + seg_off segs k) (segs ! k) (rx\<lparr>tr_reassembler := r'\<rparr>))"
    using rx_acked_next[OF assms(1,2) good assms(3) r'] rx_acked_other[OF assms(1,2) good assms(3) r' ended]
    by (cases "1 + seg_off segs k = tr_abs_seqno rx") (auto simp: tr_settle_stays)
  moreover have "tr_abs_seqno rx \<le> tr_abs_seqno
      (tr_settle (Suc k = length segs) (1 + seg_off segs k) (segs ! k) (rx\<lparr>tr_reassembler := r'\<rparr>))"
    using seg_off_mono[OF r'(3), of segs] seg_good_facts(1)[OF r'(2)] f(1,7) assms(1,2) seg_off_le[of segs m']
      seg_off_le[of segs k]
    by (auto simp: tr_settle_def rx_good_def rx_acked_def Let_def tr_stream_out_def u64_add_exact rx_limits_def two64_def)
  moreover have "u64_add (1 + seg_off segs k) 1 = Suc (1 + seg_off segs k)"
    using assms(1) seg_off_le[of segs k] by (simp add: rx_limits_def u64_add_exact two64_def)
  ultimately show ?thesis
    using r'(2) assms(2) cap' by (auto simp: rx_good_def tr_settle_def Let_def)
qed

lemma rx_good_read:
  assumes "rx_good segs isn c G rx" "rx_step rx (RxRead n) = Some rx'"
  shows "rx_good segs isn c G rx' \<and> tr_abs_seqno rx' = tr_abs_seqno rx"
proof -
  obtain m ks where good: "seg_good segs G (tr_reassembler rx) m ks"
    using assms(1) by (auto simp: rx_good_def)
  have rx': "rx' = rx\<lparr>tr_reassembler := (tr_reassembler rx)\<lparr>sr_output :=
      bs_pop_output (sr_output (tr_reassembler rx)) n\<rparr>\<rparr>"
    using assms(2) by (simp add: tr_stream_out_def)
  have "\<exists>m ks. seg_good segs G (tr_reassembler rx') m ks"
    unfolding rx' using seg_good_pop[OF good, of n] by auto
  moreover have "rx_acked segs rx'"
    using assms(1) by (simp add: rx' rx_good_def rx_acked_def tr_stream_out_def bs_pop_output_def Let_def)
  ultimately show ?thesis
    using assms(1) unfolding rx_good_def by (simp add: rx')
qed

definition rx_arrived :: "rx_event list \<Rightarrow> nat set" where
  "rx_arrived evs = {k. \<exists>seg. RxData k seg \<in> set evs}"

lemma rx_good_step:
  assumes "rx_limits segs c" "rx_good segs isn c G rx" "rx_allowed segs isn rx ev"
  shows "\<exists>rx'. rx_step rx ev = Some rx' \<and> rx_good segs isn c (G \<union> rx_arrived [ev]) rx' \<and>
    tr_abs_seqno rx \<le> tr_abs_seqno rx'"
proof -
  have first: "\<not> tr_first_segment rx" using assms(2) by (simp add: rx_good_def)
  show ?thesis
  proof (cases ev)
    case (RxSyn seg)
    then have "tr_segment_received rx seg = Some rx"
      using rx_good_empty[OF assms(1,2) first, of seg 0] assms(3) by (simp add: peer_syn_def)
    then show ?thesis using RxSyn assms(2) by (simp add: rx_arrived_def)
  next
    case (RxData k seg)
    then show ?thesis using rx_good_data[OF assms(1,2), of k seg] assms(3) by (auto simp: rx_arrived_def)
  next
    case (RxAck seg)
    then have "tr_segment_received rx seg = Some rx"
      using rx_good_empty[OF assms(1,2) first, of seg "tr_abs_seqno rx"] assms(3) by (simp add: peer_ack_def)
    then show ?thesis using RxAck assms(2) by (simp add: rx_arrived_def)
  next
    case (RxRead n)
    then show ?thesis using rx_good_read[OF assms(2), of n] by (simp add: rx_arrived_def)
  qed
qed

lemma rx_arrived_Cons: "rx_arrived (ev # evs) = rx_arrived [ev] \<union> rx_arrived evs"
  by (auto simp: rx_arrived_def)

lemma rx_good_run:
  assumes "rx_limits segs c" "rx_good segs isn c G rx" "rx_run_allowed segs isn rx evs"
  shows "\<exists>rx'. rx_run rx evs = Some rx' \<and> rx_good segs isn c (G \<union> rx_arrived evs) rx' \<and>
    tr_abs_seqno rx \<le> tr_abs_seqno rx'"
  using assms(2,3)
proof (induction evs arbitrary: G rx)
  case Nil
  then show ?case by (simp add: rx_arrived_def)
next
  case (Cons ev evs)
  then obtain rx1 where rx1: "rx_step rx ev = Some rx1" "rx_good segs isn c (G \<union> rx_arrived [ev]) rx1"
      "tr_abs_seqno rx \<le> tr_abs_seqno rx1"
    using rx_good_step[OF assms(1), of isn G rx ev] by auto
  then have "rx_run_allowed segs isn rx1 evs" using Cons.prems(2) by simp
  from Cons.IH[OF rx1(2) this] show ?case
    using rx1(1,3) by (auto simp: rx_arrived_Cons[of ev evs] Un_assoc)
qed

text \<open>An empty last piece behind all the others makes the receiver acknowledge the end.\<close>

lemma rx_end_acked:
  assumes "rx_limits segs c" "rx_good segs isn c G rx" "\<forall>k < length segs - 1. k \<in> G" "last segs = []"
    and "rx_allowed_data segs isn rx (length segs - 1) seg" "tr_segment_received rx seg = Some rx'"
  shows "2 + length (concat segs) \<le> tr_abs_seqno rx'"
proof -
  let ?l = "length segs - 1"
  have wf: "wf_segs segs" using assms(1) by (simp add: rx_limits_def)
  then have l: "Suc ?l = length segs" "segs ! ?l = []"
    using assms(4) by (auto simp: wf_segs_def last_conv_nth)
  then have off: "seg_off segs ?l = length (concat segs)"
    using seg_off_Suc[of ?l segs] seg_off_length[of segs] by simp
  obtain m ks where sg: "seg_good segs G (tr_reassembler rx) m ks"
    using assms(2) by (auto simp: rx_good_def)
  have "seg_off segs ?l \<le> bs_bytes_written (sr_output (tr_reassembler rx))"
    by (rule seg_good_contiguous(1)[OF wf sg _ assms(3)]) simp
  then have "bs_bytes_written (tr_stream_out rx) = length (concat segs)"
    using off seg_good_facts(1)[OF sg] seg_off_le[of segs m] by (simp add: tr_stream_out_def)
  then have "tr_abs_seqno rx = 1 + length (concat segs) \<or> tr_abs_seqno rx = 2 + length (concat segs)"
    using assms(2) by (auto simp: rx_good_def rx_acked_def Let_def)
  then show ?thesis
    using rx_good_data[OF assms(1,2,5)] assms(6) l off by auto
qed

lemma rx_run_append:
  "rx_run rx (evs @ evs') = Option.bind (rx_run rx evs) (\<lambda>rx'. rx_run rx' evs')"
  by (induction evs arbitrary: rx) (simp_all split: option.split)

lemma rx_run_allowed_append:
  assumes "rx_run_allowed segs isn rx (evs @ evs')"
  shows "rx_run_allowed segs isn rx evs"
    and "rx_run rx evs = Some rx' \<Longrightarrow> rx_run_allowed segs isn rx' evs'"
  using assms by (induction evs arbitrary: rx) (auto split: option.splits)

lemma rx_end_acked_run:
  assumes "rx_limits segs c" "rx_good segs isn c {} rx0" "last segs = []"
    and "rx_run_allowed segs isn rx0 (evs1 @ RxData (length segs - 1) seg # evs2)"
    and "\<forall>k < length segs - 1. k \<in> rx_arrived evs1"
    and "rx_run rx0 (evs1 @ RxData (length segs - 1) seg # evs2) = Some rx"
  shows "2 + length (concat segs) \<le> tr_abs_seqno rx"
proof -
  obtain rx1 where rx1: "rx_run rx0 evs1 = Some rx1" "rx_good segs isn c (rx_arrived evs1) rx1"
    using rx_good_run[OF assms(1,2) rx_run_allowed_append(1)[OF assms(4)]] by auto
  have al: "rx_run_allowed segs isn rx1 (RxData (length segs - 1) seg # evs2)"
    by (rule rx_run_allowed_append(2)[OF assms(4) rx1(1)])
  obtain rx2 where rx2: "rx_step rx1 (RxData (length segs - 1) seg) = Some rx2"
      "rx_good segs isn c (rx_arrived evs1 \<union> rx_arrived [RxData (length segs - 1) seg]) rx2"
    using rx_good_step[OF assms(1) rx1(2), of "RxData (length segs - 1) seg"] al by auto
  have "rx_allowed_data segs isn rx1 (length segs - 1) seg" "tr_segment_received rx1 seg = Some rx2"
    using al rx2(1) by simp_all
  then have "2 + length (concat segs) \<le> tr_abs_seqno rx2"
    by (rule rx_end_acked[OF assms(1) rx1(2) assms(5,3)])
  moreover have "rx_run_allowed segs isn rx2 evs2" "rx_run rx2 evs2 = Some rx"
    using al rx2(1) assms(6) rx1(1) by (simp_all add: rx_run_append)
  ultimately show ?thesis using rx_good_run[OF assms(1) rx2(2), of evs2] by auto
qed

lemma rx_good_opened:
  assumes "rx_limits segs c" "peer_syn isn syn"
  shows "\<exists>rx. tr_segment_received (tr_new c) syn = Some rx \<and> rx_good segs isn c {} rx"
proof -
  have "c < two64" "length (concat segs) + c < two64" "wf_segs segs"
    using assms(1) by (auto simp: rx_limits_def two64_def)
  moreover have "seg_good segs {} (sr_new c) 0 []"
    by (rule seg_good_new) fact+
  ultimately show ?thesis
    using first_segment_syn[of "tr_new c" isn syn c] assms(2)
    by (auto simp: tr_new_def rx_good_def rx_acked_def tr_stream_out_def sr_new_def bs_new_def)
qed

subsection \<open>Properties\<close>


text \<open>Concrete segments.\<close>

definition plain_segment :: "WrappingInt32 \<Rightarrow> bool \<Rightarrow> bool \<Rightarrow> bytes \<Rightarrow> TCPSegment" where
  "plain_segment seqno syn fin data =
     \<lparr>ts_header = th_new\<lparr>th_seqno := seqno, th_syn := syn, th_fin := fin\<rparr>, ts_payload = buf_of_string data\<rparr>"

fun tr_receive_all :: "TCPReceiver \<Rightarrow> TCPSegment list \<Rightarrow> TCPReceiver option" where
  "tr_receive_all rx [] = Some rx"
| "tr_receive_all rx (seg # ss) =
     (case tr_segment_received rx seg of None \<Rightarrow> None | Some rx' \<Rightarrow> tr_receive_all rx' ss)"

lemma plain_segment_simps [simp]:
  "th_seqno (ts_header (plain_segment q s f d)) = q" "th_syn (ts_header (plain_segment q s f d)) = s"
  "th_fin (ts_header (plain_segment q s f d)) = f" "buf_str (ts_payload (plain_segment q s f d)) = d"
  "buf_copy (ts_payload (plain_segment q s f d)) = d"
  by (simp_all add: plain_segment_def buf_copy_def)

lemmas rx_eval = tr_segment_received_def tr_new_def tr_stream_out_def unwrap_def wrap_def wi_add_def
  wi_diff_def tr_ackno_def push_eval


text \<open>
  An empty segment, such as an acknowledgment that was overtaken, makes the receiver loop
  forever when it carries the sequence number of the first fragment that waits for a gap to be
  filled.
\<close>

lemma receiver_hangs_on_overtaken_ack:
  assumes "\<not> tr_first_segment rx" "tr_reassembler rx = r" "sr_storage r = d # rest" "dg_size d > 0"
    and "sr_next_assembling_index r < dg_index d" "dg_index d < sr_indicator r"
    and "dg_index d + dg_size d < two64" "bs_remaining_capacity (sr_output r) \<noteq> 0"
    and "unwrap (th_seqno (ts_header seg)) (tr_ISN rx) (tr_abs_seqno rx) = Suc (dg_index d)"
    and "buf_str (ts_payload seg) = []"
  shows "tr_segment_received rx seg = None"
proof -
  have "mm_scan 0 (new_dg [] (dg_index d) (th_fin (ts_header seg))) (d # rest) (sr_unassembled_bytes r) = None"
    using assms by (intro mm_scan_loops) auto
  then have "push_substring r [] (dg_index d) (th_fin (ts_header seg)) = None"
    using assms by (simp add: push_held missing_middle_handler_def)
  then show ?thesis
    using tr_segment_received_later[OF assms(1,9)] assms(2,10) by simp
qed

text \<open>
  After the end of the stream every empty segment at the expected place advances the
  acknowledgment number once more, past everything the peer has sent.
\<close>

theorem receiver_ackno_passes_fin:
  "map_option tr_ackno (tr_receive_all (tr_new 10)
     [plain_segment (WrappingInt32 0) True False [], plain_segment (WrappingInt32 1) False True [],
      plain_segment (WrappingInt32 2) False False [], plain_segment (WrappingInt32 3) False False []])
   = Some (Some (WrappingInt32 4))"
  by (simp add: rx_eval)

text \<open>
  C36. The end of the stream is acknowledged without being taken in when it arrives while the
  output is full. In any state past the opening segment whose output has no room and is not
  ended, a segment at the expected place that carries only the end mark, as a sender sends it
  against a closed window, moves the acknowledgment number past the end, while the reassembler
  and the output stay as they are, so the input is not ended. The peer learns that its end
  mark arrived and has no reason to send it again.
\<close>

theorem receiver_acks_lost_fin:
  assumes "\<not> tr_first_segment rx" "0 < tr_abs_seqno rx" "tr_abs_seqno rx < 2 ^ 63 - 2 ^ 31"
    and "bs_remaining_capacity (tr_stream_out rx) = 0" "\<not> bs_input_ended (tr_stream_out rx)"
    and "th_seqno (ts_header seg) = wrap (tr_abs_seqno rx) (tr_ISN rx)" "th_fin (ts_header seg)"
    and "buf_str (ts_payload seg) = []"
  shows "\<exists>rx'. tr_segment_received rx seg = Some rx' \<and>
    tr_ackno rx' = Some (wrap (tr_abs_seqno rx + 1) (tr_ISN rx)) \<and>
    tr_reassembler rx' = tr_reassembler rx \<and> \<not> bs_input_ended (tr_stream_out rx')"
proof -
  have u: "unwrap (th_seqno (ts_header seg)) (tr_ISN rx) (tr_abs_seqno rx) = tr_abs_seqno rx"
    unfolding assms(6) using assms(3) by (intro seqs.recover) simp_all
  have "push_substring (tr_reassembler rx) [] (tr_abs_seqno rx - 1) True = Some (tr_reassembler rx)"
    using assms(4) by (intro push_refused) (simp add: tr_stream_out_def)
  moreover have "u64_add (tr_abs_seqno rx) 1 = tr_abs_seqno rx + 1"
    using assms(3) by (simp add: u64_add_exact two64_def)
  ultimately show ?thesis
    using tr_segment_received_later[OF assms(1) u] assms(1,2,5,7,8)
    by (auto simp: tr_settle_def Let_def tr_ackno_def tr_stream_out_def)
qed

text \<open>A receiver of capacity 1 that holds one byte; the end mark stays lost after the byte was read.\<close>

theorem receiver_acks_lost_fin_witness:
  "\<exists>rx rx'. tr_receive_all (tr_new 1)
       [plain_segment (WrappingInt32 0) True False [], plain_segment (WrappingInt32 1) False False [7]] = Some rx \<and>
     tr_segment_received rx (plain_segment (WrappingInt32 2) False True []) = Some rx' \<and>
     tr_ackno rx' = Some (WrappingInt32 3) \<and> \<not> bs_eof (snd (bs_read (tr_stream_out rx') 1))"
proof -
  define rx where "rx = \<lparr>tr_reassembler = (sr_new 1)\<lparr>sr_next_assembling_index := 1,
     sr_output := (bs_new 1)\<lparr>bs_stream := [7], bs_buffer_size := 1, bs_bytes_written := 1\<rparr>\<rparr>,
     tr_capacity = 1, tr_abs_seqno = 2, tr_ISN = WrappingInt32 0, tr_first_segment = False\<rparr>"
  let ?fin = "plain_segment (WrappingInt32 2) False True []"
  have 1: "tr_receive_all (tr_new 1)
       [plain_segment (WrappingInt32 0) True False [], plain_segment (WrappingInt32 1) False False [7]] = Some rx"
    by (simp add: rx_eval rx_def)
  have 2: "\<not> tr_first_segment rx" "0 < tr_abs_seqno rx" "tr_abs_seqno rx < 2 ^ 63 - 2 ^ 31"
      "bs_remaining_capacity (tr_stream_out rx) = 0" "\<not> bs_input_ended (tr_stream_out rx)"
      "th_seqno (ts_header ?fin) = wrap (tr_abs_seqno rx) (tr_ISN rx)" "th_fin (ts_header ?fin)"
      "buf_str (ts_payload ?fin) = []"
    by (simp_all add: rx_def rx_eval)
  obtain rx' where rx': "tr_segment_received rx ?fin = Some rx'"
      "tr_ackno rx' = Some (wrap (tr_abs_seqno rx + 1) (tr_ISN rx))"
      "tr_reassembler rx' = tr_reassembler rx" "\<not> bs_input_ended (tr_stream_out rx')"
    using receiver_acks_lost_fin[OF 2] by blast
  have "tr_ackno rx' = Some (WrappingInt32 3)" unfolding rx'(2) by (simp add: rx_def rx_eval)
  moreover have "\<not> bs_eof (snd (bs_read (tr_stream_out rx') 1))"
    using rx'(4) by (simp add: bs_eof_def bs_read_def)
  ultimately show ?thesis using 1 rx'(1) by blast
qed

end
