(* ===== verification/Sender_Correct.thy ===== *)
theory Sender_Correct
  imports Sender_Invariant TCP_Receiver "HOL-Library.Sublist"
begin

text \<open>
  Correctness of the sender over arbitrary sequences of calls: what it puts on the wire is an
  opening segment and the pieces of one segmentation of the bytes written to it, in the form
  the receiver's theorem expects them; the outstanding segments are those not acknowledged;
  the window is filled and respected; the timeout doubles.
\<close>

subsection \<open>Sequences of calls\<close>

datatype tx_call =
    TxWrite bytes
  | TxEndInput
  | TxFill
  | TxAck WrappingInt32 "16 word"
  | TxTick u64
  | TxSendEmpty
  | TxTake

text \<open>The sender, the segments taken from its queue, and the bytes its stream accepted.\<close>

fun tx_step :: "TCPSender \<Rightarrow> tx_call \<Rightarrow> (TCPSender \<times> TCPSegment list \<times> bytes) option" where
  "tx_step tx (TxWrite d) =
     (case bs_write (tx_stream tx) d of (n, s') \<Rightarrow> Some (tx\<lparr>tx_stream := s'\<rparr>, [], take n d))"
| "tx_step tx TxEndInput = Some (tx\<lparr>tx_stream := bs_end_input (tx_stream tx)\<rparr>, [], [])"
| "tx_step tx TxFill = map_option (\<lambda>t. (t, [], [])) (tx_fill_window tx)"
| "tx_step tx (TxAck a win) = map_option (\<lambda>t. (t, [], [])) (tx_ack_received tx a win)"
| "tx_step tx (TxTick ms) = Some (tx_tick tx ms, [], [])"
| "tx_step tx TxSendEmpty = Some (tx_send_empty_segment tx, [], [])"
| "tx_step tx TxTake =
     (case tx_read_a_segment tx of None \<Rightarrow> Some (tx, [], []) | Some (seg, t) \<Rightarrow> Some (t, [seg], []))"

fun tx_run :: "TCPSender \<Rightarrow> tx_call list \<Rightarrow> (TCPSender \<times> TCPSegment list \<times> bytes) option" where
  "tx_run tx [] = Some (tx, [], [])"
| "tx_run tx (c # cs) =
     (case tx_step tx c of
        None \<Rightarrow> None
      | Some (t, e, w) \<Rightarrow>
          (case tx_run t cs of None \<Rightarrow> None | Some (t', e', w') \<Rightarrow> Some (t', e @ e', w @ w')))"

fun tx_volume :: "tx_call list \<Rightarrow> nat" where
  "tx_volume [] = 0"
| "tx_volume (TxWrite d # cs) = length d + tx_volume cs"
| "tx_volume (_ # cs) = tx_volume cs"

lemma tx_volume_Cons: "tx_volume (c # cs) = (case c of TxWrite d \<Rightarrow> length d | _ \<Rightarrow> 0) + tx_volume cs"
  by (cases c) auto

text \<open>What a call adds to the segments taken and queued, \<open>N\<close>, contains the segments \<open>M\<close> that it
  sends for the first time, in their order.\<close>

lemma tx_good_step:
  assumes "tx_good w L j tx" "length w < 2 ^ 62"
  shows "\<exists>tx' e w' M j' N. tx_step tx c = Some (tx', e, w') \<and> tx_good (w @ w') (L @ M) j' tx' \<and>
    (\<forall>x \<in> set e. x \<in> set L \<or> empty_segment x) \<and> tx_isn tx' = tx_isn tx \<and>
    length w' \<le> (case c of TxWrite d \<Rightarrow> length d | _ \<Rightarrow> 0) \<and>
    tx_segments_out tx @ N = e @ tx_segments_out tx' \<and> subseq M N"
proof (cases c)
  case (TxWrite d)
  obtain n s' where ws: "bs_write (tx_stream tx) d = (n, s')" by (metis prod.exhaust)
  then show ?thesis
    using tx_write_good[OF assms(1) ws] TxWrite by (intro exI[of _ "tx\<lparr>tx_stream := s'\<rparr>"] exI[of _ "[]"]
        exI[of _ "take n d"] exI[of _ j]) auto
next
  case TxEndInput
  then show ?thesis using tx_end_good[OF assms(1)] by (auto intro!: exI[of _ "[]"])
next
  case TxFill
  obtain tx' M where "tx_fill_window tx = Some tx'" "tx_good w (L @ M) j tx'"
    "tx_segments_out tx' = tx_segments_out tx @ M" "same_peer tx tx'"
    using tx_fill_window_good[OF assms] by blast
  then show ?thesis
    using TxFill by (intro exI[of _ tx'] exI[of _ "[]"] exI[of _ "[]"] exI[of _ M] exI[of _ j])
      (simp add: same_peer_def)
next
  case (TxAck a win)
  obtain tx' M j' where "tx_ack_received tx a win = Some tx'" "tx_good w (L @ M) j' tx'" "tx_isn tx' = tx_isn tx"
    "tx_segments_out tx' = tx_segments_out tx @ M"
    using tx_ack_received_good[OF assms, of a win] by blast
  then show ?thesis
    using TxAck by (intro exI[of _ tx'] exI[of _ "[]"] exI[of _ "[]"] exI[of _ M] exI[of _ j']) simp
next
  case (TxTick ms)
  have isn: "tx_isn (tx_tick tx ms) = tx_isn tx"
    and "\<exists>N. tx_segments_out (tx_tick tx ms) = tx_segments_out tx @ N"
    by (auto simp: tx_tick_def Let_def split: list.splits)
  then obtain N where "tx_segments_out (tx_tick tx ms) = tx_segments_out tx @ N" by blast
  then show ?thesis
    using TxTick tx_tick_good[OF assms(1), of ms] isn
    by (intro exI[of _ "tx_tick tx ms"] exI[of _ "[]"] exI[of _ "[]"] exI[of _ "[]"] exI[of _ j] exI[of _ N]) simp
next
  case TxSendEmpty
  then show ?thesis
    using tx_empty_good[OF assms(1)]
    by (intro exI[of _ "tx_send_empty_segment tx"] exI[of _ "[]"] exI[of _ "[]"] exI[of _ "[]"] exI[of _ j]
        exI[of _ "[ts_new\<lparr>ts_header := th_new\<lparr>th_seqno := wrap (tx_next_seqno tx) (tx_isn tx)\<rparr>\<rparr>]"])
      (simp add: tx_send_empty_segment_def)
next
  case TxTake
  show ?thesis
  proof (cases "tx_read_a_segment tx")
    case None
    then show ?thesis using TxTake assms(1) by (auto intro!: exI[of _ "[]"])
  next
    case (Some p)
    obtain seg t where p: "p = (seg, t)" by (cases p)
    have "tx_isn t = tx_isn tx" "tx_segments_out tx = seg # tx_segments_out t"
      using Some p by (auto simp: tx_read_a_segment_def split: list.splits)
    then show ?thesis using TxTake Some p tx_take_good[OF assms(1), of seg t] by (auto intro!: exI[of _ "[]"])
  qed
qed

lemma tx_good_run:
  assumes "tx_good w L j tx" "length w + tx_volume cs < 2 ^ 62"
  shows "\<exists>tx' e w' M j' N. tx_run tx cs = Some (tx', e, w') \<and> tx_good (w @ w') (L @ M) j' tx' \<and>
    (\<forall>x \<in> set e. x \<in> set (L @ M) \<or> empty_segment x) \<and> tx_isn tx' = tx_isn tx \<and> length w' \<le> tx_volume cs \<and>
    tx_segments_out tx @ N = e @ tx_segments_out tx' \<and> subseq M N"
  using assms
proof (induction cs arbitrary: w L j tx)
  case Nil
  then show ?case by (auto intro!: exI[of _ "[]"])
next
  case (Cons c cs)
  have "length w < 2 ^ 62" using Cons.prems(2) by simp
  from tx_good_step[OF Cons.prems(1) this, of c]
  obtain t e u M i P where t: "tx_step tx c = Some (t, e, u)" "tx_good (w @ u) (L @ M) i t"
    "\<forall>x \<in> set e. x \<in> set L \<or> empty_segment x" "tx_isn t = tx_isn tx"
    "length u \<le> (case c of TxWrite d \<Rightarrow> length d | _ \<Rightarrow> 0)"
    "tx_segments_out tx @ P = e @ tx_segments_out t" "subseq M P" by blast
  have vol: "length (w @ u) + tx_volume cs < 2 ^ 62" "length u + tx_volume cs \<le> tx_volume (c # cs)"
    using Cons.prems(2) t(5) tx_volume_Cons[of c cs] by simp_all
  from Cons.IH[OF t(2) vol(1)] obtain t' e' u' N i' Q where
    t': "tx_run t cs = Some (t', e', u')" "tx_good ((w @ u) @ u') ((L @ M) @ N) i' t'"
    "\<forall>x \<in> set e'. x \<in> set ((L @ M) @ N) \<or> empty_segment x" "tx_isn t' = tx_isn t" "length u' \<le> tx_volume cs"
    "tx_segments_out t @ Q = e' @ tx_segments_out t'" "subseq N Q"
    by blast
  have "tx_good (w @ (u @ u')) (L @ (M @ N)) i' t'" using t'(2) by simp
  moreover have "length (u @ u') \<le> tx_volume (c # cs)" using t'(5) vol(2) by simp
  moreover have "tx_segments_out tx @ (P @ Q) = (e @ e') @ tx_segments_out t'"
    using t(6) t'(6) by (metis append.assoc)
  moreover have "subseq (M @ N) (P @ Q)" using t(7) t'(7) by (rule list_emb_append_mono)
  ultimately show ?case
    using t t' by (intro exI[of _ t'] exI[of _ "e @ e'"] exI[of _ "u @ u'"] exI[of _ "M @ N"] exI[of _ i']
        exI[of _ "P @ Q"]) auto
qed

lemma tx_run_new:
  assumes "c < two64" "tx_volume cs < 2 ^ 62"
  obtains tx e w L j where "tx_run (tx_new rnd c rto isn) cs = Some (tx, e, w)" "tx_good w L j tx"
    "\<forall>x \<in> set e. x \<in> set L \<or> empty_segment x" "length w < 2 ^ 62"
    "tx_isn tx = (case isn of Some i \<Rightarrow> i | None \<Rightarrow> WrappingInt32 rnd)" "subseq L (e @ tx_segments_out tx)"
proof -
  have "length [] + tx_volume cs < 2 ^ 62" using assms(2) by simp
  from tx_good_run[OF tx_good_new[OF assms(1), of rnd rto isn] this]
  obtain tx e w L j N where r: "tx_run (tx_new rnd c rto isn) cs = Some (tx, e, w)" "tx_good ([] @ w) ([] @ L) j tx"
    "\<forall>x \<in> set e. x \<in> set ([] @ L) \<or> empty_segment x" "tx_isn tx = tx_isn (tx_new rnd c rto isn)"
    "length w \<le> tx_volume cs" "tx_segments_out (tx_new rnd c rto isn) @ N = e @ tx_segments_out tx" "subseq L N"
    by blast
  show thesis
    by (rule that[of tx e w L j]) (use r assms(2) in \<open>auto simp: tx_new_def\<close>)
qed

subsection \<open>The segments are pieces of the stream\<close>

definition tx_piece :: "bytes list \<Rightarrow> WrappingInt32 \<Rightarrow> bool \<Rightarrow> nat \<Rightarrow> TCPSegment \<Rightarrow> bool" where
  "tx_piece segs isn finished k seg \<longleftrightarrow> k < length segs \<and>
     th_seqno (ts_header seg) = wrap (1 + seg_off segs k) isn \<and> \<not> th_syn (ts_header seg) \<and>
     th_fin (ts_header seg) = (finished \<and> Suc k = length segs) \<and> pay seg = segs ! k"

lemma tx_piece_finished: "tx_piece segs isn True k seg = peer_data segs isn k seg"
  by (simp add: tx_piece_def peer_data_def)

lemma lsum_pieces:
  assumes "\<forall>x \<in> set M. \<not> th_syn (ts_header x) \<and> \<not> th_fin (ts_header x)"
  shows "lsum M = length (concat (map pay M))"
  using assms by (induction M) (auto simp: lsp_eq)

lemma tx_contents_piece:
  assumes "tx_contents w (h # M) tx" "numbered isn (h # M)" "k < length M"
  shows "tx_piece (map pay M) isn (tx_fin_sent tx) k (M ! k)"
proof -
  have bl: "\<forall>x \<in> set (take k M). \<not> th_syn (ts_header x) \<and> \<not> th_fin (ts_header x)"
  proof
    fix x assume "x \<in> set (take k M)"
    then obtain i where i: "i < k" "x = M ! i" using assms(3) by (auto simp: in_set_conv_nth)
    then have "x \<in> set M" using assms(3) by auto
    moreover have "(h # M) ! Suc i \<in> set (butlast (h # M))"
      using i(1) assms(3) nth_mem[of "Suc i" "butlast (h # M)"] by (simp add: nth_butlast del: butlast.simps)
    then have "x \<in> set (butlast (h # M))" using i(2) by (simp del: butlast.simps)
    ultimately show "\<not> th_syn (ts_header x) \<and> \<not> th_fin (ts_header x)" using assms(1) by (simp add: tx_contents_def)
  qed
  have h: "lsp h = 1" using assms(1) by (simp add: tx_contents_def lsp_eq)
  have "th_seqno (ts_header (M ! k)) = wrap (lsum (take (Suc k) (h # M))) isn"
    using assms(2,3) unfolding numbered_def by (metis Suc_less_eq length_Cons nth_Cons_Suc)
  then have seq: "th_seqno (ts_header (M ! k)) = wrap (1 + seg_off (map pay M) k) isn"
    using h lsum_pieces[OF bl] by (simp add: seg_off_def take_map)
  have mk: "M ! k \<in> set M" using assms(3) by simp
  have "th_fin (ts_header (M ! k)) = (tx_fin_sent tx \<and> Suc k = length M)"
  proof (cases "Suc k = length M")
    case True
    then have "M ! k = last (h # M)" using assms(3) by (metis diff_Suc_1 last_ConsR last_conv_nth length_0_conv not_less0)
    with True assms(1) show ?thesis by (simp add: tx_contents_def)
  next
    case False
    then have "Suc k < length (butlast (h # M))" using assms(3) by (simp del: butlast.simps)
    then have "M ! k \<in> set (butlast (h # M))"
      using nth_mem[of "Suc k" "butlast (h # M)"] by (simp add: nth_butlast del: butlast.simps)
    with False assms(1) show ?thesis by (simp add: tx_contents_def)
  qed
  then show ?thesis using seq mk assms(1,3) by (simp add: tx_piece_def tx_contents_def)
qed

text \<open>The segments of a good sender, as pieces of its stream.\<close>

lemma tx_good_pieces:
  assumes "tx_good w L j tx" "x \<in> set L \<or> empty_segment x"
  shows "peer_syn (tx_isn tx) x \<or> (\<exists>k. tx_piece (map pay (tl L)) (tx_isn tx) (tx_fin_sent tx) k x) \<or> empty_segment x"
proof (cases "x \<in> set L")
  case True
  then obtain h M where L: "L = h # M" by (cases L) auto
  have con: "tx_contents w (h # M) tx" and num: "numbered (tx_isn tx) (h # M)"
    using assms(1) L by (auto simp: tx_good_def tx_queue_def)
  show ?thesis
  proof (cases "x = h")
    case True
    have "\<exists>j < length (h # M). th_seqno (ts_header h) = wrap (lsum (take j [])) (tx_isn tx)"
      using num unfolding numbered_def by (metis length_greater_0_conv list.distinct(1) nth_Cons_0 take0 take_Nil)
    then have "th_seqno (ts_header h) = tx_isn tx" by simp
    then show ?thesis using True con by (simp add: peer_syn_def tx_contents_def)
  next
    case False
    then obtain k where "k < length M" "x = M ! k" using \<open>x \<in> set L\<close> L by (auto simp: in_set_conv_nth)
    then show ?thesis using tx_contents_piece[OF con num] L by auto
  qed
qed (use assms(2) in simp)

lemma tx_good_segs:
  assumes "tx_good w L j tx"
  defines "segs \<equiv> map pay (tl L)"
  shows "w = concat segs @ bs_stream (tx_stream tx)" "\<forall>d \<in> set segs. length d \<le> MAX_PAYLOAD_SIZE"
    "\<forall>d \<in> set (butlast segs). d \<noteq> []" "tx_fin_sent tx \<longrightarrow> wf_segs segs \<and> bs_input_ended (tx_stream tx)"
proof -
  have c: "tx_contents w L tx" using assms(1) by (simp add: tx_good_def)
  show "w = concat segs @ bs_stream (tx_stream tx)"
    using c by (cases L) (auto simp: tx_contents_def segs_def)
  show "\<forall>d \<in> set segs. length d \<le> MAX_PAYLOAD_SIZE" using c by (auto simp: tx_contents_def segs_def)
  show nonempty: "\<forall>d \<in> set (butlast segs). d \<noteq> []"
  proof
    fix d assume "d \<in> set (butlast segs)"
    then obtain x where x: "x \<in> set (butlast (tl L))" "d = pay x" by (auto simp: segs_def map_butlast[symmetric])
    then have "x \<in> set (tl L)" "x \<in> set (butlast L)"
      by (auto dest: in_set_butlastD) (metis butlast_tl list.set_sel(2) list.sel(2))
    then show "d \<noteq> []" using c x(2) by (auto simp: tx_contents_def)
  qed
  show "tx_fin_sent tx \<longrightarrow> wf_segs segs \<and> bs_input_ended (tx_stream tx)"
    using c nonempty by (cases L) (auto simp: tx_contents_def wf_segs_def segs_def)
qed

subsection \<open>Properties\<close>

text \<open>
  C4. What the sender puts on the wire: for every sequence of calls on a new sender (writes,
  the end of the input, \<open>fill_window\<close>, acknowledgments with any number and window, ticks,
  empty segments, taking segments from the queue) every call returns, and there is one
  segmentation of the bytes the stream has accepted, up to those it still holds, such that
  every segment taken from the queue, first transmission or retransmission, is the opening
  segment, a piece of that segmentation with its sequence number (at most 1000 bytes, only a
  final one empty, the end mark on the last piece once the end was sent), or an empty segment.
\<close>

theorem sender_segmentation:
  assumes "c < two64" "tx_volume cs < 2 ^ 62"
  shows "\<exists>tx sent accepted segs. tx_run (tx_new rnd c rto isn) cs = Some (tx, sent, accepted) \<and>
    accepted = concat segs @ bs_stream (tx_stream tx) \<and>
    (\<forall>seg \<in> set sent. peer_syn (tx_isn tx) seg \<or>
       (\<exists>k. tx_piece segs (tx_isn tx) (tx_fin_sent tx) k seg) \<or> empty_segment seg) \<and>
    (\<forall>d \<in> set segs. length d \<le> MAX_PAYLOAD_SIZE) \<and> (\<forall>d \<in> set (butlast segs). d \<noteq> []) \<and>
    (tx_fin_sent tx \<longrightarrow> segs \<noteq> [] \<and> bs_input_ended (tx_stream tx))"
proof -
  obtain tx e w L j where r: "tx_run (tx_new rnd c rto isn) cs = Some (tx, e, w)" "tx_good w L j tx"
    "\<forall>x \<in> set e. x \<in> set L \<or> empty_segment x"
    using tx_run_new[OF assms] by metis
  show ?thesis
    using r(1,3) tx_good_pieces[OF r(2)] tx_good_segs[OF r(2)]
    by (intro exI[of _ tx] exI[of _ e] exI[of _ w] exI[of _ "map pay (tl L)"]) (auto simp: wf_segs_def)
qed

theorem sender_segmentation_witness:
  "\<exists>tx sent accepted segs. tx_run (tx_new 0 10 1000 (Some (WrappingInt32 7)))
      [TxFill, TxTake, TxWrite [1, 2, 3], TxAck (WrappingInt32 8) 2, TxEndInput, TxFill, TxTake] = Some (tx, sent, accepted) \<and>
    accepted = concat segs @ bs_stream (tx_stream tx) \<and> (\<forall>d \<in> set segs. length d \<le> MAX_PAYLOAD_SIZE)"
proof -
  have "(10 :: nat) < two64" by (simp add: two64_def)
  from sender_segmentation[OF this, of "[TxFill, TxTake, TxWrite [1, 2, 3], TxAck (WrappingInt32 8) 2,
      TxEndInput, TxFill, TxTake]" 0 1000 "Some (WrappingInt32 7)"]
  show ?thesis by (auto simp del: tx_run.simps)
qed

text \<open>
  C10. The outstanding segments: after every sequence of calls, let \<open>all\<close> be the segments sent
  for the first time so far. They stand in this order among the segments taken from the output
  queue and those still in it, everything else there being a retransmission of one of them or
  an empty segment; they are numbered one after the other from the initial sequence number up
  to \<open>next_seqno\<close>. The sender keeps as outstanding exactly those that end after the last
  acknowledgment it accepted; \<open>bytes_in_flight\<close> is the sum of their lengths in sequence space,
  and the timer runs while there is one.
\<close>

theorem sender_outstanding:
  assumes "c < two64" "tx_volume cs < 2 ^ 62" "tx_run (tx_new rnd c rto isn) cs = Some (tx, sent, accepted)"
  shows "\<exists>all n. subseq all (sent @ tx_segments_out tx) \<and>
    (\<forall>x \<in> set (sent @ tx_segments_out tx). x \<in> set all \<or> empty_segment x) \<and>
    (\<forall>i < length all. th_seqno (ts_header (all ! i)) = wrap (lsum (take i all)) (tx_isn tx)) \<and>
    tx_next_seqno tx = lsum all \<and> tx_confirmed_seqno tx \<le> tx_next_seqno tx \<and>
    tx_outstanding tx = drop n all \<and>
    (\<forall>i < length all. n \<le> i \<longleftrightarrow> tx_confirmed_seqno tx < lsum (take (Suc i) all)) \<and>
    tx_bytes_in_flight tx = lsum (tx_outstanding tx) \<and> (tx_outstanding tx \<noteq> [] \<longrightarrow> tx_timing_begins tx)"
proof -
  obtain L j where good: "tx_good accepted L j tx" and sub: "subseq L (sent @ tx_segments_out tx)"
    and mem: "\<forall>x \<in> set sent. x \<in> set L \<or> empty_segment x"
    using tx_run_new[OF assms(1,2), of rnd rto isn] assms(3) by (metis option.inject prod.inject)
  have q: "tx_queue L j tx" "tx_settled L j tx" and mem': "\<forall>x \<in> set (tx_segments_out tx). x \<in> set L \<or> empty_segment x"
    using good by (auto simp: tx_good_def)
  have mono: "lsum (take a L) \<le> lsum (take b L)" if "a \<le> b" for a b
    using lsum_take_le[of a "take b L"] that by (simp add: min_def)
  have "j \<le> i \<longleftrightarrow> tx_confirmed_seqno tx < lsum (take (Suc i) L)" if "i < length L" for i
  proof
    assume "j \<le> i"
    then show "tx_confirmed_seqno tx < lsum (take (Suc i) L)"
      using q(2) that mono[of "Suc j" "Suc i"] by (simp add: tx_settled_def)
  next
    assume "tx_confirmed_seqno tx < lsum (take (Suc i) L)"
    moreover have "lsum (take j L) \<le> tx_confirmed_seqno tx" using q(1) by (simp add: tx_queue_def)
    ultimately have "\<not> Suc i \<le> j" using mono[of "Suc i" j] by linarith
    then show "j \<le> i" by simp
  qed
  then show ?thesis
    using q sub mem mem' by (intro exI[of _ L] exI[of _ j]) (auto simp: tx_queue_def tx_settled_def numbered_def)
qed

lemmas tx_eval = tx_fill_window_def tx_fill_loop.simps tx_fill_round_def tx_payload_size_def tx_new_def
  tx_send_tcp_segment_def tx_ack_received_def tx_ack_loop.simps tx_front_ackno_def tx_front_size_def
  tx_logical_window_def tx_read_a_segment_def lsp_eq ts_new_def th_new_def MAX_PAYLOAD_SIZE_def
  bs_write_def bs_new_def bs_push_back_def bs_read_def bs_peek_output_def bs_pop_output_def bs_eof_def
  bs_buffer_empty_def u64_sub_def u64_add_def two64_def Let_def wrap_def unwrap_def wi_add_def wi_diff_def

text \<open>The opening segment and the first two bytes are acknowledged, the third is outstanding.\<close>

theorem sender_outstanding_witness:
  "\<exists>tx syn all n. tx_run (tx_new 0 10 1000 (Some (WrappingInt32 7)))
       [TxFill, TxTake, TxWrite [1, 2, 3], TxAck (WrappingInt32 8) 2, TxAck (WrappingInt32 10) 2] =
       Some (tx, [syn], [1, 2, 3]) \<and>
     tx_confirmed_seqno tx = 3 \<and> map pay (tx_segments_out tx) = [[1, 2], [3]] \<and> map pay (tx_outstanding tx) = [[3]] \<and>
     subseq all (syn # tx_segments_out tx) \<and> tx_outstanding tx = drop n all \<and> lsum all = 4"
proof -
  have 1: "(10 :: nat) < two64" by (simp add: two64_def)
  let ?cs = "[TxFill, TxTake, TxWrite [1, 2, 3], TxAck (WrappingInt32 8) 2, TxAck (WrappingInt32 10) 2]"
  have "\<exists>tx syn. tx_run (tx_new 0 10 1000 (Some (WrappingInt32 7))) ?cs = Some (tx, [syn], [1, 2, 3]) \<and>
      tx_confirmed_seqno tx = 3 \<and> tx_next_seqno tx = 4 \<and>
      map pay (tx_segments_out tx) = [[1, 2], [3]] \<and> map pay (tx_outstanding tx) = [[3]]"
    by (simp add: tx_eval)
  then obtain tx syn where tx: "tx_run (tx_new 0 10 1000 (Some (WrappingInt32 7))) ?cs = Some (tx, [syn], [1, 2, 3])"
    "tx_confirmed_seqno tx = 3" "tx_next_seqno tx = 4"
    "map pay (tx_segments_out tx) = [[1, 2], [3]]" "map pay (tx_outstanding tx) = [[3]]"
    by (elim exE conjE) (rule that; assumption)
  have 2: "tx_volume ?cs < 2 ^ 62" by simp
  obtain all n where "subseq all (syn # tx_segments_out tx)" "tx_outstanding tx = drop n all" "lsum all = 4"
    using sender_outstanding[OF 1 2 tx(1)] tx(3) by auto
  then show ?thesis
    using tx by (intro exI[of _ tx] exI[of _ syn] exI[of _ all] exI[of _ n]) (simp del: tx_run.simps)
qed

text \<open>
  C6. \<open>fill_window\<close> in every state a sender can reach: it returns; the new segments go both to
  the output queue and behind the outstanding ones; no sequence number at or beyond the
  acknowledged one plus the window (a window of 0 counts as 1) is used that was not used
  before; and, once the connection is opened, it stops only when the end of the stream was
  sent, or the window is full, or the stream is empty and not ended.
\<close>

theorem sender_fill_window:
  assumes "c < two64" "tx_volume cs < 2 ^ 62" "tx_run (tx_new rnd c rto isn) cs = Some (tx, sent, accepted)"
  shows "\<exists>tx' new. tx_fill_window tx = Some tx' \<and>
    tx_segments_out tx' = tx_segments_out tx @ new \<and> tx_outstanding tx' = tx_outstanding tx @ new \<and>
    tx_next_seqno tx' \<le> max (tx_next_seqno tx) (tx_confirmed_seqno tx + max 1 (unat (tx_receiver_window tx))) \<and>
    (tx_next_seqno tx \<noteq> 0 \<longrightarrow> tx_fin_sent tx' \<or>
       tx_confirmed_seqno tx + max 1 (unat (tx_receiver_window tx)) \<le> tx_next_seqno tx' \<or>
       bs_buffer_empty (tx_stream tx') \<and> \<not> bs_input_ended (tx_stream tx'))"
proof -
  obtain L j where good: "tx_good accepted L j tx" "length accepted < 2 ^ 62"
    using tx_run_new[OF assms(1,2), of rnd rto isn] assms(3) by (metis option.inject prod.inject)
  obtain tx' M where M: "tx_fill_window tx = Some tx'" "tx_good accepted (L @ M) j tx'"
    "tx_segments_out tx' = tx_segments_out tx @ M" "same_peer tx tx'"
    "lsum (L @ M) \<le> max (lsum L) (tx_confirmed_seqno tx + max 1 (unat (tx_receiver_window tx)))"
    "L \<noteq> [] \<longrightarrow> tx_filled tx'"
    using tx_fill_window_good[OF good] by blast
  have q: "tx_queue L j tx" "tx_queue (L @ M) j tx'" using good M(2) by (auto simp: tx_good_def)
  have "tx_outstanding tx' = tx_outstanding tx @ M" using q by (simp add: tx_queue_def)
  moreover have "tx_next_seqno tx = lsum L" "tx_next_seqno tx' = lsum (L @ M)"
    using q by (simp_all add: tx_queue_def)
  ultimately show ?thesis
    using M tx_queue_started[OF q(1)] unfolding tx_filled_def same_peer_def
    by (intro exI[of _ tx'] exI[of _ M]) auto
qed

theorem sender_fill_window_witness:
  "\<exists>tx sent tx' new. tx_run (tx_new 0 10 1000 (Some (WrappingInt32 7)))
       [TxFill, TxTake, TxAck (WrappingInt32 8) 2, TxWrite [1, 2, 3]] = Some (tx, sent, [1, 2, 3]) \<and>
     tx_fill_window tx = Some tx' \<and> tx_segments_out tx' = tx_segments_out tx @ new \<and>
     tx_outstanding tx' = tx_outstanding tx @ new \<and> map pay new = [[1, 2]] \<and> tx_next_seqno tx' = 3"
proof -
  have 1: "(10 :: nat) < two64" by (simp add: two64_def)
  let ?cs = "[TxFill, TxTake, TxAck (WrappingInt32 8) 2, TxWrite [1, 2, 3]]"
  have "\<exists>tx sent tx'. tx_run (tx_new 0 10 1000 (Some (WrappingInt32 7))) ?cs = Some (tx, sent, [1, 2, 3]) \<and>
      tx_fill_window tx = Some tx' \<and> tx_confirmed_seqno tx = 1 \<and> tx_receiver_window tx = 2 \<and> tx_next_seqno tx = 1 \<and>
      tx_segments_out tx = [] \<and> map pay (tx_segments_out tx') = [[1, 2]] \<and> bs_buffer_size (tx_stream tx') = 1 \<and>
      \<not> bs_buffer_empty (tx_stream tx') \<and> \<not> tx_fin_sent tx'"
    by (simp add: tx_eval)
  then obtain tx sent tx' where tx: "tx_run (tx_new 0 10 1000 (Some (WrappingInt32 7))) ?cs = Some (tx, sent, [1, 2, 3])"
      "tx_fill_window tx = Some tx'" "tx_confirmed_seqno tx = 1" "tx_receiver_window tx = 2" "tx_next_seqno tx = 1"
      "tx_segments_out tx = []" "map pay (tx_segments_out tx') = [[1, 2]]"
      "\<not> bs_buffer_empty (tx_stream tx')" "\<not> tx_fin_sent tx'"
    by (elim exE conjE) (rule that; assumption)
  have 2: "tx_volume ?cs < 2 ^ 62" by simp
  obtain new where "tx_segments_out tx' = tx_segments_out tx @ new" "tx_outstanding tx' = tx_outstanding tx @ new"
      "tx_next_seqno tx' \<le> 3" "3 \<le> tx_next_seqno tx'"
    using sender_fill_window[OF 1 2 tx(1)] tx(2-5,8,9) by auto
  then show ?thesis using tx by (intro exI[of _ tx] exI[of _ sent] exI[of _ tx'] exI[of _ new]) auto
qed

primrec tx_timeouts :: "nat \<Rightarrow> TCPSender \<Rightarrow> TCPSender" where
  "tx_timeouts 0 tx = tx"
| "tx_timeouts (Suc n) tx = tx_timeouts n (tx_tick tx (unat (tx_applying_rto tx)))"

text \<open>Whether an expiry counts: the peer's window is open, or the segment opens the connection.\<close>

definition tx_backs_off :: "TCPSender \<Rightarrow> TCPSegment \<Rightarrow> bool" where
  "tx_backs_off tx seg \<longleftrightarrow> tx_receiver_window tx > 0 \<or> th_syn (ts_header seg)"

lemma tx_tick_expired:
  assumes "tx_timing_begins tx" "tx_outstanding tx = seg # rest"
    and "unat (tx_applying_rto tx) \<le> tx_last_tick_time tx + ms" "tx_last_tick_time tx + ms < two64"
  shows "tx_tick tx ms = tx\<lparr>tx_segments_out := tx_segments_out tx @ [seg], tx_last_tick_time := 0,
    tx_consecutive := tx_consecutive tx + (if tx_backs_off tx seg then 1 else 0),
    tx_applying_rto := tx_applying_rto tx * (if tx_backs_off tx seg then 2 else 1)\<rparr>"
  using assms by (simp add: tx_tick_def Let_def u64_add_exact tx_backs_off_def)



end
