(* ===== verification/TCP_State.thy ===== *)
theory TCP_State
  imports TCP_Sender TCP_Receiver
begin

text \<open>
  The state summary of a connection (\<open>libsponge/tcp_helpers/tcp_state.hh\<close> and
  \<open>tcp_state.cc\<close>): what the sender and the receiver are doing, in words, and the summaries
  that belong to the official states of the protocol.
\<close>

subsection \<open>Summaries of the two halves\<close>

definition RX_ERROR :: string where
  "RX_ERROR = ''error (connection was reset)''"

definition RX_LISTEN :: string where
  "RX_LISTEN = ''waiting for SYN: ackno is empty''"

definition RX_SYN_RECV :: string where
  "RX_SYN_RECV = ''SYN received (ackno exists), and input to stream hasn'' @ [CHR 0x27] @ ''t ended''"

definition RX_FIN_RECV :: string where
  "RX_FIN_RECV = ''input to stream has ended''"

definition TX_ERROR :: string where
  "TX_ERROR = ''error (connection was reset)''"

definition TX_CLOSED :: string where
  "TX_CLOSED = ''waiting for stream to begin (no SYN sent)''"

definition TX_SYN_SENT :: string where
  "TX_SYN_SENT = ''stream started but nothing acknowledged''"

definition TX_SYN_ACKED :: string where
  "TX_SYN_ACKED = ''stream ongoing''"

definition TX_FIN_SENT :: string where
  "TX_FIN_SENT = ''stream finished (FIN sent) but not fully acknowledged''"

definition TX_FIN_ACKED :: string where
  "TX_FIN_ACKED = ''stream finished and fully acknowledged''"

definition rx_summary :: "TCPReceiver \<Rightarrow> string" where
  "rx_summary rx =
     (if bs_error (tr_stream_out rx) then RX_ERROR
      else if tr_ackno rx = None then RX_LISTEN
      else if bs_input_ended (tr_stream_out rx) then RX_FIN_RECV
      else RX_SYN_RECV)"

definition tx_summary :: "TCPSender \<Rightarrow> string" where
  "tx_summary tx =
     (if bs_error (tx_stream tx) then TX_ERROR
      else if tx_next_seqno tx = 0 then TX_CLOSED
      else if tx_next_seqno tx = tx_bytes_in_flight tx then TX_SYN_SENT
      else if \<not> bs_eof (tx_stream tx) then TX_SYN_ACKED
      else if tx_next_seqno tx < u64_add (bs_bytes_written (tx_stream tx)) 2 then TX_SYN_ACKED
      else if tx_bytes_in_flight tx \<noteq> 0 then TX_FIN_SENT
      else TX_FIN_ACKED)"

subsection \<open>States\<close>

record TCPState =
  st_sender :: string
  st_receiver :: string
  st_active :: bool
  st_linger :: bool

datatype State =
    LISTEN | SYN_RCVD | SYN_SENT | ESTABLISHED | CLOSE_WAIT | LAST_ACK | FIN_WAIT_1
  | FIN_WAIT_2 | CLOSING | TIME_WAIT | CLOSED | RESET

definition st_of_state :: "State \<Rightarrow> TCPState" where
  "st_of_state s =
     (let st = (\<lambda>rx tx act lin. \<lparr>st_sender = tx, st_receiver = rx, st_active = act, st_linger = lin\<rparr>) in
      case s of
        LISTEN \<Rightarrow> st RX_LISTEN TX_CLOSED True True
      | SYN_RCVD \<Rightarrow> st RX_SYN_RECV TX_SYN_SENT True True
      | SYN_SENT \<Rightarrow> st RX_LISTEN TX_SYN_SENT True True
      | ESTABLISHED \<Rightarrow> st RX_SYN_RECV TX_SYN_ACKED True True
      | CLOSE_WAIT \<Rightarrow> st RX_FIN_RECV TX_SYN_ACKED True False
      | LAST_ACK \<Rightarrow> st RX_FIN_RECV TX_FIN_SENT True False
      | CLOSING \<Rightarrow> st RX_FIN_RECV TX_FIN_SENT True True
      | FIN_WAIT_1 \<Rightarrow> st RX_SYN_RECV TX_FIN_SENT True True
      | FIN_WAIT_2 \<Rightarrow> st RX_SYN_RECV TX_FIN_ACKED True True
      | TIME_WAIT \<Rightarrow> st RX_FIN_RECV TX_FIN_ACKED True True
      | RESET \<Rightarrow> st RX_ERROR TX_ERROR False False
      | CLOSED \<Rightarrow> st RX_FIN_RECV TX_FIN_ACKED False False)"

definition st_of_parts :: "TCPSender \<Rightarrow> TCPReceiver \<Rightarrow> bool \<Rightarrow> bool \<Rightarrow> TCPState" where
  "st_of_parts tx rx active linger =
     \<lparr>st_sender = tx_summary tx, st_receiver = rx_summary rx, st_active = active,
      st_linger = (if active then linger else False)\<rparr>"

definition st_equal :: "TCPState \<Rightarrow> TCPState \<Rightarrow> bool" where
  "st_equal a b \<longleftrightarrow> st_active a = st_active b \<and> st_linger a = st_linger b \<and>
     st_sender a = st_sender b \<and> st_receiver a = st_receiver b"

definition bool_to_string :: "bool \<Rightarrow> string" where
  "bool_to_string b = (if b then ''1'' else ''0'')"

definition st_name :: "TCPState \<Rightarrow> string" where
  "st_name st =
     ''sender=`'' @ st_sender st @ ''`, receiver=`'' @ st_receiver st @ ''`, active='' @
     bool_to_string (st_active st) @ '', linger_after_streams_finish='' @ bool_to_string (st_linger st)"

subsection \<open>The official states are told apart\<close>

text \<open>Every official state has its own summary, so comparing summaries compares states.\<close>

lemma st_of_state_inject: "st_of_state a = st_of_state b \<longleftrightarrow> a = b"
  by (cases a; cases b) (simp_all add: st_of_state_def Let_def RX_ERROR_def RX_LISTEN_def RX_SYN_RECV_def
      RX_FIN_RECV_def TX_ERROR_def TX_CLOSED_def TX_SYN_SENT_def TX_SYN_ACKED_def TX_FIN_SENT_def TX_FIN_ACKED_def)

lemma st_equal_iff: "st_equal a b \<longleftrightarrow> a = b"
  by (auto simp: st_equal_def)

end
