(* ===== verification/TCP_Connection.thy ===== *)
theory TCP_Connection
  imports Sender_Invariant TCP_State
begin

text \<open>
  The connection (\<open>libsponge/tcp_connection.hh\<close> and \<open>tcp_connection.cc\<close>): a sender and a
  receiver joined. Arriving segments go to both halves, outgoing segments are stamped with the
  receiver's acknowledgment number and window. A handler that does not return (because the
  reassembler or the sender does not) has the value \<open>None\<close>.
\<close>

subsection \<open>State\<close>

record TCPConnection =
  tc_cfg :: TCPConfig
  tc_receiver :: TCPReceiver
  tc_sender :: TCPSender
  tc_segments_out :: "TCPSegment list"
  tc_linger :: bool
  tc_active :: bool
  tc_last_tick_time :: u64

definition tc_new :: "32 word \<Rightarrow> TCPConfig \<Rightarrow> TCPConnection" where
  "tc_new random cfg =
     \<lparr>tc_cfg = cfg, tc_receiver = tr_new (cfg_recv_capacity cfg),
      tc_sender = tx_new random (cfg_send_capacity cfg) (cfg_rt_timeout cfg) (cfg_fixed_isn cfg),
      tc_segments_out = [], tc_linger = True, tc_active = True, tc_last_tick_time = 0\<rparr>"

definition tc_check_inbound_ended :: "TCPConnection \<Rightarrow> bool" where
  "tc_check_inbound_ended tc \<longleftrightarrow>
     tr_unassembled_bytes (tc_receiver tc) = 0 \<and> bs_input_ended (tr_stream_out (tc_receiver tc))"

definition tc_check_outbound_ended :: "TCPConnection \<Rightarrow> bool" where
  "tc_check_outbound_ended tc \<longleftrightarrow>
     (let tx = tc_sender tc in
      bs_eof (tx_stream tx) \<and> tx_next_seqno tx = u64_add (bs_bytes_written (tx_stream tx)) 2 \<and>
      tx_bytes_in_flight tx = 0)"

definition tc_state :: "TCPConnection \<Rightarrow> TCPState" where
  "tc_state tc = st_of_parts (tc_sender tc) (tc_receiver tc) (tc_active tc) (tc_linger tc)"

subsection \<open>Handlers\<close>

definition tc_stamp :: "TCPReceiver \<Rightarrow> TCPSegment \<Rightarrow> TCPSegment" where
  "tc_stamp rx seg =
     (let h = ts_header seg;
          h1 = (case tr_ackno rx of None \<Rightarrow> h | Some a \<Rightarrow> h\<lparr>th_ack := True, th_ackno := a\<rparr>)
      in seg\<lparr>ts_header := h1\<lparr>th_win := of_nat (tr_window_size rx)\<rparr>\<rparr>)"

text \<open>The loop empties the sender's queue from the front; it returns whether there was anything.\<close>

function tc_drain :: "bool \<Rightarrow> TCPConnection \<Rightarrow> bool \<times> TCPConnection" where
  "tc_drain has_sent tc =
     (case tx_read_a_segment (tc_sender tc) of
        None \<Rightarrow> (has_sent, tc)
      | Some (seg, tx) \<Rightarrow>
          tc_drain True (tc\<lparr>tc_sender := tx,
            tc_segments_out := tc_segments_out tc @ [tc_stamp (tc_receiver tc) seg]\<rparr>))"
  by pat_completeness auto
termination
  by (relation "measure (\<lambda>(_, tc). length (tx_segments_out (tc_sender tc)))")
    (auto simp: tx_read_a_segment_def split: list.splits)

declare tc_drain.simps [simp del]

definition tc_send_segments_out :: "TCPConnection \<Rightarrow> bool \<times> TCPConnection" where
  "tc_send_segments_out tc = tc_drain False tc"

definition tc_fill_and_send :: "TCPConnection \<Rightarrow> (bool \<times> TCPConnection) option" where
  "tc_fill_and_send tc =
     map_option (\<lambda>tx. tc_send_segments_out (tc\<lparr>tc_sender := tx\<rparr>)) (tx_fill_window (tc_sender tc))"

definition tc_set_errors :: "TCPConnection \<Rightarrow> TCPConnection" where
  "tc_set_errors tc = tc
     \<lparr>tc_sender := (tc_sender tc)\<lparr>tx_stream := bs_set_error (tx_stream (tc_sender tc))\<rparr>,
      tc_receiver := (tc_receiver tc)\<lparr>tr_reassembler := (tr_reassembler (tc_receiver tc))
        \<lparr>sr_output := bs_set_error (tr_stream_out (tc_receiver tc))\<rparr>\<rparr>\<rparr>"

text \<open>The two parts of \<open>segment_received\<close> after the receiver: an acknowledgment, and the reply
  to a segment that occupies sequence numbers.\<close>

definition tc_handle_ack :: "TCPConnection \<Rightarrow> TCPSegment \<Rightarrow> TCPConnection option" where
  "tc_handle_ack tc seg =
     (if th_ack (ts_header seg)
      then map_option (\<lambda>tx. snd (tc_send_segments_out (tc\<lparr>tc_sender := tx\<rparr>)))
             (tx_ack_received (tc_sender tc) (th_ackno (ts_header seg)) (th_win (ts_header seg)))
      else Some tc)"

definition tc_reply :: "TCPConnection \<Rightarrow> TCPSegment \<Rightarrow> TCPConnection option" where
  "tc_reply tc seg =
     (if ts_length_in_sequence_space seg > 0
      then map_option (\<lambda>(is_sent, tc1).
             if \<not> is_sent
             then snd (tc_send_segments_out (tc1\<lparr>tc_sender := tx_send_empty_segment (tc_sender tc1)\<rparr>))
             else tc1) (tc_fill_and_send tc)
      else Some tc)"

definition tc_segment_received :: "TCPConnection \<Rightarrow> TCPSegment \<Rightarrow> TCPConnection option" where
  "tc_segment_received tc0 seg =
     (let tc = tc0\<lparr>tc_last_tick_time := 0\<rparr> in
      if th_rst (ts_header seg) then Some ((tc_set_errors tc)\<lparr>tc_active := False\<rparr>)
      else
        (case tr_segment_received (tc_receiver tc) seg of
           None \<Rightarrow> None
         | Some rx \<Rightarrow>
             let tc1 = tc\<lparr>tc_receiver := rx\<rparr>;
                 tc2 = (if tc_check_inbound_ended tc1 \<and> \<not> bs_eof (tx_stream (tc_sender tc1))
                        then tc1\<lparr>tc_linger := False\<rparr> else tc1)
             in (case tc_handle_ack tc2 seg of None \<Rightarrow> None | Some tc3 \<Rightarrow> tc_reply tc3 seg)))"

definition tc_write :: "TCPConnection \<Rightarrow> bytes \<Rightarrow> (u64 \<times> TCPConnection) option" where
  "tc_write tc data =
     (if length data = 0 then Some (0, tc)
      else
        let (result, stream') = bs_write (tx_stream (tc_sender tc)) data;
            tc1 = tc\<lparr>tc_sender := (tc_sender tc)\<lparr>tx_stream := stream'\<rparr>\<rparr>
        in map_option (\<lambda>(_, tc2). (result, tc2)) (tc_fill_and_send tc1))"

definition tc_end_input_stream :: "TCPConnection \<Rightarrow> TCPConnection option" where
  "tc_end_input_stream tc =
     map_option snd (tc_fill_and_send
       (tc\<lparr>tc_sender := (tc_sender tc)\<lparr>tx_stream := bs_end_input (tx_stream (tc_sender tc))\<rparr>\<rparr>))"

definition tc_connect :: "TCPConnection \<Rightarrow> TCPConnection option" where
  "tc_connect tc = map_option snd (tc_fill_and_send tc)"

text \<open>Sending a reset: an empty segment is queued, taken from the front of the sender's queue,
  marked and handled as if it had arrived.\<close>

definition tc_send_rst :: "TCPConnection \<Rightarrow> TCPConnection option" where
  "tc_send_rst tc =
     (case tx_read_a_segment (tx_send_empty_segment (tc_sender tc)) of
        None \<Rightarrow> None
      | Some (seg0, tx) \<Rightarrow>
          let seg = seg0\<lparr>ts_header := (ts_header seg0)\<lparr>th_rst := True\<rparr>\<rparr>
          in tc_segment_received
               (tc\<lparr>tc_sender := tx, tc_segments_out := tc_segments_out tc @ [seg]\<rparr>) seg)"

definition tc_tick :: "TCPConnection \<Rightarrow> u64 \<Rightarrow> TCPConnection option" where
  "tc_tick tc0 ms_since_last_tick =
     (let tc = tc0\<lparr>tc_last_tick_time := u64_add (tc_last_tick_time tc0) ms_since_last_tick,
                   tc_sender := tx_tick (tc_sender tc0) ms_since_last_tick\<rparr>;
          tc1 = snd (tc_send_segments_out tc)
      in
      case (if (ucast (tx_consecutive (tc_sender tc1)) :: 32 word) > MAX_RETX_ATTEMPTS
            then tc_send_rst (tc1\<lparr>tc_segments_out := []\<rparr>) else Some tc1) of
        None \<Rightarrow> None
      | Some tc2 \<Rightarrow>
          Some (if tc_check_inbound_ended tc2 \<and> tc_check_outbound_ended tc2
                then tc2\<lparr>tc_active := (\<not> (\<not> tc_linger tc2 \<or>
                            tc_last_tick_time tc2 \<ge> 10 * unat (cfg_rt_timeout (tc_cfg tc2))))\<rparr>
                else tc2))"

text \<open>The destructor: an active connection sends a reset. The state it leaves behind is returned.\<close>

definition tc_destroy :: "TCPConnection \<Rightarrow> TCPConnection option" where
  "tc_destroy tc = (if tc_active tc then tc_send_rst tc else Some tc)"

definition tc_remaining_outbound_capacity :: "TCPConnection \<Rightarrow> u64" where
  "tc_remaining_outbound_capacity tc = bs_remaining_capacity (tx_stream (tc_sender tc))"

definition tc_bytes_in_flight :: "TCPConnection \<Rightarrow> u64" where
  "tc_bytes_in_flight tc = tx_bytes_in_flight (tc_sender tc)"

definition tc_unassembled_bytes :: "TCPConnection \<Rightarrow> u64" where
  "tc_unassembled_bytes tc = tr_unassembled_bytes (tc_receiver tc)"

subsection \<open>Emptying the queue\<close>

lemma tc_drain_eq:
  "tc_drain b tc = (b \<or> tx_segments_out (tc_sender tc) \<noteq> [],
     tc\<lparr>tc_sender := (tc_sender tc)\<lparr>tx_segments_out := []\<rparr>,
        tc_segments_out := tc_segments_out tc @ map (tc_stamp (tc_receiver tc)) (tx_segments_out (tc_sender tc))\<rparr>)"
proof (induction "tx_segments_out (tc_sender tc)" arbitrary: b tc)
  case Nil
  then show ?case by (subst tc_drain.simps) (simp add: tx_read_a_segment_def)
next
  case (Cons s rest)
  let ?tc = "tc\<lparr>tc_sender := (tc_sender tc)\<lparr>tx_segments_out := rest\<rparr>,
      tc_segments_out := tc_segments_out tc @ [tc_stamp (tc_receiver tc) s]\<rparr>"
  have "tc_drain b tc = tc_drain True ?tc"
    using Cons.hyps(2) by (subst tc_drain.simps) (simp add: tx_read_a_segment_def flip: Cons.hyps(2))
  also have "\<dots> = (True, ?tc\<lparr>tc_sender := (tc_sender ?tc)\<lparr>tx_segments_out := []\<rparr>,
      tc_segments_out := tc_segments_out ?tc @ map (tc_stamp (tc_receiver ?tc)) (tx_segments_out (tc_sender ?tc))\<rparr>)"
    using Cons.hyps(1)[of ?tc True] by simp
  finally show ?case by (simp flip: Cons.hyps(2))
qed

lemmas tc_send_eq = tc_send_segments_out_def tc_drain_eq

subsection \<open>Opening a connection\<close>

text \<open>The sender after its opening segment was taken from the queue, and after that segment was
  acknowledged.\<close>

definition tx_opened :: "WrappingInt32 \<Rightarrow> u64 \<Rightarrow> 16 word \<Rightarrow> TCPSender" where
  "tx_opened isn cap rto = (tx_new 0 cap rto (Some isn))
     \<lparr>tx_outstanding := [ts_new\<lparr>ts_header := th_new\<lparr>th_seqno := isn, th_syn := True\<rparr>\<rparr>],
      tx_next_seqno := 1, tx_bytes_in_flight := 1, tx_timing_begins := True\<rparr>"

definition tx_established :: "WrappingInt32 \<Rightarrow> u64 \<Rightarrow> 16 word \<Rightarrow> 16 word \<Rightarrow> TCPSender" where
  "tx_established isn cap rto win = (tx_new 0 cap rto (Some isn))
     \<lparr>tx_next_seqno := 1, tx_confirmed_seqno := 1, tx_receiver_window := win\<rparr>"

definition opening_segment :: "WrappingInt32 \<Rightarrow> TCPSegment" where
  "opening_segment isn = ts_new\<lparr>ts_header := th_new\<lparr>th_seqno := isn, th_syn := True\<rparr>\<rparr>"

lemma tx_new_fixed: "tx_new rnd cap rto fi = tx_new 0 cap rto (Some (case fi of Some i \<Rightarrow> i | None \<Rightarrow> WrappingInt32 rnd))"
  by (simp add: tx_new_def)

lemma u64_small [simp]: "u64_add 0 1 = 1" "u64_add 0 (Suc 0) = Suc 0" "u64_sub (Suc 0) (Suc 0) = 0" "u64_add (Suc 0) (Suc 0) = 2"
  by (simp_all add: u64_add_def u64_sub_def two64_def)

lemma lsp_opening: "ts_length_in_sequence_space (opening_segment isn) = 1"
  by (simp add: opening_segment_def ts_length_in_sequence_space_def ts_new_def th_new_def buf_size_def)

lemma tx_fill_open:
  "tx_fill_window (tx_new 0 cap rto (Some isn)) =
     Some ((tx_opened isn cap rto)\<lparr>tx_segments_out := [opening_segment isn]\<rparr>)"
proof -
  have "ts_length_in_sequence_space (ts_new\<lparr>ts_header := th_new\<lparr>th_syn := True, th_seqno := isn\<rparr>\<rparr>) = Suc 0"
    by (simp add: ts_length_in_sequence_space_def ts_new_def th_new_def buf_size_def)
  then show ?thesis
    by (simp add: tx_fill_window_def tx_send_tcp_segment_def tx_new_def tx_opened_def Let_def opening_segment_def)
qed

lemma tx_fill_established:
  assumes "cap < two64"
  shows "tx_fill_window (tx_established isn cap rto win) = Some (tx_established isn cap rto win)"
proof -
  let ?tx = "tx_established isn cap rto win"
  have "unat (tx_logical_window ?tx) \<le> 65535" "1 \<le> unat (tx_logical_window ?tx)"
    using tx_logical_window_nat[of ?tx] by simp_all
  then have "\<not> u64_add (tx_confirmed_seqno ?tx) (unat (tx_logical_window ?tx)) \<le> tx_next_seqno ?tx"
    by (simp add: tx_established_def u64_add_exact two64_def)
  then show ?thesis
    by (simp add: tx_fill_window_def tx_fill_loop.simps)
      (simp add: tx_established_def tx_new_def bs_eof_def bs_buffer_empty_def bs_new_def Let_def)
qed

lemma tx_ack_open:
  assumes "cap < two64"
  shows "tx_ack_received (tx_opened isn cap rto) (wrap 1 isn) win = Some (tx_established isn cap rto win)"
proof -
  let ?tx = "(tx_opened isn cap rto)\<lparr>tx_confirmed_seqno := 1, tx_receiver_window := win\<rparr>"
  have u1: "unwrap (wrap 1 isn) isn 1 = 1" by (rule seqs.recover_self) simp
  have u0: "unwrap isn isn 1 = 0" using seqs.recover_behind[of 1 0 isn] by simp
  have f: "tx_front_ackno ?tx = 1" "tx_front_size ?tx = 1" "tx_outstanding ?tx \<noteq> []"
    using lsp_opening[of isn] u0
    by (simp_all add: tx_front_ackno_def tx_front_size_def tx_opened_def tx_new_def opening_segment_def)
  let ?tx2 = "?tx\<lparr>tx_applying_rto := tx_initial_rto ?tx, tx_consecutive := 0, tx_last_tick_time := 0,
      tx_bytes_in_flight := 0, tx_outstanding := []\<rparr>"
  have fs: "tx_front_size (?tx\<lparr>tx_applying_rto := tx_initial_rto ?tx, tx_consecutive := 0, tx_last_tick_time := 0\<rparr>) = 1"
    using f(2) by (simp add: tx_front_size_def)
  have "tx_ack_loop 1 False ?tx = tx_ack_loop 1 True ?tx2"
    using f fs by (subst tx_ack_loop.simps) (simp add: Let_def tx_opened_def)
  also have "\<dots> = (False, True, ?tx2)" by (subst tx_ack_loop.simps) simp
  finally have l: "tx_ack_loop 1 False ?tx = (False, True, ?tx2)" .
  have e: "?tx2\<lparr>tx_timing_begins := False\<rparr> = tx_established isn cap rto win"
    by (simp add: tx_opened_def tx_established_def tx_new_def)
  have f2: "tx_fill_window ?tx2 = Some ?tx2"
  proof -
    have "unat (tx_logical_window ?tx2) \<le> 65535" "1 \<le> unat (tx_logical_window ?tx2)"
      using tx_logical_window_nat[of ?tx2] by simp_all
    then have "\<not> u64_add (tx_confirmed_seqno ?tx2) (unat (tx_logical_window ?tx2)) \<le> tx_next_seqno ?tx2"
      by (simp add: tx_opened_def u64_add_exact two64_def)
    then show ?thesis
      by (simp add: tx_fill_window_def tx_fill_loop.simps)
        (simp add: tx_opened_def tx_new_def bs_eof_def bs_buffer_empty_def bs_new_def Let_def)
  qed
  have "tx_ack_received (tx_opened isn cap rto) (wrap 1 isn) win =
      map_option (\<lambda>tx3. tx3\<lparr>tx_timing_begins := (tx_outstanding tx3 \<noteq> [])\<rparr>) (tx_fill_window ?tx2)"
    using u1 l by (simp add: tx_ack_received_def Let_def tx_opened_def tx_new_def)
  then show ?thesis using e unfolding f2 by simp
qed

text \<open>The same for the receiver: after the opening segment, and an empty segment after it.\<close>

definition tr_opened :: "WrappingInt32 \<Rightarrow> u64 \<Rightarrow> TCPReceiver" where
  "tr_opened isn cap = (tr_new cap)\<lparr>tr_first_segment := False, tr_ISN := isn, tr_abs_seqno := 1\<rparr>"

lemma tr_receive_opening:
  assumes "cap < two64" "peer_syn isn seg"
  shows "tr_segment_received (tr_new cap) seg = Some (tr_opened isn cap)"
  using first_segment_syn[OF _ assms(2), of "tr_new cap" cap] assms(1) by (simp add: tr_opened_def tr_new_def)

lemma tr_receive_empty:
  assumes "cap < two64" "th_seqno (ts_header seg) = wrap 1 isn" "\<not> th_fin (ts_header seg)" "buf_str (ts_payload seg) = []"
  shows "tr_segment_received (tr_opened isn cap) seg = Some (tr_opened isn cap)"
proof -
  have u: "unwrap (th_seqno (ts_header seg)) (tr_ISN (tr_opened isn cap)) (tr_abs_seqno (tr_opened isn cap)) = 1"
    using seqs.recover_self[of 1 isn] assms(2) by (simp add: tr_opened_def)
  have "push_substring (sr_new cap) [] 0 False = Some (sr_new cap)"
    using bs_inv_new[OF assms(1)] by (intro push_empty_here) (auto simp: sr_new_def)
  then show ?thesis
    using tr_segment_received_later[OF _ u] assms(3,4)
    by (simp add: tr_opened_def tr_new_def tr_settle_def tr_stream_out_def sr_new_def bs_new_def)
qed

lemma tr_opened_view:
  "tr_ackno (tr_opened isn cap) = Some (wrap 1 isn)" "tr_unassembled_bytes (tr_opened isn cap) = 0"
  "bs_input_ended (tr_stream_out (tr_opened isn cap)) = False" "bs_error (tr_stream_out (tr_opened isn cap)) = False"
  by (simp_all add: tr_opened_def tr_ackno_def tr_unassembled_bytes_def sr_unassembled_def tr_stream_out_def
      tr_new_def sr_new_def bs_new_def)

lemma tr_new_view:
  "tr_ackno (tr_new cap) = None" "bs_error (tr_stream_out (tr_new cap)) = False"
  by (simp_all add: tr_ackno_def tr_new_def tr_stream_out_def sr_new_def bs_new_def)

lemma tc_stamp_simps [simp]:
  "ts_payload (tc_stamp rx seg) = ts_payload seg" "th_syn (ts_header (tc_stamp rx seg)) = th_syn (ts_header seg)"
  "th_fin (ts_header (tc_stamp rx seg)) = th_fin (ts_header seg)" "th_rst (ts_header (tc_stamp rx seg)) = th_rst (ts_header seg)"
  "th_seqno (ts_header (tc_stamp rx seg)) = th_seqno (ts_header seg)"
  "ts_length_in_sequence_space (tc_stamp rx seg) = ts_length_in_sequence_space seg"
  "th_win (ts_header (tc_stamp rx seg)) = of_nat (tr_window_size rx)"
  "tr_ackno rx = Some a \<Longrightarrow> th_ack (ts_header (tc_stamp rx seg)) \<and> th_ackno (ts_header (tc_stamp rx seg)) = a"
  "tr_ackno rx = None \<Longrightarrow> th_ack (ts_header (tc_stamp rx seg)) = th_ack (ts_header seg)"
  by (simp_all add: tc_stamp_def Let_def ts_length_in_sequence_space_def split: option.splits)

lemma opening_segment_simps [simp]:
  "th_syn (ts_header (opening_segment isn))" "\<not> th_fin (ts_header (opening_segment isn))"
  "\<not> th_rst (ts_header (opening_segment isn))" "\<not> th_ack (ts_header (opening_segment isn))"
  "th_seqno (ts_header (opening_segment isn)) = isn" "buf_str (ts_payload (opening_segment isn)) = []"
  by (simp_all add: opening_segment_def ts_new_def th_new_def)

lemma tx_opened_view:
  "tx_segments_out (tx_opened isn cap rto) = []" "bs_eof (tx_stream (tx_opened isn cap rto)) = False"
  "tx_isn (tx_opened isn cap rto) = isn" "tx_next_seqno (tx_opened isn cap rto) = 1"
  "tx_segments_out (tx_established isn cap rto w) = []" "bs_eof (tx_stream (tx_established isn cap rto w)) = False"
  "tx_isn (tx_established isn cap rto w) = isn" "tx_next_seqno (tx_established isn cap rto w) = 1"
  "tx_summary (tx_opened isn cap rto) = TX_SYN_SENT" "tx_summary (tx_established isn cap rto w) = TX_SYN_ACKED"
  by (simp_all add: tx_opened_def tx_established_def tx_new_def bs_eof_def bs_buffer_empty_def bs_new_def tx_summary_def)

subsection \<open>The steps of the handshake\<close>

text \<open>A connection in its initial configuration with a given sender, receiver and output queue.\<close>

definition tc_with :: "TCPConfig \<Rightarrow> TCPReceiver \<Rightarrow> TCPSender \<Rightarrow> TCPSegment list \<Rightarrow> TCPConnection" where
  "tc_with cfg rx tx out = \<lparr>tc_cfg = cfg, tc_receiver = rx, tc_sender = tx, tc_segments_out = out,
     tc_linger = True, tc_active = True, tc_last_tick_time = 0\<rparr>"

lemma tc_fill_and_send_open:
  "tc_fill_and_send (tc_with cfg rx (tx_new 0 cap rto (Some isn)) out) =
     Some (True, tc_with cfg rx (tx_opened isn cap rto) (out @ [tc_stamp rx (opening_segment isn)]))"
  by (simp add: tc_fill_and_send_def tc_with_def tx_fill_open tc_send_eq) (simp add: tx_opened_def tx_new_def)

lemma handshake_connect:
  "tc_connect (tc_with cfg (tr_new rc) (tx_new 0 cap rto (Some isn)) []) =
     Some (tc_with cfg (tr_new rc) (tx_opened isn cap rto) [tc_stamp (tr_new rc) (opening_segment isn)])"
  using tc_fill_and_send_open[of cfg "tr_new rc"] by (simp add: tc_connect_def)

lemma handshake_syn:
  assumes "rc < two64" "peer_syn pisn seg" "\<not> th_rst (ts_header seg)" "\<not> th_ack (ts_header seg)"
  shows "tc_segment_received (tc_with cfg (tr_new rc) (tx_new 0 cap rto (Some isn)) []) seg =
     Some (tc_with cfg (tr_opened pisn rc) (tx_opened isn cap rto) [tc_stamp (tr_opened pisn rc) (opening_segment isn)])"
proof -
  let ?tx = "tx_new 0 cap rto (Some isn)"
  have "ts_length_in_sequence_space seg > 0"
    using assms(2) by (simp add: ts_length_in_sequence_space_def peer_syn_def)
  moreover have "\<not> tc_check_inbound_ended (tc_with cfg (tr_opened pisn rc) ?tx [])"
    by (simp add: tc_check_inbound_ended_def tc_with_def tr_opened_view)
  ultimately show ?thesis
    using tr_receive_opening[OF assms(1,2)] assms(3,4) tc_fill_and_send_open[of cfg "tr_opened pisn rc" cap rto isn "[]"]
    by (simp add: tc_segment_received_def Let_def tc_with_def tc_handle_ack_def tc_reply_def)
qed

lemma handshake_synack:
  assumes "rc < two64" "cap < two64" "peer_syn pisn seg" "\<not> th_rst (ts_header seg)" "th_ack (ts_header seg)"
    and "th_ackno (ts_header seg) = wrap 1 isn"
  shows "tc_segment_received (tc_with cfg (tr_new rc) (tx_opened isn cap rto) out) seg =
     Some (tc_with cfg (tr_opened pisn rc) (tx_established isn cap rto (th_win (ts_header seg)))
       (out @ [tc_stamp (tr_opened pisn rc) (ts_new\<lparr>ts_header := th_new\<lparr>th_seqno := wrap 1 isn\<rparr>\<rparr>)]))"
proof -
  let ?tx = "tx_established isn cap rto (th_win (ts_header seg))"
  have "ts_length_in_sequence_space seg > 0"
    using assms(3) by (simp add: ts_length_in_sequence_space_def peer_syn_def)
  moreover have "\<not> tc_check_inbound_ended (tc_with cfg (tr_opened pisn rc) (tx_opened isn cap rto) out)"
    by (simp add: tc_check_inbound_ended_def tc_with_def tr_opened_view)
  moreover have "tc_fill_and_send (tc_with cfg (tr_opened pisn rc) ?tx out) =
      Some (False, tc_with cfg (tr_opened pisn rc) ?tx out)"
    using tx_fill_established[OF assms(2)]
    by (simp add: tc_fill_and_send_def tc_with_def tc_send_eq tx_opened_view)
  moreover have "tc_handle_ack (tc_with cfg (tr_opened pisn rc) (tx_opened isn cap rto) out) seg =
      Some (tc_with cfg (tr_opened pisn rc) ?tx out)"
    using tx_ack_open[OF assms(2)] assms(5,6)
    by (simp add: tc_handle_ack_def tc_with_def tc_send_eq tx_opened_view)
  ultimately show ?thesis
    using tr_receive_opening[OF assms(1,3)] assms(4)
    by (simp add: tc_segment_received_def Let_def tc_with_def tc_reply_def tc_send_eq tx_send_empty_segment_def tx_opened_view)
qed

lemma handshake_ack:
  assumes "rc < two64" "cap < two64" "th_seqno (ts_header seg) = wrap 1 pisn" "empty_segment seg"
    and "\<not> th_rst (ts_header seg)" "th_ack (ts_header seg)" "th_ackno (ts_header seg) = wrap 1 isn"
  shows "tc_segment_received (tc_with cfg (tr_opened pisn rc) (tx_opened isn cap rto) out) seg =
     Some (tc_with cfg (tr_opened pisn rc) (tx_established isn cap rto (th_win (ts_header seg))) out)"
proof -
  let ?tx = "tx_established isn cap rto (th_win (ts_header seg))"
  have "ts_length_in_sequence_space seg = 0"
    using assms(4) by (simp add: ts_length_in_sequence_space_def empty_segment_def buf_size_def)
  moreover have "\<not> tc_check_inbound_ended (tc_with cfg (tr_opened pisn rc) (tx_opened isn cap rto) out)"
    by (simp add: tc_check_inbound_ended_def tc_with_def tr_opened_view)
  moreover have "tc_handle_ack (tc_with cfg (tr_opened pisn rc) (tx_opened isn cap rto) out) seg =
      Some (tc_with cfg (tr_opened pisn rc) ?tx out)"
    using tx_ack_open[OF assms(2)] assms(6,7)
    by (simp add: tc_handle_ack_def tc_with_def tc_send_eq tx_opened_view)
  ultimately show ?thesis
    using tr_receive_empty[OF assms(1,3)] assms(4,5)
    by (simp add: tc_segment_received_def Let_def tc_with_def tc_reply_def empty_segment_def)
qed

subsection \<open>Properties\<close>

text \<open>
  C5. The three-way handshake, for any two configurations and any initial sequence numbers:
  the client's \<open>connect\<close> sends one segment, the listening server answers it with one, the
  client answers that with one, and the server answers nothing; the states run through
  \<open>SYN_SENT\<close> and \<open>SYN_RCVD\<close> and both ends are \<open>ESTABLISHED\<close>, each expecting the sequence
  number after the other's initial one.
\<close>

theorem three_way_handshake:
  assumes "cfg_recv_capacity cfg1 < two64" "cfg_send_capacity cfg1 < two64"
    and "cfg_recv_capacity cfg2 < two64" "cfg_send_capacity cfg2 < two64"
  shows "\<exists>c1 s1 c2 s2 syn synack ack.
    tc_connect (tc_new rnd1 cfg1) = Some c1 \<and> tc_segments_out c1 = [syn] \<and> tc_state c1 = st_of_state SYN_SENT \<and>
    tc_segment_received (tc_new rnd2 cfg2) syn = Some s1 \<and> tc_segments_out s1 = [synack] \<and>
    tc_state s1 = st_of_state SYN_RCVD \<and>
    tc_segment_received c1 synack = Some c2 \<and> tc_segments_out c2 = [syn, ack] \<and> tc_state c2 = st_of_state ESTABLISHED \<and>
    tc_segment_received s1 ack = Some s2 \<and> tc_segments_out s2 = [synack] \<and> tc_state s2 = st_of_state ESTABLISHED \<and>
    tr_ackno (tc_receiver c2) = Some (wrap 1 (tx_isn (tc_sender s2))) \<and>
    tr_ackno (tc_receiver s2) = Some (wrap 1 (tx_isn (tc_sender c2)))"
proof -
  define i1 where "i1 = (case cfg_fixed_isn cfg1 of Some i \<Rightarrow> i | None \<Rightarrow> WrappingInt32 rnd1)"
  define i2 where "i2 = (case cfg_fixed_isn cfg2 of Some i \<Rightarrow> i | None \<Rightarrow> WrappingInt32 rnd2)"
  let ?rc1 = "cfg_recv_capacity cfg1" and ?rc2 = "cfg_recv_capacity cfg2"
  let ?x1 = "tx_opened i1 (cfg_send_capacity cfg1) (cfg_rt_timeout cfg1)"
  let ?x2 = "tx_opened i2 (cfg_send_capacity cfg2) (cfg_rt_timeout cfg2)"
  define syn where "syn = tc_stamp (tr_new ?rc1) (opening_segment i1)"
  define synack where "synack = tc_stamp (tr_opened i1 ?rc2) (opening_segment i2)"
  define ack where "ack = tc_stamp (tr_opened i2 ?rc1) (ts_new\<lparr>ts_header := th_new\<lparr>th_seqno := wrap 1 i1\<rparr>\<rparr>)"
  have new: "tc_new rnd1 cfg1 = tc_with cfg1 (tr_new ?rc1) (tx_new 0 (cfg_send_capacity cfg1) (cfg_rt_timeout cfg1) (Some i1)) []"
    "tc_new rnd2 cfg2 = tc_with cfg2 (tr_new ?rc2) (tx_new 0 (cfg_send_capacity cfg2) (cfg_rt_timeout cfg2) (Some i2)) []"
    using tx_new_fixed by (simp_all add: tc_new_def tc_with_def i1_def i2_def)
  have s1: "peer_syn i1 syn" "\<not> th_rst (ts_header syn)" "\<not> th_ack (ts_header syn)"
    by (simp_all add: syn_def peer_syn_def tr_new_view)
  have s2: "peer_syn i2 synack" "\<not> th_rst (ts_header synack)" "th_ack (ts_header synack)"
    "th_ackno (ts_header synack) = wrap 1 i1"
    by (simp_all add: synack_def peer_syn_def tr_opened_view)
  have s3: "empty_segment ack" "\<not> th_rst (ts_header ack)" "th_ack (ts_header ack)"
    "th_ackno (ts_header ack) = wrap 1 i2" "th_seqno (ts_header ack) = wrap 1 i1"
    by (simp_all add: ack_def tr_opened_view empty_segment_def) (simp_all add: ts_new_def th_new_def)
  let ?c1 = "tc_with cfg1 (tr_new ?rc1) ?x1 [syn]" and ?s1 = "tc_with cfg2 (tr_opened i1 ?rc2) ?x2 [synack]"
  let ?e1 = "tx_established i1 (cfg_send_capacity cfg1) (cfg_rt_timeout cfg1) (th_win (ts_header synack))"
  let ?e2 = "tx_established i2 (cfg_send_capacity cfg2) (cfg_rt_timeout cfg2) (th_win (ts_header ack))"
  let ?c2 = "tc_with cfg1 (tr_opened i2 ?rc1) ?e1 [syn, ack]" and ?s2 = "tc_with cfg2 (tr_opened i1 ?rc2) ?e2 [synack]"
  have "tc_connect (tc_new rnd1 cfg1) = Some ?c1"
    unfolding new syn_def by (rule handshake_connect)
  moreover have "tc_segment_received (tc_new rnd2 cfg2) syn = Some ?s1"
    unfolding new synack_def by (rule handshake_syn[OF assms(3) s1])
  moreover have "tc_segment_received ?c1 synack = Some ?c2"
    using handshake_synack[OF assms(1,2) s2] by (simp add: ack_def)
  moreover have "tc_segment_received ?s1 ack = Some ?s2"
    by (rule handshake_ack[OF assms(3,4) s3(5,1,2,3,4)])
  moreover have "tc_state ?c1 = st_of_state SYN_SENT" "tc_state ?s1 = st_of_state SYN_RCVD"
    "tc_state ?c2 = st_of_state ESTABLISHED" "tc_state ?s2 = st_of_state ESTABLISHED"
    by (simp_all add: tc_state_def tc_with_def st_of_parts_def st_of_state_def tx_opened_view rx_summary_def
        tr_new_view tr_opened_view)
  ultimately show ?thesis
    by (intro exI[of _ ?c1] exI[of _ ?s1] exI[of _ ?c2] exI[of _ ?s2] exI[of _ syn] exI[of _ synack] exI[of _ ack])
      (simp add: tc_with_def tr_opened_view tx_opened_view)
qed

theorem three_way_handshake_witness:
  "\<exists>c1 s1 c2 s2 syn synack ack.
    tc_connect (tc_new 5 cfg_default) = Some c1 \<and> tc_segments_out c1 = [syn] \<and>
    tc_segment_received (tc_new 4294967295 cfg_default) syn = Some s1 \<and> tc_segments_out s1 = [synack] \<and>
    tc_segment_received c1 synack = Some c2 \<and> tc_segments_out c2 = [syn, ack] \<and>
    tc_segment_received s1 ack = Some s2 \<and> tc_state c2 = st_of_state ESTABLISHED \<and> tc_state s2 = st_of_state ESTABLISHED"
proof -
  have cap: "cfg_recv_capacity cfg_default < two64" "cfg_send_capacity cfg_default < two64"
    by (simp_all add: cfg_default_def DEFAULT_CAPACITY_def two64_def)
  from three_way_handshake[OF cap cap, of 5 4294967295] show ?thesis by blast
qed

text \<open>Every reset flag is obeyed, whatever the state of the connection and the numbers in the
  segment.\<close>

lemma reset_obeyed:
  assumes "th_rst (ts_header seg)"
  shows "\<exists>tc'. tc_segment_received tc seg = Some tc' \<and> tc_state tc' = st_of_state RESET \<and> \<not> tc_active tc' \<and>
    tc_segments_out tc' = tc_segments_out tc \<and>
    bs_error (tx_stream (tc_sender tc')) \<and> bs_error (tr_stream_out (tc_receiver tc'))"
  using assms
  by (simp add: tc_segment_received_def Let_def tc_set_errors_def tc_state_def st_of_parts_def st_of_state_def
      tx_summary_def rx_summary_def tr_stream_out_def bs_set_error_def RX_ERROR_def TX_ERROR_def)

text \<open>The resets the protocol accepts: once the peer's opening segment has arrived, those whose
  sequence number is the next expected one or inside the window behind it; before that, in
  answer to the own opening segment, those that acknowledge what was sent.\<close>

definition rst_acceptable :: "TCPConnection \<Rightarrow> TCPSegment \<Rightarrow> bool" where
  "rst_acceptable tc seg \<longleftrightarrow> th_rst (ts_header seg) \<and>
     (case tr_ackno (tc_receiver tc) of
        Some a \<Rightarrow> th_seqno (ts_header seg) = a \<or>
          0 \<le> wi_diff (th_seqno (ts_header seg)) a \<and>
          wi_diff (th_seqno (ts_header seg)) a < int (tr_window_size (tc_receiver tc))
      | None \<Rightarrow> tx_next_seqno (tc_sender tc) \<noteq> 0 \<and> th_ack (ts_header seg) \<and>
          th_ackno (ts_header seg) = tx_next_seqno_wrapped (tc_sender tc))"

text \<open>
  C21. A reset: a segment with the reset flag that the protocol accepts (after the peer's
  opening segment, one at the expected sequence number or inside the window; after the own
  opening segment alone, one that acknowledges it) makes the connection inactive, marks both
  streams as failed, sends nothing, and leaves the state \<open>RESET\<close>.
\<close>

theorem reset_received:
  assumes "rst_acceptable tc seg"
  shows "\<exists>tc'. tc_segment_received tc seg = Some tc' \<and> tc_state tc' = st_of_state RESET \<and> \<not> tc_active tc' \<and>
    tc_segments_out tc' = tc_segments_out tc \<and>
    bs_error (tx_stream (tc_sender tc')) \<and> bs_error (tr_stream_out (tc_receiver tc'))"
  using assms by (intro reset_obeyed) (simp add: rst_acceptable_def)

text \<open>A reset that answers the opening segment of a connection.\<close>

theorem reset_received_witness:
  "\<exists>tc tc'. tc_connect (tc_new 4 cfg_default) = Some tc \<and> tc_state tc = st_of_state SYN_SENT \<and>
     tc_segment_received tc
       (ts_new\<lparr>ts_header := th_new\<lparr>th_rst := True, th_ack := True, th_ackno := WrappingInt32 5\<rparr>\<rparr>) = Some tc' \<and>
     tc_state tc' = st_of_state RESET"
proof -
  let ?seg = "ts_new\<lparr>ts_header := th_new\<lparr>th_rst := True, th_ack := True, th_ackno := WrappingInt32 5\<rparr>\<rparr>"
  let ?rx = "tr_new (cfg_recv_capacity cfg_default)"
  let ?tx = "tx_opened (WrappingInt32 4) (cfg_send_capacity cfg_default) (cfg_rt_timeout cfg_default)"
  let ?tc = "tc_with cfg_default ?rx ?tx [tc_stamp ?rx (opening_segment (WrappingInt32 4))]"
  have 1: "tc_connect (tc_new 4 cfg_default) = Some ?tc"
    using handshake_connect[of cfg_default "cfg_recv_capacity cfg_default" "cfg_send_capacity cfg_default"
        "cfg_rt_timeout cfg_default" "WrappingInt32 4"]
    by (simp add: tc_new_def tc_with_def tx_new_def cfg_default_def)
  have 2: "rst_acceptable ?tc ?seg"
    by (simp add: rst_acceptable_def tc_with_def tr_ackno_def tr_new_def tx_next_seqno_wrapped_def tx_opened_def
        tx_new_def wrap_def wi_add_def)
  have 3: "tc_state ?tc = st_of_state SYN_SENT"
    by (simp add: tc_state_def tc_with_def st_of_parts_def st_of_state_def tx_opened_view rx_summary_def
        tr_ackno_def tr_new_def tr_stream_out_def sr_new_def bs_new_def)
  from reset_received[OF 2] 1 3 show ?thesis by blast
qed

text \<open>
  C38. Data opens a listening connection: for any configuration, a segment without opening,
  reset and acknowledgment flag that occupies sequence numbers, although the receiver ignores
  it, makes a connection in the state \<open>LISTEN\<close> send its own opening segment, without an
  acknowledgment, to a peer that never asked for a connection; the state is then \<open>SYN_SENT\<close>.
\<close>

theorem listen_opened_by_data:
  assumes "\<not> th_syn (ts_header seg)" "\<not> th_rst (ts_header seg)" "\<not> th_ack (ts_header seg)"
    and "ts_length_in_sequence_space seg > 0"
  shows "tc_state (tc_new rnd cfg) = st_of_state LISTEN \<and>
    (\<exists>tc' syn. tc_segment_received (tc_new rnd cfg) seg = Some tc' \<and> tc_segments_out tc' = [syn] \<and>
       th_syn (ts_header syn) \<and> \<not> th_ack (ts_header syn) \<and> tc_state tc' = st_of_state SYN_SENT)"
proof -
  define isn where "isn = (case cfg_fixed_isn cfg of Some i \<Rightarrow> i | None \<Rightarrow> WrappingInt32 rnd)"
  let ?rx = "tr_new (cfg_recv_capacity cfg)"
  let ?tx = "tx_new 0 (cfg_send_capacity cfg) (cfg_rt_timeout cfg) (Some isn)"
  let ?tx' = "tx_opened isn (cfg_send_capacity cfg) (cfg_rt_timeout cfg)"
  have new: "tc_new rnd cfg = tc_with cfg ?rx ?tx []"
    using tx_new_fixed by (simp add: tc_new_def tc_with_def isn_def)
  have "tr_segment_received ?rx seg = Some ?rx"
    using assms(1) by (simp add: tr_segment_received_def tr_new_def)
  moreover have "\<not> tc_check_inbound_ended (tc_with cfg ?rx ?tx [])"
    by (simp add: tc_check_inbound_ended_def tc_with_def tr_new_def tr_stream_out_def sr_new_def bs_new_def)
  ultimately have "tc_segment_received (tc_new rnd cfg) seg = Some (tc_with cfg ?rx ?tx' [tc_stamp ?rx (opening_segment isn)])"
    using assms(2-4) tc_fill_and_send_open[of cfg ?rx "cfg_send_capacity cfg" "cfg_rt_timeout cfg" isn "[]"]
    unfolding new by (simp add: tc_segment_received_def Let_def tc_with_def tc_handle_ack_def tc_reply_def)
  moreover have "tc_state (tc_with cfg ?rx ?tx' out) = st_of_state SYN_SENT" for out
    by (simp add: tc_state_def tc_with_def st_of_parts_def st_of_state_def tx_opened_view rx_summary_def
        tr_ackno_def tr_new_def tr_stream_out_def sr_new_def bs_new_def)
  moreover have "tc_state (tc_new rnd cfg) = st_of_state LISTEN"
    by (simp add: new tc_state_def tc_with_def st_of_parts_def st_of_state_def tx_summary_def rx_summary_def
        tr_ackno_def tr_new_def tr_stream_out_def sr_new_def bs_new_def tx_new_def)
  moreover have "th_syn (ts_header (tc_stamp ?rx (opening_segment isn)))"
      "\<not> th_ack (ts_header (tc_stamp ?rx (opening_segment isn)))"
    by (simp_all add: tc_stamp_def tr_ackno_def tr_new_def opening_segment_def ts_new_def th_new_def)
  ultimately show ?thesis by (auto simp: tc_with_def)
qed

theorem listen_opened_by_data_witness:
  "\<exists>tc' syn. tc_segment_received (tc_new 3 cfg_default) (plain_segment (WrappingInt32 0) False False [7]) = Some tc' \<and>
     tc_segments_out tc' = [syn] \<and> th_syn (ts_header syn) \<and> tc_state tc' = st_of_state SYN_SENT"
  using listen_opened_by_data[of "plain_segment (WrappingInt32 0) False False [7]" 3 cfg_default]
  by (auto simp: plain_segment_def ts_length_in_sequence_space_def th_new_def buf_size_def)

text \<open>What a step adds to the output queue, all stamped by the same receiver.\<close>

definition tc_emits :: "TCPConnection \<Rightarrow> TCPConnection \<Rightarrow> TCPSegment list \<Rightarrow> bool" where
  "tc_emits tc tc' new \<longleftrightarrow> tc_receiver tc' = tc_receiver tc \<and>
     tc_segments_out tc' = tc_segments_out tc @ map (tc_stamp (tc_receiver tc)) new \<and>
     tx_segments_out (tc_sender tc') = []"

lemma tc_emits_trans: "tc_emits a b m \<Longrightarrow> tc_emits b c n \<Longrightarrow> tc_emits a c (m @ n)"
  by (simp add: tc_emits_def)

lemma tc_emits_send:
  "tc_emits (tc\<lparr>tc_sender := tx\<rparr>) (snd (tc_send_segments_out (tc\<lparr>tc_sender := tx'\<rparr>))) (tx_segments_out tx')"
  by (simp add: tc_emits_def tc_send_eq)

lemma tc_handle_ack_emits:
  assumes "tc_handle_ack tc seg = Some tc'" "tx_segments_out (tc_sender tc) = []"
  shows "\<exists>new. tc_emits tc tc' new"
proof (cases "th_ack (ts_header seg)")
  case True
  then obtain tx where "tc' = snd (tc_send_segments_out (tc\<lparr>tc_sender := tx\<rparr>))"
    using assms(1) by (auto simp: tc_handle_ack_def)
  then have "tc_emits (tc\<lparr>tc_sender := tc_sender tc\<rparr>) tc' (tx_segments_out tx)"
    using tc_emits_send by blast
  then show ?thesis by auto
next
  case False
  then show ?thesis using assms by (intro exI[of _ "[]"]) (auto simp: tc_handle_ack_def tc_emits_def)
qed

lemma tc_reply_emits:
  assumes "tc_reply tc seg = Some tc'" "ts_length_in_sequence_space seg > 0"
  shows "\<exists>new. new \<noteq> [] \<and> tc_emits tc tc' new"
proof -
  obtain tx where tx: "tx_fill_window (tc_sender tc) = Some tx"
    using assms by (auto simp: tc_reply_def tc_fill_and_send_def)
  let ?t = "tc_send_segments_out (tc\<lparr>tc_sender := tx\<rparr>)"
  have em: "tc_emits tc (snd ?t) (tx_segments_out tx)"
    using tc_emits_send[where tc = tc and tx = "tc_sender tc" and tx' = tx] by simp
  have sent: "fst ?t = (tx_segments_out tx \<noteq> [])" by (simp add: tc_send_eq)
  have tc': "tc' = (if fst ?t then snd ?t else
      snd (tc_send_segments_out ((snd ?t)\<lparr>tc_sender := tx_send_empty_segment (tc_sender (snd ?t))\<rparr>)))"
    using assms tx by (auto simp: tc_reply_def tc_fill_and_send_def split_beta)
  show ?thesis
  proof (cases "fst ?t")
    case True
    then show ?thesis using em sent tc' by auto
  next
    case False
    let ?e = "tx_send_empty_segment (tc_sender (snd ?t))"
    have "tc_emits (snd ?t) tc' (tx_segments_out ?e)"
      using tc_emits_send[where tc = "snd ?t" and tx = "tc_sender (snd ?t)" and tx' = ?e] False tc' by simp
    moreover have "tx_segments_out ?e \<noteq> []" by (simp add: tx_send_empty_segment_def)
    ultimately show ?thesis using tc_emits_trans[OF em] by blast
  qed
qed

text \<open>
  C16. Segments that occupy sequence numbers are answered: when the call for such a segment,
  without the reset flag, has returned, the receiver has an acknowledgment number afterwards
  (the peer's opening segment has arrived), and the sender's queue was empty before, then at
  least one segment was sent, and everything sent carries the acknowledgment flag, the
  receiver's current acknowledgment number and its window, truncated to 16 bits.
\<close>

theorem connection_answers:
  assumes "tc_segment_received tc seg = Some tc'" "\<not> th_rst (ts_header seg)"
    and "ts_length_in_sequence_space seg > 0" "tr_ackno (tc_receiver tc') = Some a"
    and "tx_segments_out (tc_sender tc) = []"
  shows "\<exists>new. tc_segments_out tc' = tc_segments_out tc @ new \<and> new \<noteq> [] \<and>
    (\<forall>x \<in> set new. th_ack (ts_header x) \<and> th_ackno (ts_header x) = a \<and>
       th_win (ts_header x) = of_nat (tr_window_size (tc_receiver tc')))"
proof -
  obtain rx where rx: "tr_segment_received (tc_receiver tc) seg = Some rx"
    using assms(1,2) by (auto simp: tc_segment_received_def Let_def split: option.splits)
  define tc1 where "tc1 = tc\<lparr>tc_last_tick_time := 0\<rparr>\<lparr>tc_receiver := rx\<rparr>"
  define tc2 where "tc2 = (if tc_check_inbound_ended tc1 \<and> \<not> bs_eof (tx_stream (tc_sender tc1))
      then tc1\<lparr>tc_linger := False\<rparr> else tc1)"
  have t2: "tc_segments_out tc2 = tc_segments_out tc" "tx_segments_out (tc_sender tc2) = []"
    using assms(5) by (simp_all add: tc2_def tc1_def)
  obtain tc3 where tc3: "tc_handle_ack tc2 seg = Some tc3" "tc_reply tc3 seg = Some tc'"
  proof -
    have "tc_segment_received tc seg =
        (case tc_handle_ack tc2 seg of None \<Rightarrow> None | Some tc3 \<Rightarrow> tc_reply tc3 seg)"
      using assms(2) rx by (simp add: tc_segment_received_def Let_def tc2_def tc1_def)
    with assms(1) show thesis using that by (auto split: option.splits)
  qed
  obtain m where m: "tc_emits tc2 tc3 m" using tc_handle_ack_emits[OF tc3(1) t2(2)] by blast
  obtain n where n: "n \<noteq> []" "tc_emits tc3 tc' n" using tc_reply_emits[OF tc3(2) assms(3)] by blast
  have e: "tc_emits tc2 tc' (m @ n)" by (rule tc_emits_trans[OF m n(2)])
  let ?new = "map (tc_stamp (tc_receiver tc')) (m @ n)"
  have "tc_segments_out tc' = tc_segments_out tc @ ?new"
    using e t2 by (simp add: tc_emits_def)
  moreover have "?new \<noteq> []" using n(1) by simp
  ultimately show ?thesis using assms(4) by (intro exI[of _ ?new]) auto
qed

theorem connection_answers_witness:
  "\<exists>tc' new. tc_segment_received (tc_new 0 cfg_default) (plain_segment (WrappingInt32 9) True False []) = Some tc' \<and>
     tc_segments_out tc' = new \<and> new \<noteq> [] \<and> (\<forall>x \<in> set new. th_ack (ts_header x) \<and> th_ackno (ts_header x) = WrappingInt32 10)"
proof -
  let ?seg = "plain_segment (WrappingInt32 9) True False []"
  let ?cfg = "cfg_default"
  have cap: "cfg_recv_capacity cfg_default < two64"
    by (simp add: cfg_default_def DEFAULT_CAPACITY_def two64_def)
  have syn: "peer_syn (WrappingInt32 9) ?seg" "\<not> th_rst (ts_header ?seg)" "\<not> th_ack (ts_header ?seg)"
    by (simp_all add: peer_syn_def) (simp_all add: plain_segment_def th_new_def)
  have new: "tc_new 0 ?cfg = tc_with ?cfg (tr_new (cfg_recv_capacity ?cfg))
      (tx_new 0 (cfg_send_capacity ?cfg) (cfg_rt_timeout ?cfg) (Some (WrappingInt32 0))) []"
    by (simp add: tc_new_def tc_with_def cfg_default_def tx_new_def)
  obtain tc' where tc': "tc_segment_received (tc_new 0 ?cfg) ?seg = Some tc'"
    "tr_ackno (tc_receiver tc') = Some (WrappingInt32 10)"
    using handshake_syn[OF cap syn] unfolding new
    by (simp add: tc_with_def tr_opened_view wrap_def wi_add_def)
  have len: "ts_length_in_sequence_space ?seg > 0"
    by (simp add: ts_length_in_sequence_space_def)
  have "tx_segments_out (tc_sender (tc_new 0 ?cfg)) = []" "tc_segments_out (tc_new 0 ?cfg) = []"
    by (simp_all add: tc_new_def tx_new_def)
  with connection_answers[OF tc'(1) syn(2) len tc'(2)] tc'(1) show ?thesis by auto
qed

lemma tx_tick_view:
  "tx_stream (tx_tick tx ms) = tx_stream tx" "tx_next_seqno (tx_tick tx ms) = tx_next_seqno tx"
  "tx_bytes_in_flight (tx_tick tx ms) = tx_bytes_in_flight tx" "tx_isn (tx_tick tx ms) = tx_isn tx"
  "\<not> tx_timing_begins tx \<Longrightarrow> tx_tick tx ms = tx"
  by (auto simp: tx_tick_def Let_def split: list.splits)

lemma tc_send_rst_eq:
  assumes "tx_segments_out (tc_sender tc) = []"
  shows "tc_send_rst tc = Some ((tc_set_errors (tc\<lparr>tc_segments_out := tc_segments_out tc @
      [ts_new\<lparr>ts_header := th_new\<lparr>th_seqno := tx_next_seqno_wrapped (tc_sender tc), th_rst := True\<rparr>\<rparr>],
      tc_last_tick_time := 0\<rparr>))\<lparr>tc_active := False\<rparr>)"
proof -
  have 1: "(tc_sender tc)\<lparr>tx_segments_out := []\<rparr> = tc_sender tc"
    using assms by (cases "tc_sender tc") simp
  have 2: "tc\<lparr>tc_sender := tc_sender tc, tc_segments_out := q, tc_last_tick_time := 0\<rparr>
      = tc\<lparr>tc_segments_out := q, tc_last_tick_time := 0\<rparr>" for q
    by (cases tc) simp
  have "tc_send_rst tc = Some ((tc_set_errors (tc\<lparr>tc_sender := (tc_sender tc)\<lparr>tx_segments_out := []\<rparr>,
      tc_segments_out := tc_segments_out tc @
      [ts_new\<lparr>ts_header := th_new\<lparr>th_seqno := tx_next_seqno_wrapped (tc_sender tc), th_rst := True\<rparr>\<rparr>],
      tc_last_tick_time := 0\<rparr>))\<lparr>tc_active := False\<rparr>)"
    using assms by (simp add: tc_send_rst_def tx_read_a_segment_def tx_send_empty_segment_def
        tx_next_seqno_wrapped_def tc_segment_received_def Let_def)
  then show ?thesis unfolding 1 2 .
qed

text \<open>
  C20. Giving up: when a tick brings the number of consecutive retransmissions above eight while
  something is unacknowledged, the connection drops everything that was queued, sends exactly
  one segment, a reset with its next sequence number, and is left in the state \<open>RESET\<close>.
\<close>

theorem retransmission_abort:
  assumes "(ucast (tx_consecutive (tx_tick (tc_sender tc) ms)) :: 32 word) > 8"
    and "tx_bytes_in_flight (tc_sender tc) \<noteq> 0"
  shows "\<exists>tc' rst. tc_tick tc ms = Some tc' \<and> tc_segments_out tc' = [rst] \<and> th_rst (ts_header rst) \<and>
    th_seqno (ts_header rst) = wrap (tx_next_seqno (tc_sender tc)) (tx_isn (tc_sender tc)) \<and>
    tc_state tc' = st_of_state RESET"
proof -
  let ?tc = "tc\<lparr>tc_last_tick_time := u64_add (tc_last_tick_time tc) ms,
      tc_sender := (tx_tick (tc_sender tc) ms)\<lparr>tx_segments_out := []\<rparr>, tc_segments_out := []\<rparr>"
  let ?rst = "ts_new\<lparr>ts_header := th_new\<lparr>th_seqno := tx_next_seqno_wrapped (tc_sender ?tc), th_rst := True\<rparr>\<rparr>"
  define tc2 where "tc2 = (tc_set_errors (?tc\<lparr>tc_segments_out := [?rst], tc_last_tick_time := 0\<rparr>))\<lparr>tc_active := False\<rparr>"
  have "tc_send_rst ?tc = Some tc2"
    using tc_send_rst_eq[of ?tc] by (simp add: tc2_def)
  moreover have "\<not> tc_check_outbound_ended tc2"
    using assms(2) by (simp add: tc2_def tc_check_outbound_ended_def tc_set_errors_def tx_tick_view)
  ultimately have "tc_tick tc ms = Some tc2"
    using assms(1) by (simp add: tc_tick_def Let_def tc_send_eq MAX_RETX_ATTEMPTS_def)
  moreover have "tc_state tc2 = st_of_state RESET"
    by (simp add: tc2_def tc_set_errors_def tc_state_def st_of_parts_def st_of_state_def
        tx_summary_def rx_summary_def tr_stream_out_def bs_set_error_def RX_ERROR_def TX_ERROR_def)
  moreover have "tc_segments_out tc2 = [?rst]" by (simp add: tc2_def tc_set_errors_def)
  moreover have "th_rst (ts_header ?rst)"
    "th_seqno (ts_header ?rst) = wrap (tx_next_seqno (tc_sender tc)) (tx_isn (tc_sender tc))"
    by (simp_all add: tx_next_seqno_wrapped_def tx_tick_view)
  ultimately show ?thesis by blast
qed

text \<open>A connection whose opening segment was sent eight times again.\<close>

definition example_giving_up :: TCPConnection where
  "example_giving_up = tc_with cfg_default (tr_new 64000)
     ((tx_opened (WrappingInt32 3) 64000 1000)\<lparr>tx_consecutive := 8\<rparr>) []"

theorem retransmission_abort_witness:
  "\<exists>tc' rst. tc_tick example_giving_up 1000 = Some tc' \<and> tc_segments_out tc' = [rst] \<and>
     th_rst (ts_header rst) \<and> tc_state tc' = st_of_state RESET"
proof -
  let ?tx = "tc_sender example_giving_up"
  have "tx_consecutive (tx_tick ?tx 1000) = 9"
    by (simp add: example_giving_up_def tc_with_def tx_opened_def tx_new_def tx_tick_def Let_def u64_add_def two64_def)
  moreover have "tx_bytes_in_flight ?tx \<noteq> 0"
    by (simp add: example_giving_up_def tc_with_def tx_opened_def)
  ultimately show ?thesis
    using retransmission_abort[of example_giving_up 1000] by auto
qed

text \<open>
  A reset is undone by the clock: when both streams had ended and the connection was only
  lingering, it becomes inactive on a reset, and active again at the next tick (within the
  lingering time), because \<open>tick\<close> computes the flag anew.
\<close>

theorem reset_undone_by_tick:
  assumes "tc_check_inbound_ended tc" "tc_check_outbound_ended tc" "tc_linger tc" "\<not> tx_timing_begins (tc_sender tc)"
    and "tx_consecutive (tc_sender tc) = 0" "ms < 10 * unat (cfg_rt_timeout (tc_cfg tc))" "th_rst (ts_header seg)"
  shows "\<exists>tc1 tc2. tc_segment_received tc seg = Some tc1 \<and> \<not> tc_active tc1 \<and>
    tc_tick tc1 ms = Some tc2 \<and> tc_active tc2"
proof -
  let ?tc1 = "(tc_set_errors (tc\<lparr>tc_last_tick_time := 0\<rparr>))\<lparr>tc_active := False\<rparr>"
  have tc1: "tc_segment_received tc seg = Some ?tc1" using assms(7) by (simp add: tc_segment_received_def Let_def)
  have "10 * unat (cfg_rt_timeout (tc_cfg tc)) < two64"
    using unsigned_less[of "cfg_rt_timeout (tc_cfg tc)", where 'a = nat] by (simp add: two64_def)
  then have "u64_add 0 ms = ms" using assms(6) by (simp add: u64_add_exact)
  then have "\<exists>tc2. tc_tick ?tc1 ms = Some tc2 \<and> tc_active tc2"
    using assms(1-6)
    by (simp add: tc_tick_def Let_def tc_send_eq tc_set_errors_def tx_tick_view(5) MAX_RETX_ATTEMPTS_def
        tc_check_inbound_ended_def tc_check_outbound_ended_def tr_unassembled_bytes_def sr_unassembled_def
        tr_stream_out_def bs_set_error_def bs_eof_def bs_buffer_empty_def)
  then show ?thesis using tc1 by auto
qed

definition example_lingering :: TCPConnection where
  "example_lingering = tc_with cfg_default
     ((tr_opened (WrappingInt32 0) 10)\<lparr>tr_abs_seqno := 2,
        tr_reassembler := (sr_new 10)\<lparr>sr_output := (bs_new 10)\<lparr>bs_input_ended := True\<rparr>\<rparr>\<rparr>)
     ((tx_established (WrappingInt32 0) 10 1000 10)\<lparr>tx_next_seqno := 2, tx_confirmed_seqno := 2, tx_fin_sent := True,
        tx_stream := (bs_new 10)\<lparr>bs_input_ended := True\<rparr>\<rparr>) []"

theorem reset_undone_by_tick_witness:
  "tc_state example_lingering = st_of_state TIME_WAIT \<and>
   (\<exists>tc1 tc2. tc_segment_received example_lingering (ts_new\<lparr>ts_header := th_new\<lparr>th_rst := True\<rparr>\<rparr>) = Some tc1 \<and>
      \<not> tc_active tc1 \<and> tc_tick tc1 1 = Some tc2 \<and> tc_active tc2)"
proof -
  note defs = example_lingering_def tc_with_def tr_opened_def tr_new_def sr_new_def bs_new_def tx_established_def
    tx_new_def tr_stream_out_def bs_eof_def bs_buffer_empty_def
  have "u64_add 0 2 = 2" by (simp add: u64_add_def two64_def)
  then have 1: "tc_check_inbound_ended example_lingering" "tc_check_outbound_ended example_lingering"
    by (simp_all add: tc_check_inbound_ended_def tc_check_outbound_ended_def tr_unassembled_bytes_def
        sr_unassembled_def Let_def defs)
  have 2: "tc_linger example_lingering" "\<not> tx_timing_begins (tc_sender example_lingering)"
    "tx_consecutive (tc_sender example_lingering) = 0" "1 < 10 * unat (cfg_rt_timeout (tc_cfg example_lingering))"
    by (simp_all add: defs cfg_default_def TIMEOUT_DFLT_def)
  have 3: "tc_state example_lingering = st_of_state TIME_WAIT"
    using \<open>u64_add 0 2 = 2\<close>
    by (simp add: tc_state_def st_of_parts_def st_of_state_def tx_summary_def rx_summary_def tr_ackno_def defs)
  show ?thesis
    using 3 reset_undone_by_tick[OF 1 2, of "ts_new\<lparr>ts_header := th_new\<lparr>th_rst := True\<rparr>\<rparr>"] by simp
qed

text \<open>
  The advertised window is the free space modulo \<open>2 ^ 16\<close>, not the free space limited to
  what fits: a connection with 65536 bytes of receive capacity, all of them free, announces a
  window of 0.
\<close>

theorem advertised_window_wraps:
  "\<exists>tc syn. tc_connect (tc_new 0 (cfg_default\<lparr>cfg_recv_capacity := 65536\<rparr>)) = Some tc \<and>
     tc_segments_out tc = [syn] \<and> tr_window_size (tc_receiver tc) = 65536 \<and> th_win (ts_header syn) = 0"
proof -
  let ?cfg = "cfg_default\<lparr>cfg_recv_capacity := 65536\<rparr>"
  have new: "tc_new 0 ?cfg = tc_with ?cfg (tr_new 65536) (tx_new 0 64000 1000 (Some (WrappingInt32 0))) []"
    by (simp add: tc_new_def tc_with_def cfg_default_def tx_new_def DEFAULT_CAPACITY_def TIMEOUT_DFLT_def)
  have "tr_window_size (tr_new 65536) = 65536"
    by (simp add: tr_window_size_def tr_new_def tr_stream_out_def sr_new_def bs_new_def u64_sub_def two64_def)
  then show ?thesis
    unfolding new handshake_connect by (simp add: tc_with_def)
qed

end
