(* ===== verification/Net_Print.thy ===== *)
theory Net_Print
  imports TCP_Segment
begin

text \<open>
  Printing: the formatting of numbers by C++ streams as the sources use it, \<open>inet_ntoa\<close>,
  \<open>hexdump\<close> (\<open>libsponge/util/util.cc\<close>) and the two textual forms of a TCP header
  (\<open>libsponge/tcp_helpers/tcp_header.cc\<close>). The lemmas show that decimal and hexadecimal
  output can be read back, and that the loop of \<open>hexdump\<close> prints rows of sixteen bytes.
\<close>

subsection \<open>Numbers\<close>

definition digit_char :: "nat \<Rightarrow> char" where
  "digit_char d = char_of (if d < 10 then 48 + d else 87 + d)"

fun to_base :: "nat \<Rightarrow> nat \<Rightarrow> string" where
  "to_base b n = (if b < 2 \<or> n < b then [digit_char n] else to_base b (n div b) @ [digit_char (n mod b)])"

declare to_base.simps [simp del]

abbreviation dec_string :: "nat \<Rightarrow> string" where
  "dec_string \<equiv> to_base 10"

abbreviation hex_string :: "nat \<Rightarrow> string" where
  "hex_string \<equiv> to_base 16"

abbreviation newline :: string where
  "newline \<equiv> [CHR 0x0A]"

text \<open>\<open>setw(n)\<close> with a fill character, \<open>boolalpha\<close>, and \<open>std::stoi\<close> on decimal digits: it throws when
  the string does not start with a digit, and otherwise reads as many digits as there are.\<close>

definition set_width :: "char \<Rightarrow> nat \<Rightarrow> string \<Rightarrow> string" where
  "set_width c n s = replicate (n - length s) c @ s"

definition bool_alpha :: "bool \<Rightarrow> string" where
  "bool_alpha b = (if b then ''true'' else ''false'')"

definition is_decimal :: "char \<Rightarrow> bool" where
  "is_decimal c \<longleftrightarrow> 48 \<le> (of_char c :: nat) \<and> (of_char c :: nat) < 58"

definition digits_value :: "string \<Rightarrow> nat" where
  "digits_value s = foldl (\<lambda>n c. 10 * n + (of_char c - 48)) 0 s"

definition stoi :: "string \<Rightarrow> cpp_error + nat" where
  "stoi s = (case takeWhile is_decimal s of
      [] \<Rightarrow> Inl (InvalidArgument ''stoi'')
    | ds \<Rightarrow> if digits_value ds \<ge> 2 ^ 31 then Inl (OutOfRange ''stoi'') else Inr (digits_value ds))"

lemma of_char_digit: "d < 10 \<Longrightarrow> (of_char (digit_char d) :: nat) = 48 + d"
  by (simp add: digit_char_def)

lemma is_decimal_digit: "d < 10 \<Longrightarrow> is_decimal (digit_char d)"
  by (simp add: is_decimal_def of_char_digit)

lemma dec_string_decimal: "\<forall>c \<in> set (dec_string n). is_decimal c"
proof (induction n rule: less_induct)
  case (less n)
  from less[of "n div 10"] show ?case
    by (cases "n < 10") (simp_all add: to_base.simps[of 10 n] is_decimal_digit)
qed

lemma digits_value_dec_string [simp]: "digits_value (dec_string n) = n"
proof (induction n rule: less_induct)
  case (less n)
  show ?case
  proof (cases "n < 10")
    case True
    then show ?thesis by (simp add: to_base.simps[of 10 n] digits_value_def of_char_digit)
  next
    case False
    with less[of "n div 10"] show ?thesis
      by (simp add: to_base.simps[of 10 n] digits_value_def of_char_digit)
  qed
qed

lemma to_base_not_Nil [simp]: "to_base b n \<noteq> []"
  by (subst to_base.simps) simp

lemma stoi_dec_string:
  assumes "n < 2 ^ 31"
  shows "stoi (dec_string n) = Inr n"
proof -
  have "takeWhile is_decimal (dec_string n) = dec_string n"
    using dec_string_decimal[of n] by (simp add: takeWhile_eq_all_conv)
  moreover obtain c cs where "dec_string n = c # cs" by (cases "dec_string n") simp_all
  moreover have "digits_value (dec_string n) = n" by simp
  ultimately show ?thesis
    using assms by (simp add: stoi_def)
qed

subsection \<open>Addresses\<close>

text \<open>\<open>inet_ntoa\<close> applied to an address in network byte order: four decimal numbers with dots.\<close>

definition inet_ntoa :: "32 word \<Rightarrow> string" where
  "inet_ntoa ip =
     dec_string (unat (drop_bit 24 ip)) @ ''.'' @ dec_string (unat (drop_bit 16 ip AND 0xff)) @ ''.'' @
     dec_string (unat (drop_bit 8 ip AND 0xff)) @ ''.'' @ dec_string (unat (ip AND 0xff))"

subsection \<open>hexdump\<close>

definition is_print :: "byte \<Rightarrow> bool" where
  "is_print b \<longleftrightarrow> 0x20 \<le> b \<and> b \<le> 0x7e"

definition show_char :: "byte \<Rightarrow> char" where
  "show_char b = (if is_print b then char_of (unat b) else CHR ''.'')"

text \<open>The stream \<open>pchars\<close> is given the contents \<open>" "\<close>, but its write position is at the start: the
  first character written replaces the space. The argument \<open>w\<close> is what was written.\<close>

definition pchars_str :: "string \<Rightarrow> string" where
  "pchars_str w = (if w = [] then '' '' else w)"

definition hexdump_prefix :: "string \<Rightarrow> nat \<Rightarrow> string \<Rightarrow> string \<times> string" where
  "hexdump_prefix indent printed w =
     (if printed AND 0xf = 0 then
        (let (out, w') = (if printed \<noteq> 0 then (''    '' @ pchars_str w @ newline, []) else ([], w))
         in (out @ indent @ set_width CHR ''0'' 8 (hex_string printed) @ '':    '', w'))
      else if printed AND 1 = 0 then ('' '', w)
      else ([], w))"

fun hexdump_loop :: "string \<Rightarrow> nat \<Rightarrow> string \<Rightarrow> bytes \<Rightarrow> string \<Rightarrow> nat \<times> string \<times> string" where
  "hexdump_loop indent printed w [] out = (printed, w, out)"
| "hexdump_loop indent printed w (b # data) out =
     (let (pre, w') = hexdump_prefix indent printed w
      in hexdump_loop indent (printed + 1) (w' @ [show_char b]) data
           (out @ pre @ set_width CHR ''0'' 2 (hex_string (unat b))))"

definition hexdump :: "bytes \<Rightarrow> nat \<Rightarrow> string" where
  "hexdump data indent =
     (let (printed, w, out) = hexdump_loop (replicate indent CHR '' '') 0 [] data [];
          print_rem = (16 - (printed AND 0xf)) mod 16
      in out @ replicate (2 * print_rem + print_rem div 2 + 4) CHR '' '' @ pchars_str w @ newline @ newline)"

subsection \<open>The TCP header\<close>

definition th_to_string :: "TCPHeader \<Rightarrow> string" where
  "th_to_string h =
     ''TCP source port: '' @ hex_string (unat (th_sport h)) @ newline @
     ''TCP dest port: '' @ hex_string (unat (th_dport h)) @ newline @
     ''TCP seqno: '' @ hex_string (unat (raw_value (th_seqno h))) @ newline @
     ''TCP ackno: '' @ hex_string (unat (raw_value (th_ackno h))) @ newline @
     ''TCP doff: '' @ hex_string (unat (th_doff h)) @ newline @
     ''Flags: urg: '' @ bool_alpha (th_urg h) @ '' ack: '' @ bool_alpha (th_ack h) @
     '' psh: '' @ bool_alpha (th_psh h) @ '' rst: '' @ bool_alpha (th_rst h) @
     '' syn: '' @ bool_alpha (th_syn h) @ '' fin: '' @ bool_alpha (th_fin h) @ newline @
     ''TCP winsize: '' @ hex_string (unat (th_win h)) @ newline @
     ''TCP cksum: '' @ hex_string (unat (th_cksum h)) @ newline @
     ''TCP uptr: '' @ hex_string (unat (th_uptr h)) @ newline"

definition th_summary :: "TCPHeader \<Rightarrow> string" where
  "th_summary h =
     ''Header(flags='' @ (if th_syn h then ''S'' else []) @ (if th_ack h then ''A'' else []) @
     (if th_rst h then ''R'' else []) @ (if th_fin h then ''F'' else []) @
     '',seqno='' @ dec_string (unat (raw_value (th_seqno h))) @
     '',ack='' @ dec_string (unat (raw_value (th_ackno h))) @
     '',win='' @ dec_string (unat (th_win h)) @ '')''"

subsection \<open>hexdump prints rows of sixteen\<close>

text \<open>The reference: a row is the indentation, the offset, the bytes in groups of two, padding
  up to a full row, and the characters.\<close>

fun hex_pairs :: "bytes \<Rightarrow> string" where
  "hex_pairs [] = []"
| "hex_pairs [a] = set_width CHR ''0'' 2 (hex_string (unat a))"
| "hex_pairs (a # b # r) = set_width CHR ''0'' 2 (hex_string (unat a)) @
     set_width CHR ''0'' 2 (hex_string (unat b)) @ (if r = [] then [] else '' '' @ hex_pairs r)"

definition dump_row :: "nat \<Rightarrow> nat \<Rightarrow> bytes \<Rightarrow> string" where
  "dump_row indent i row =
     replicate indent CHR '' '' @ set_width CHR ''0'' 8 (hex_string (16 * i)) @ '':    '' @ hex_pairs row @
     (let rem = 16 - length row in replicate (2 * rem + rem div 2 + 4) CHR '' '') @ map show_char row @ newline"

function dump_rows :: "nat \<Rightarrow> nat \<Rightarrow> bytes \<Rightarrow> string" where
  "dump_rows indent i data = (if data = [] then [] else
     dump_row indent i (take 16 data) @ dump_rows indent (Suc i) (drop 16 data))"
  by auto
termination by (relation "measure (\<lambda>(_, _, data). length data)") auto

declare dump_rows.simps [simp del]

lemma and_15: "(n :: nat) AND 15 = n mod 16"
proof -
  have "n AND 15 = take_bit 4 n" by (simp add: take_bit_eq_mask mask_eq_exp_minus_1)
  then show ?thesis by (simp add: take_bit_eq_mod)
qed

lemma and_nat_1: "(n :: nat) AND 1 = n mod 2"
  by (simp add: and_one_eq)

text \<open>Inside a row: a space before every byte at an even place.\<close>

fun row_tail :: "nat \<Rightarrow> bytes \<Rightarrow> string" where
  "row_tail k [] = []"
| "row_tail k (b # row) = (if even k then '' '' else []) @ set_width CHR ''0'' 2 (hex_string (unat b)) @
     row_tail (Suc k) row"

lemma row_tail_pairs: "odd k \<Longrightarrow> set_width CHR ''0'' 2 (hex_string (unat a)) @ row_tail k row = hex_pairs (a # row)"
proof (induction row arbitrary: a k rule: induct_list012)
  case (3 x y zs)
  from "3.IH"(1)[of "Suc (Suc k)" y] "3.prems" show ?case by (cases zs) simp_all
qed simp_all

lemma hexdump_loop_inside:
  "0 < k \<Longrightarrow> k + length row \<le> 16 \<Longrightarrow>
   hexdump_loop ind (16 * i + k) w (row @ rest) out =
   hexdump_loop ind (16 * i + k + length row) (w @ map show_char row) rest (out @ row_tail k row)"
proof (induction row arbitrary: k w out)
  case (Cons b row)
  have "hexdump_prefix ind (16 * i + k) w = (if even k then '' '' else [], w)"
    using Cons.prems and_15[of "16 * i + k"] and_nat_1[of "16 * i + k"]
    by (auto simp: hexdump_prefix_def mod2_eq_if)
  then show ?case
    using Cons.prems Cons.IH[of "Suc k"] by simp
qed simp

lemma hexdump_loop_row:
  assumes "row \<noteq> []" "length row \<le> 16" "i = 0 \<Longrightarrow> w = []"
  shows "hexdump_loop ind (16 * i) w (row @ rest) out =
    hexdump_loop ind (16 * i + length row) (map show_char row) rest
      (out @ (if i = 0 then [] else ''    '' @ pchars_str w @ newline) @ ind @
       set_width CHR ''0'' 8 (hex_string (16 * i)) @ '':    '' @ hex_pairs row)"
proof -
  from assms(1) obtain a r where row: "row = a # r" by (cases row) auto
  have "hexdump_prefix ind (16 * i) w = ((if i = 0 then [] else ''    '' @ pchars_str w @ newline) @ ind @
       set_width CHR ''0'' 8 (hex_string (16 * i)) @ '':    '', [])"
    using assms(3) by (auto simp: hexdump_prefix_def and_15)
  with assms(2) row hexdump_loop_inside[of 1 r ind i "[show_char a]" rest] row_tail_pairs[of 1 a r]
  show ?thesis by simp
qed

lemma replicate_4: "replicate 4 c = [c, c, c, c]"
  by (simp add: eval_nat_numeral)

lemma hexdump_loop_rows:
  assumes "data \<noteq> []" "i = 0 \<Longrightarrow> w = []"
  shows "(let (printed, w', out') = hexdump_loop (replicate indent CHR '' '') (16 * i) w data out;
              rem = (16 - (printed AND 0xf)) mod 16
          in out' @ replicate (2 * rem + rem div 2 + 4) CHR '' '' @ pchars_str w' @ newline)
    = out @ (if i = 0 then [] else ''    '' @ pchars_str w @ newline) @ dump_rows indent i data"
  using assms
proof (induction "length data" arbitrary: data i w out rule: less_induct)
  case less
  let ?row = "take 16 data" and ?rest = "drop 16 data" and ?ind = "replicate indent CHR '' ''"
  let ?out = "out @ (if i = 0 then [] else ''    '' @ pchars_str w @ newline) @ ?ind @
       set_width CHR ''0'' 8 (hex_string (16 * i)) @ '':    '' @ hex_pairs ?row"
  have "hexdump_loop ?ind (16 * i) w (?row @ ?rest) out =
      hexdump_loop ?ind (16 * i + length ?row) (map show_char ?row) ?rest ?out"
    using less.prems by (intro hexdump_loop_row) auto
  then have loop: "hexdump_loop ?ind (16 * i) w data out =
      hexdump_loop ?ind (16 * i + length ?row) (map show_char ?row) ?rest ?out" by simp
  have pc: "pchars_str (map show_char ?row) = map show_char ?row"
    using less.prems(1) by (simp add: pchars_str_def)
  have rows: "dump_rows indent i data = dump_row indent i ?row @ dump_rows indent (Suc i) ?rest"
    using less.prems(1) by (subst dump_rows.simps) simp
  show ?case
  proof (cases "?rest = []")
    case True
    then have "(16 - ((16 * i + length ?row) AND 15)) mod 16 = 16 - length ?row"
      using less.prems(1) by (cases "length data = 16") (simp_all add: and_15)
    then show ?thesis
      unfolding loop rows using True pc by (simp add: dump_row_def Let_def dump_rows.simps)
  next
    case False
    then have "length ?row = 16" by simp
    moreover have "length ?rest < length data" using less.prems(1) by simp
    ultimately show ?thesis
      unfolding loop rows using less.hyps[of ?rest "Suc i" "map show_char ?row" ?out] False pc
      by (simp add: dump_row_def add.commute replicate_4)
  qed
qed

text \<open>
  \<open>hexdump\<close> prints rows: for any data that is not empty, its output is one row for each
  sixteen bytes, the last one padded to the width of the others, and an empty line.
\<close>

theorem hexdump_rows:
  assumes "data \<noteq> []"
  shows "hexdump data indent = dump_rows indent 0 data @ newline"
  using hexdump_loop_rows[OF assms, of 0 "[]" indent "[]"]
  by (simp add: hexdump_def Let_def case_prod_beta)

theorem hexdump_rows_witness:
  "hexdump [0x41, 0x00, 0x7a] 1 = '' 00000000:    4100 7a'' @ replicate 36 CHR '' '' @ ''A.z'' @ newline @ newline"
proof -
  have "dump_rows 1 0 [0x41, 0x00, 0x7a] = '' 00000000:    4100 7a'' @ replicate 36 CHR '' '' @ ''A.z'' @ newline"
    by code_simp
  then show ?thesis using hexdump_rows[of "[0x41, 0x00, 0x7a]" 1] by simp
qed

end
