(* ===== verification/IPv4_Datagram.thy ===== *)
theory IPv4_Datagram
  imports Net_Print
begin

text \<open>
  The Internet layer (\<open>libsponge/tcp_helpers/ipv4_header.hh\<close>, \<open>ipv4_header.cc\<close>,
  \<open>ipv4_datagram.hh\<close> and \<open>ipv4_datagram.cc\<close>): the header with its parser, serializer,
  pseudo-header sum and textual forms, and the datagram.
\<close>

subsection \<open>The header\<close>

record IPv4Header =
  ih_ver :: "8 word"
  ih_hlen :: "8 word"
  ih_tos :: "8 word"
  ih_len :: "16 word"
  ih_id :: "16 word"
  ih_df :: bool
  ih_mf :: bool
  ih_offset :: "16 word"
  ih_ttl :: "8 word"
  ih_proto :: "8 word"
  ih_cksum :: "16 word"
  ih_src :: "32 word"
  ih_dst :: "32 word"

definition IPv4Header_LENGTH :: nat where
  "IPv4Header_LENGTH = 20"

definition DEFAULT_TTL :: "8 word" where
  "DEFAULT_TTL = 128"

definition PROTO_TCP :: "8 word" where
  "PROTO_TCP = 6"

definition ih_new :: IPv4Header where
  "ih_new = \<lparr>ih_ver = 4, ih_hlen = 5, ih_tos = 0, ih_len = 0, ih_id = 0, ih_df = True, ih_mf = False,
     ih_offset = 0, ih_ttl = DEFAULT_TTL, ih_proto = PROTO_TCP, ih_cksum = 0, ih_src = 0, ih_dst = 0\<rparr>"

definition ih_read :: "NetParser \<Rightarrow> IPv4Header \<times> NetParser" where
  "ih_read p0 =
     (let (first_byte, p1) = np_u8 p0;
          (tos, p2) = np_u8 p1;
          (len, p3) = np_u16 p2;
          (ident, p4) = np_u16 p3;
          (fo_val, p5) = np_u16 p4;
          (ttl, p6) = np_u8 p5;
          (proto, p7) = np_u8 p6;
          (cksum, p8) = np_u16 p7;
          (src, p9) = np_u32 p8;
          (dst, p10) = np_u32 p9
      in (\<lparr>ih_ver = drop_bit 4 first_byte, ih_hlen = first_byte AND 0x0f, ih_tos = tos, ih_len = len,
           ih_id = ident, ih_df = (fo_val AND 0x4000 \<noteq> 0), ih_mf = (fo_val AND 0x2000 \<noteq> 0),
           ih_offset = fo_val AND 0x1fff, ih_ttl = ttl, ih_proto = proto, ih_cksum = cksum,
           ih_src = src, ih_dst = dst\<rparr>, p10))"

definition ih_parse :: "IPv4Header \<Rightarrow> NetParser \<Rightarrow> ParseResult \<times> IPv4Header \<times> NetParser" where
  "ih_parse h0 p0 =
     (let data_size = buf_size (np_buffer p0) in
      if data_size < IPv4Header_LENGTH then (PacketTooShort, h0, p0)
      else
        let (h, p) = ih_read p0 in
        if data_size < 4 * unat (ih_hlen h) then (PacketTooShort, h, p)
        else if ih_ver h \<noteq> 4 then (WrongIPVersion, h, p)
        else if ih_hlen h < 5 then (HeaderTooShort, h, p)
        else if data_size \<noteq> unat (ih_len h) then (TruncatedPacket, h, p)
        else
          let p' = np_remove_prefix p (unat (ih_hlen h) * 4 - IPv4Header_LENGTH) in
          if np_has_error p' then (np_error p', h, p')
          else if ck_value (ck_add (ck_new 0) (take (4 * unat (ih_hlen h)) (buf_str (np_buffer p0)))) \<noteq> 0
          then (BadChecksum, h, p')
          else (NoError, h, p'))"

definition ih_fo_val :: "IPv4Header \<Rightarrow> 16 word" where
  "ih_fo_val h = (if ih_df h then 0x4000 else 0) OR (if ih_mf h then 0x2000 else 0) OR (ih_offset h AND 0x1fff)"

definition ih_first_byte :: "IPv4Header \<Rightarrow> 8 word" where
  "ih_first_byte h = push_bit 4 (ih_ver h) OR (ih_hlen h AND 0xf)"

definition ih_serialize :: "IPv4Header \<Rightarrow> cpp_error + bytes" where
  "ih_serialize h =
     (if ih_ver h \<noteq> 4 then Inl (RuntimeError ''wrong IP version'')
      else if 4 * unat (ih_hlen h) < IPv4Header_LENGTH then Inl (RuntimeError ''IP header too short'')
      else Inr (str_resize
        (nu_u8 (ih_first_byte h) @ nu_u8 (ih_tos h) @ nu_u16 (ih_len h) @ nu_u16 (ih_id h) @
         nu_u16 (ih_fo_val h) @ nu_u8 (ih_ttl h) @ nu_u8 (ih_proto h) @ nu_u16 (ih_cksum h) @
         nu_u32 (ih_src h) @ nu_u32 (ih_dst h))
        (4 * unat (ih_hlen h))))"

definition ih_payload_length :: "IPv4Header \<Rightarrow> 16 word" where
  "ih_payload_length h = ih_len h - 4 * ucast (ih_hlen h)"

definition ih_pseudo_cksum :: "IPv4Header \<Rightarrow> 32 word" where
  "ih_pseudo_cksum h =
     (drop_bit 16 (ih_src h) + (ih_src h AND 0xffff)) + (drop_bit 16 (ih_dst h) + (ih_dst h AND 0xffff)) +
     ucast (ih_proto h) + ucast (ih_payload_length h)"

definition ih_to_string :: "IPv4Header \<Rightarrow> string" where
  "ih_to_string h =
     ''IP version: '' @ hex_string (unat (ih_ver h)) @ newline @
     ''IP hdr len: '' @ hex_string (unat (ih_hlen h)) @ newline @
     ''IP tos: '' @ hex_string (unat (ih_tos h)) @ newline @
     ''IP dgram len: '' @ hex_string (unat (ih_len h)) @ newline @
     ''IP id: '' @ hex_string (unat (ih_id h)) @ newline @
     ''Flags: df: '' @ bool_alpha (ih_df h) @ '' mf: '' @ bool_alpha (ih_mf h) @ newline @
     ''Offset: '' @ hex_string (unat (ih_offset h)) @ newline @
     ''TTL: '' @ hex_string (unat (ih_ttl h)) @ newline @
     ''Protocol: '' @ hex_string (unat (ih_proto h)) @ newline @
     ''Checksum: '' @ hex_string (unat (ih_cksum h)) @ newline @
     ''Src addr: '' @ hex_string (unat (ih_src h)) @ newline @
     ''Dst addr: '' @ hex_string (unat (ih_dst h)) @ newline"

definition ih_summary :: "IPv4Header \<Rightarrow> string" where
  "ih_summary h =
     ''IPv'' @ hex_string (unat (ih_ver h)) @ '', len='' @ hex_string (unat (ih_len h)) @
     '', protocol='' @ hex_string (unat (ih_proto h)) @ '', '' @
     (if ih_ttl h \<ge> 10 then [] else ''ttl='' @ dec_string (unat (ih_ttl h)) @ '', '') @
     ''src='' @ inet_ntoa (ih_src h) @ '', dst='' @ inet_ntoa (ih_dst h)"

subsection \<open>The datagram\<close>

record IPv4Datagram =
  id_header :: IPv4Header
  id_payload :: BufferList

definition id_new :: IPv4Datagram where
  "id_new = \<lparr>id_header = ih_new, id_payload = []\<rparr>"

definition id_parse :: "IPv4Datagram \<Rightarrow> Buffer \<Rightarrow> ParseResult \<times> IPv4Datagram" where
  "id_parse d buffer =
     (let (res, h, p) = ih_parse (id_header d) (np_new buffer);
          d' = \<lparr>id_header = h, id_payload = [np_buffer p]\<rparr>
      in if bl_size (id_payload d') \<noteq> unat (ih_payload_length h) then (PacketTooShort, d')
         else (np_error p, d'))"

definition id_serialize :: "IPv4Datagram \<Rightarrow> cpp_error + BufferList" where
  "id_serialize d =
     (if bl_size (id_payload d) \<noteq> unat (ih_payload_length (id_header d))
      then Inl (RuntimeError ''IPv4Datagram::serialize: payload is wrong size'')
      else
        let header_out = (id_header d)\<lparr>ih_cksum := 0\<rparr> in
        throw_bind (ih_serialize header_out) (\<lambda>s0.
          let header_out' = header_out\<lparr>ih_cksum := ck_value (ck_add (ck_new 0) s0)\<rparr> in
          throw_bind (ih_serialize header_out') (\<lambda>s.
            Inr (bl_append (bl_append [] (bl_of_string s)) (id_payload d)))))"

subsection \<open>Round trip\<close>

text \<open>A header that can be written: version 4, a length of 5 to 15 words, an offset of 13 bits.\<close>

definition ih_ok :: "IPv4Header \<Rightarrow> bool" where
  "ih_ok h \<longleftrightarrow> ih_ver h = 4 \<and> 5 \<le> ih_hlen h \<and> ih_hlen h < 16 \<and> ih_offset h < 0x2000"

lemma word_and_mask_small:
  "x < 16 \<Longrightarrow> (x :: 8 word) AND 0xf = x" "y < 0x2000 \<Longrightarrow> (y :: 16 word) AND 0x1fff = y"
proof -
  have "x AND 0xf = take_bit 4 x" "y AND 0x1fff = take_bit 13 y"
    by (simp_all add: take_bit_eq_mask mask_eq_exp_minus_1)
  moreover have "x < 16 \<Longrightarrow> take_bit 4 x = x" "y < 0x2000 \<Longrightarrow> take_bit 13 y = y"
    by (simp_all add: take_bit_eq_mod word_less_nat_alt unat_mod_distrib flip: word_unat_eq_iff)
      (simp_all add: word_unat_eq_iff unat_mod_distrib)
  ultimately show "x < 16 \<Longrightarrow> x AND 0xf = x" "y < 0x2000 \<Longrightarrow> y AND 0x1fff = y" by simp_all
qed

lemma ih_first_byte_fields:
  assumes "ih_ok h"
  shows "drop_bit 4 (ih_first_byte h) = 4" "ih_first_byte h AND 0x0f = ih_hlen h"
proof -
  have "ih_first_byte h = 0x40 OR (ih_hlen h AND 0xf)"
    using assms by (simp add: ih_first_byte_def ih_ok_def)
  moreover have "drop_bit 4 (ih_hlen h AND 0xf) = 0"
    by (simp add: drop_bit_and)
  ultimately show "drop_bit 4 (ih_first_byte h) = 4"
    by (simp add: drop_bit_or)
  show "ih_first_byte h AND 0x0f = ih_hlen h"
    using assms word_and_mask_small(1)[of "ih_hlen h"]
    by (simp add: ih_first_byte_def word_ao_dist and.assoc ih_ok_def)
qed

lemma ih_fo_val_flags:
  "(ih_fo_val h AND 0x4000 \<noteq> 0) = ih_df h" "(ih_fo_val h AND 0x2000 \<noteq> 0) = ih_mf h"
  by (simp_all add: ih_fo_val_def word_ao_dist and.assoc)

lemma ih_fo_val_offset: "ih_ok h \<Longrightarrow> ih_fo_val h AND 0x1fff = ih_offset h"
  using word_and_mask_small(2)[of "ih_offset h"]
  by (simp add: ih_fo_val_def word_ao_dist and.assoc ih_ok_def)

lemma ih_serialize_length: "ih_serialize h = Inr s \<Longrightarrow> length s = 4 * unat (ih_hlen h)"
  by (auto simp: ih_serialize_def split: if_splits)

lemma ih_serialize_ok:
  assumes "ih_ok h"
  shows "ih_serialize h = Inr (nu_u8 (ih_first_byte h) @ nu_u8 (ih_tos h) @ nu_u16 (ih_len h) @
     nu_u16 (ih_id h) @ nu_u16 (ih_fo_val h) @ nu_u8 (ih_ttl h) @ nu_u8 (ih_proto h) @
     nu_u16 (ih_cksum h) @ nu_u32 (ih_src h) @ nu_u32 (ih_dst h) @
     replicate (4 * unat (ih_hlen h) - 20) 0)"
  using assms
  by (simp add: ih_serialize_def IPv4Header_LENGTH_def str_resize_extend ih_ok_def
      c8.put_width c16.put_width c32.put_width word_le_nat_alt not_less)

lemma ih_read_serialized:
  assumes "ih_ok h"
    and "np_at p0 (nu_u8 (ih_first_byte h) @ nu_u8 (ih_tos h) @ nu_u16 (ih_len h) @ nu_u16 (ih_id h) @
      nu_u16 (ih_fo_val h) @ nu_u8 (ih_ttl h) @ nu_u8 (ih_proto h) @ nu_u16 (ih_cksum h) @
      nu_u32 (ih_src h) @ nu_u32 (ih_dst h) @ rest)"
  shows "\<exists>p. ih_read p0 = (h, p) \<and> np_at p rest"
proof -
  from assms(2) obtain p1 where p1: "np_u8 p0 = (ih_first_byte h, p1)" and a1: "np_at p1 (nu_u8 (ih_tos h) @
      nu_u16 (ih_len h) @ nu_u16 (ih_id h) @ nu_u16 (ih_fo_val h) @ nu_u8 (ih_ttl h) @ nu_u8 (ih_proto h) @
      nu_u16 (ih_cksum h) @ nu_u32 (ih_src h) @ nu_u32 (ih_dst h) @ rest)" by (rule c8.get_step)
  from a1 obtain p2 where p2: "np_u8 p1 = (ih_tos h, p2)" and a2: "np_at p2 (nu_u16 (ih_len h) @ nu_u16 (ih_id h) @
      nu_u16 (ih_fo_val h) @ nu_u8 (ih_ttl h) @ nu_u8 (ih_proto h) @ nu_u16 (ih_cksum h) @
      nu_u32 (ih_src h) @ nu_u32 (ih_dst h) @ rest)" by (rule c8.get_step)
  from a2 obtain p3 where p3: "np_u16 p2 = (ih_len h, p3)" and a3: "np_at p3 (nu_u16 (ih_id h) @
      nu_u16 (ih_fo_val h) @ nu_u8 (ih_ttl h) @ nu_u8 (ih_proto h) @ nu_u16 (ih_cksum h) @
      nu_u32 (ih_src h) @ nu_u32 (ih_dst h) @ rest)" by (rule c16.get_step)
  from a3 obtain p4 where p4: "np_u16 p3 = (ih_id h, p4)" and a4: "np_at p4 (nu_u16 (ih_fo_val h) @
      nu_u8 (ih_ttl h) @ nu_u8 (ih_proto h) @ nu_u16 (ih_cksum h) @ nu_u32 (ih_src h) @
      nu_u32 (ih_dst h) @ rest)" by (rule c16.get_step)
  from a4 obtain p5 where p5: "np_u16 p4 = (ih_fo_val h, p5)" and a5: "np_at p5 (nu_u8 (ih_ttl h) @
      nu_u8 (ih_proto h) @ nu_u16 (ih_cksum h) @ nu_u32 (ih_src h) @ nu_u32 (ih_dst h) @ rest)"
    by (rule c16.get_step)
  from a5 obtain p6 where p6: "np_u8 p5 = (ih_ttl h, p6)" and a6: "np_at p6 (nu_u8 (ih_proto h) @
      nu_u16 (ih_cksum h) @ nu_u32 (ih_src h) @ nu_u32 (ih_dst h) @ rest)" by (rule c8.get_step)
  from a6 obtain p7 where p7: "np_u8 p6 = (ih_proto h, p7)" and a7: "np_at p7 (nu_u16 (ih_cksum h) @
      nu_u32 (ih_src h) @ nu_u32 (ih_dst h) @ rest)" by (rule c8.get_step)
  from a7 obtain p8 where p8: "np_u16 p7 = (ih_cksum h, p8)" and
    a8: "np_at p8 (nu_u32 (ih_src h) @ nu_u32 (ih_dst h) @ rest)" by (rule c16.get_step)
  from a8 obtain p9 where p9: "np_u32 p8 = (ih_src h, p9)" and a9: "np_at p9 (nu_u32 (ih_dst h) @ rest)"
    by (rule c32.get_step)
  from a9 obtain p where p: "np_u32 p9 = (ih_dst h, p)" "np_at p rest" by (rule c32.get_step)
  have "ih_read p0 = (h, p)"
    using assms(1) p1 p2 p3 p4 p5 p6 p7 p8 p9 p(1)
    by (simp add: ih_read_def ih_first_byte_fields ih_fo_val_flags ih_fo_val_offset ih_ok_def)
  with p(2) show ?thesis by blast
qed

lemma ih_parse_serialize:
  assumes "ih_ok h" "ih_serialize h = Inr s" "np_at p0 (s @ rest)" "length (s @ rest) = unat (ih_len h)"
    and "ck_value (ck_add (ck_new 0) s) = 0"
  shows "\<exists>p. (\<forall>h0. ih_parse h0 p0 = (NoError, h, p)) \<and> np_at p rest"
proof -
  let ?skip = "4 * unat (ih_hlen h) - 20"
  have len: "length s = 4 * unat (ih_hlen h)" "20 \<le> length s"
    using ih_serialize_length[OF assms(2)] assms(1) by (simp_all add: ih_ok_def word_le_nat_alt)
  obtain p where p: "ih_read p0 = (h, p)" "np_at p (replicate ?skip 0 @ rest)"
    using ih_read_serialized[OF assms(1), of p0 "replicate ?skip 0 @ rest"] assms(2,3)
      ih_serialize_ok[OF assms(1)] by auto
  let ?p = "np_remove_prefix p ?skip"
  have at: "np_at ?p rest" using np_remove_prefix_at[OF p(2), of ?skip] by simp
  then have "\<not> np_has_error ?p" by (simp add: np_at_def np_has_error_def)
  moreover have "buf_size (np_buffer p0) = unat (ih_len h)" "take (4 * unat (ih_hlen h)) (buf_str (np_buffer p0)) = s"
    using assms(3,4) len by (simp_all add: np_at_def buf_size_def)
  moreover have "4 * unat (ih_hlen h) \<le> unat (ih_len h)" "20 \<le> unat (ih_len h)"
    using len assms(4) by simp_all
  moreover have "ih_ver h = 4" "\<not> ih_hlen h < 5" using assms(1) by (simp_all add: ih_ok_def not_less)
  ultimately have "ih_parse h0 p0 = (NoError, h, ?p)" for h0
    using p(1) assms(5) by (simp add: ih_parse_def IPv4Header_LENGTH_def mult.commute Let_def)
  with at show ?thesis by blast
qed

lemma ih_serialize_cksum_sum:
  assumes "ih_ok h" "ih_serialize (h\<lparr>ih_cksum := 0\<rparr>) = Inr s0" "ih_serialize (h\<lparr>ih_cksum := v\<rparr>) = Inr s"
  shows "be_sum False s = be_sum False s0 + unat v"
proof -
  have "nu_u16 (0 :: 16 word) = [0, 0]"
    by (simp add: nu_u16_def nu_unparse_int_def upt_rec numeral_2_eq_2)
  moreover have "ih_ok (h\<lparr>ih_cksum := 0\<rparr>)" "ih_ok (h\<lparr>ih_cksum := v\<rparr>)"
    using assms(1) by (simp_all add: ih_ok_def)
  ultimately show ?thesis
    using assms(2,3) ih_serialize_ok[of "h\<lparr>ih_cksum := 0\<rparr>"] ih_serialize_ok[of "h\<lparr>ih_cksum := v\<rparr>"]
    by (auto simp: be_sum_append be_sum_u16 c8.put_width c16.put_width c32.put_width
        ih_first_byte_def ih_fo_val_def)
qed

text \<open>A datagram whose length field is that of its header and payload.\<close>

definition id_ok :: "IPv4Datagram \<Rightarrow> bool" where
  "id_ok d \<longleftrightarrow> ih_ok (id_header d) \<and>
     unat (ih_len (id_header d)) = 4 * unat (ih_hlen (id_header d)) + bl_size (id_payload d)"

lemma ih_payload_length_eq:
  assumes "unat (ih_len h) = 4 * unat (ih_hlen h) + n"
  shows "unat (ih_payload_length h) = n"
proof -
  have "unat (ih_len h) < 2 ^ 16" using unsigned_less[of "ih_len h", where 'a = nat] by simp
  then have "unat (4 * ucast (ih_hlen h) :: 16 word) = 4 * unat (ih_hlen h)"
    using assms by (simp add: unat_word_ariths unsigned_ucast_eq take_bit_eq_mod)
  then show ?thesis
    using assms by (simp add: ih_payload_length_def unat_sub word_le_nat_alt)
qed

lemma id_serialize_string:
  assumes "id_ok d"
  obtains bl v s where "id_serialize d = Inr bl"
    and "ih_serialize ((id_header d)\<lparr>ih_cksum := v\<rparr>) = Inr s"
    and "bl = buf_of_string s # id_payload d" "ck_value (ck_add (ck_new 0) s) = 0"
proof -
  let ?h = "id_header d"
  have ok: "ih_ok ?h" "ih_ok (?h\<lparr>ih_cksum := v\<rparr>)" for v
    using assms by (simp_all add: id_ok_def ih_ok_def)
  obtain s0 where s0: "ih_serialize (?h\<lparr>ih_cksum := 0\<rparr>) = Inr s0"
    using ih_serialize_ok[OF ok(2)] by blast
  let ?v = "ck_value (ck_add (ck_new 0) s0)"
  obtain s where s: "ih_serialize (?h\<lparr>ih_cksum := ?v\<rparr>) = Inr s"
    using ih_serialize_ok[OF ok(2)] by blast
  have len: "length s = 4 * unat (ih_hlen ?h)" "length s0 = 4 * unat (ih_hlen ?h)" "unat (ih_hlen ?h) < 16"
    using ih_serialize_length[OF s] ih_serialize_length[OF s0] ok(1)
    by (simp_all add: ih_ok_def word_less_nat_alt)
  have "be_sum False s = be_sum False s0 + unat ?v"
    by (rule ih_serialize_cksum_sum[OF ok(1) s0 s])
  then have "ck_value (ck_add (ck_new 0) s) = 0"
    using len by (intro ck_fill_in[of 0 s s0]) (auto simp: sum_fits_def)
  moreover have "id_serialize d = Inr (buf_of_string s # id_payload d)"
    using assms s0 s ih_payload_length_eq[of ?h "bl_size (id_payload d)"]
    by (simp add: id_serialize_def id_ok_def bl_append_def bl_of_string_def Let_def)
  ultimately show thesis using that[OF _ s] by blast
qed

lemma id_parse_serialize:
  assumes "id_ok d"
  obtains bl v where "id_serialize d = Inr bl"
    and "bl_size bl = unat (ih_len (id_header d))"
    and "\<forall>d0 buf. buf_ok buf \<and> buf_str buf = bl_concatenate bl \<longrightarrow>
      (\<exists>b p. id_parse d0 buf = (NoError, \<lparr>id_header = (id_header d)\<lparr>ih_cksum := v\<rparr>, id_payload = [b]\<rparr>) \<and>
        buf_ok b \<and> buf_str b = bl_concatenate (id_payload d) \<and>
        ih_parse ih_new (np_new buf) = (NoError, (id_header d)\<lparr>ih_cksum := v\<rparr>, p))"
proof -
  let ?h = "id_header d" and ?pl = "bl_concatenate (id_payload d)"
  obtain bl v s where bl: "id_serialize d = Inr bl" and s: "ih_serialize (?h\<lparr>ih_cksum := v\<rparr>) = Inr s"
    and con: "bl = buf_of_string s # id_payload d" and ck: "ck_value (ck_add (ck_new 0) s) = 0"
    using id_serialize_string[OF assms] by blast
  let ?h' = "?h\<lparr>ih_cksum := v\<rparr>"
  have ok: "ih_ok ?h'" using assms by (simp add: id_ok_def ih_ok_def)
  have len: "length (s @ ?pl) = unat (ih_len ?h')"
    using ih_serialize_length[OF s] assms by (simp add: id_ok_def bl_size_concatenate)
  have "\<exists>b p. id_parse d0 buf = (NoError, \<lparr>id_header = ?h', id_payload = [b]\<rparr>) \<and> buf_ok b \<and> buf_str b = ?pl \<and>
      ih_parse ih_new (np_new buf) = (NoError, ?h', p)"
    if buf: "buf_ok buf" "buf_str buf = bl_concatenate bl" for d0 buf
  proof -
    have at: "np_at (np_new buf) (s @ ?pl)"
      using np_at_new[OF buf(1)] buf(2) by (simp add: con)
    obtain p where p: "ih_parse h0 (np_new buf) = (NoError, ?h', p)" "np_at p ?pl" for h0
      using ih_parse_serialize[OF ok s at len ck] by blast
    have "unat (ih_payload_length ?h') = length ?pl"
      using assms by (intro ih_payload_length_eq) (simp add: id_ok_def bl_size_concatenate)
    then have "id_parse d0 buf = (NoError, \<lparr>id_header = ?h', id_payload = [np_buffer p]\<rparr>)"
      using p by (simp add: id_parse_def buf_size_def np_at_def)
    with p show ?thesis by (auto simp: np_at_def)
  qed
  moreover have "bl_size bl = unat (ih_len ?h)" using len con by (simp add: bl_size_concatenate)
  ultimately show thesis using that[OF bl] by blast
qed

lemma dgram_string_ok:
  assumes "bl_size bl = unat (ih_len h)"
  shows "buf_ok (buf_of_string (bl_concatenate bl))"
proof -
  have "unat (ih_len h) < 2 ^ 16" using unsigned_less[of "ih_len h", where 'a = nat] by simp
  then show ?thesis using assms by (simp add: bl_size_concatenate two64_def)
qed

text \<open>
  C27. A datagram survives the wire: when the header can be written and its length field is that
  of header and payload, what \<open>IPv4Datagram::serialize\<close> produces is accepted by
  \<open>IPv4Datagram::parse\<close> (and by \<open>IPv4Header::parse\<close>, its checksum included) with every header
  field but the checksum and with the payload as they were.
\<close>

theorem ipv4_roundtrip:
  assumes "id_ok d"
  shows "\<exists>bl d' p. id_serialize d = Inr bl \<and>
    id_parse d0 (buf_of_string (bl_concatenate bl)) = (NoError, d') \<and>
    (id_header d')\<lparr>ih_cksum := ih_cksum (id_header d)\<rparr> = id_header d \<and>
    bl_concatenate (id_payload d') = bl_concatenate (id_payload d) \<and>
    ih_parse ih_new (np_new (buf_of_string (bl_concatenate bl))) = (NoError, id_header d', p)"
proof -
  obtain bl v where bl: "id_serialize d = Inr bl" "bl_size bl = unat (ih_len (id_header d))"
    and "\<forall>d0 buf. buf_ok buf \<and> buf_str buf = bl_concatenate bl \<longrightarrow>
      (\<exists>b p. id_parse d0 buf = (NoError, \<lparr>id_header = (id_header d)\<lparr>ih_cksum := v\<rparr>, id_payload = [b]\<rparr>) \<and>
        buf_ok b \<and> buf_str b = bl_concatenate (id_payload d) \<and>
        ih_parse ih_new (np_new buf) = (NoError, (id_header d)\<lparr>ih_cksum := v\<rparr>, p))"
    using id_parse_serialize[OF assms] by metis
  from this(3)[rule_format, of "buf_of_string (bl_concatenate bl)" d0] dgram_string_ok[OF bl(2)] bl(1)
  show ?thesis by auto
qed

definition example_datagram :: IPv4Datagram where
  "example_datagram = \<lparr>id_header = ih_new\<lparr>ih_len := 23, ih_src := 0x0a000001, ih_dst := 0x0a000002\<rparr>,
     id_payload = [buf_of_string [1, 2, 3]]\<rparr>"

lemma example_datagram_ok: "id_ok example_datagram"
  by (simp add: example_datagram_def id_ok_def ih_ok_def ih_new_def buf_size_def)

theorem ipv4_roundtrip_witness:
  "\<exists>bl d'. id_serialize example_datagram = Inr bl \<and>
    id_parse id_new (buf_of_string (bl_concatenate bl)) = (NoError, d') \<and>
    ih_src (id_header d') = 0x0a000001 \<and> bl_concatenate (id_payload d') = [1, 2, 3]"
proof -
  obtain bl d' where 1: "id_serialize example_datagram = Inr bl"
    "id_parse id_new (buf_of_string (bl_concatenate bl)) = (NoError, d')"
    "(id_header d')\<lparr>ih_cksum := ih_cksum (id_header example_datagram)\<rparr> = id_header example_datagram"
    "bl_concatenate (id_payload d') = bl_concatenate (id_payload example_datagram)"
    using ipv4_roundtrip[OF example_datagram_ok, of id_new] by blast
  have "ih_src (id_header d') = ih_src ((id_header d')\<lparr>ih_cksum := ih_cksum (id_header example_datagram)\<rparr>)"
    by simp
  also have "\<dots> = 0x0a000001" unfolding 1(3) by (simp add: example_datagram_def)
  finally show ?thesis using 1 by (simp add: example_datagram_def)
qed

subsection \<open>The result of parsing\<close>

lemma np_u16_at:
  assumes "np_at p (a # b # bs)"
  shows "unat (fst (np_u16 p)) = 256 * unat a + unat b"
proof -
  have "fst (np_u16 p) = 256 * ucast a + (ucast b :: 16 word)"
    using np_parse_int_at(1)[OF assms, of 2, where 'a = 16]
    by (simp add: np_u16_def numeral_2_eq_2 push_bit_eq_mult)
  moreover have "unat a < 256" "unat b < 256"
    using unsigned_less[of a, where 'a = nat] unsigned_less[of b, where 'a = nat] by simp_all
  ultimately show ?thesis
    by (simp add: unat_word_ariths unsigned_ucast_eq take_bit_eq_mod)
qed

text \<open>The fields that \<open>parse\<close> looks at, as bytes of the string.\<close>

definition dgram_version :: "bytes \<Rightarrow> nat" where
  "dgram_version bs = unat (drop_bit 4 (bs ! 0))"

definition dgram_hlen :: "bytes \<Rightarrow> nat" where
  "dgram_hlen bs = unat (bs ! 0 AND 0x0f)"

definition dgram_len :: "bytes \<Rightarrow> nat" where
  "dgram_len bs = 256 * unat (bs ! 2) + unat (bs ! 3)"

lemma ih_read_at:
  assumes "np_at p0 bs" "20 \<le> length bs" "ih_read p0 = (h, p)"
  shows "unat (ih_ver h) = dgram_version bs" "unat (ih_hlen h) = dgram_hlen bs" "unat (ih_len h) = dgram_len bs"
    and "np_at p (drop 20 bs)"
proof -
  let ?p1 = "snd (np_u8 p0)"
  let ?p2 = "snd (np_u8 ?p1)"
  let ?p5 = "snd (np_u16 (snd (np_u16 (snd (np_u16 ?p2)))))"
  let ?p8 = "snd (np_u16 (snd (np_u8 (snd (np_u8 ?p5)))))"
  let ?p10 = "snd (np_u32 (snd (np_u32 ?p8)))"
  have p2: "np_at ?p2 (drop 1 (drop 1 bs))"
    using assms(1,2) by (intro np_u8_advance) auto
  have "np_at ?p10 (drop 4 (drop 4 (drop 2 (drop 1 (drop 1 (drop 2 (drop 2 (drop 2 (drop 1 (drop 1 bs))))))))))"
    using assms(1,2) by (intro np_u8_advance np_u16_advance np_u32_advance) auto
  then have "np_at ?p10 (drop 20 bs)" by simp
  moreover obtain b0 b1 b2 b3 r where bs: "bs = b0 # b1 # b2 # b3 # r"
    using assms(2) by (cases bs; cases "tl bs"; cases "tl (tl bs)"; cases "tl (tl (tl bs))") auto
  then have "unat (fst (np_u16 ?p2)) = dgram_len bs"
    using np_u16_at[of ?p2 b2 b3 r] p2 by (simp add: dgram_len_def)
  moreover have "fst (np_u8 p0) = bs ! 0"
    using np_u8_at[of p0 b0] assms(1) bs by simp
  ultimately show "unat (ih_ver h) = dgram_version bs" "unat (ih_hlen h) = dgram_hlen bs"
    "unat (ih_len h) = dgram_len bs" "np_at p (drop 20 bs)"
    using assms(3) by (auto simp: ih_read_def case_prod_beta Let_def dgram_version_def dgram_hlen_def)
qed

text \<open>\<open>IPv4Header::parse\<close> goes past the options only when everything but the checksum is right.\<close>

definition dgram_well_formed :: "bytes \<Rightarrow> bool" where
  "dgram_well_formed bs \<longleftrightarrow> 4 * dgram_hlen bs \<le> length bs \<and> dgram_version bs = 4 \<and> 5 \<le> dgram_hlen bs \<and>
     length bs = dgram_len bs"

lemma ih_parse_at:
  assumes "np_at p0 bs" "20 \<le> length bs" "ih_parse h0 p0 = (r, h, p)"
  shows "unat (ih_hlen h) = dgram_hlen bs" "unat (ih_len h) = dgram_len bs"
    and "np_at p (drop (if dgram_well_formed bs then 4 * dgram_hlen bs else 20) bs)"
    and "r = (if length bs < 4 * dgram_hlen bs then PacketTooShort
              else if dgram_version bs \<noteq> 4 then WrongIPVersion
              else if dgram_hlen bs < 5 then HeaderTooShort
              else if length bs \<noteq> dgram_len bs then TruncatedPacket
              else if ck_value (ck_add (ck_new 0) (take (4 * dgram_hlen bs) bs)) \<noteq> 0 then BadChecksum
              else NoError)"
proof -
  obtain h' p' where rd: "ih_read p0 = (h', p')" by fastforce
  note f = ih_read_at[OF assms(1,2) rd]
  have size: "buf_size (np_buffer p0) = length bs" "buf_str (np_buffer p0) = bs"
    using assms(1) by (simp_all add: np_at_def buf_size_def)
  have ver: "ih_ver h' = 4 \<longleftrightarrow> dgram_version bs = 4" using f(1) by (simp add: word_unat_eq_iff)
  have hlen: "ih_hlen h' < 5 \<longleftrightarrow> dgram_hlen bs < 5" using f(2) by (simp add: word_less_nat_alt)
  let ?skip = "dgram_hlen bs * 4 - 20"
  let ?p = "np_remove_prefix p' ?skip"
  have "drop ?skip (drop 20 bs) = drop (4 * dgram_hlen bs) bs" if "5 \<le> dgram_hlen bs"
    using that by (simp add: mult.commute)
  then have at: "np_at ?p (drop (4 * dgram_hlen bs) bs)" if "dgram_well_formed bs"
    using np_remove_prefix_at[OF f(4), of ?skip] that assms(2)
    by (simp add: dgram_well_formed_def mult.commute diff_le_mono)
  then have err: "\<not> np_has_error ?p" if "dgram_well_formed bs"
    using that by (simp add: np_at_def np_has_error_def)
  have "\<not> length bs < 20" using assms(2) by simp
  then have eq: "ih_parse h0 p0 =
     (if length bs < 4 * dgram_hlen bs then (PacketTooShort, h', p')
      else if dgram_version bs \<noteq> 4 then (WrongIPVersion, h', p')
      else if dgram_hlen bs < 5 then (HeaderTooShort, h', p')
      else if length bs \<noteq> dgram_len bs then (TruncatedPacket, h', p')
      else if ck_value (ck_add (ck_new 0) (take (4 * dgram_hlen bs) bs)) \<noteq> 0 then (BadChecksum, h', ?p)
      else (NoError, h', ?p))"
    using err by (simp add: ih_parse_def Let_def rd IPv4Header_LENGTH_def size f(2,3) ver hlen dgram_well_formed_def)
  then show "unat (ih_hlen h) = dgram_hlen bs" "unat (ih_len h) = dgram_len bs"
    using assms(3) f(2,3) by (auto split: if_splits)
  show "np_at p (drop (if dgram_well_formed bs then 4 * dgram_hlen bs else 20) bs)"
    using assms(3) eq at f(4) by (auto simp: dgram_well_formed_def split: if_splits)
  show "r = (if length bs < 4 * dgram_hlen bs then PacketTooShort
              else if dgram_version bs \<noteq> 4 then WrongIPVersion
              else if dgram_hlen bs < 5 then HeaderTooShort
              else if length bs \<noteq> dgram_len bs then TruncatedPacket
              else if ck_value (ck_add (ck_new 0) (take (4 * dgram_hlen bs) bs)) \<noteq> 0 then BadChecksum
              else NoError)"
    using assms(3) eq by (auto split: if_splits)
qed

lemma payload_length_value:
  "int (unat (ih_payload_length h)) = (int (unat (ih_len h)) - 4 * int (unat (ih_hlen h))) mod 2 ^ 16"
proof -
  have "uint (ih_payload_length h) = (uint (ih_len h) - uint (4 * ucast (ih_hlen h) :: 16 word)) mod 2 ^ 16"
    by (simp add: ih_payload_length_def uint_word_ariths)
  also have "uint (4 * ucast (ih_hlen h) :: 16 word) = 4 * uint (ih_hlen h)"
    using unsigned_less[of "ih_hlen h", where 'a = int]
    by (simp add: uint_word_ariths unsigned_ucast_eq take_bit_eq_mod)
  finally show ?thesis by simp
qed

text \<open>
  C31. The result of \<open>IPv4Datagram::parse\<close> on a new datagram, in every case: the errors that
  \<open>IPv4Header::parse\<close> finds (a wrong version, a short header, a wrong total length, a bad
  checksum) are not looked at; a string of at least 20 bytes is accepted when it is well formed
  apart from the checksum, or when what follows the first 20 bytes happens to be as long as the
  length field minus the header length, modulo \<open>2 ^ 16\<close>.
\<close>

theorem ipv4_parse_result:
  assumes "buf_ok b"
  shows "fst (id_parse id_new b) =
    (let bs = buf_str b in
     if 20 \<le> length bs \<and>
        (dgram_well_formed bs \<or>
         int (length bs) - 20 = (int (dgram_len bs) - 4 * int (dgram_hlen bs)) mod 2 ^ 16)
     then NoError else PacketTooShort)"
proof (cases "20 \<le> length (buf_str b)")
  case False
  then have "ih_parse ih_new (np_new b) = (PacketTooShort, ih_new, np_new b)"
    by (simp add: ih_parse_def IPv4Header_LENGTH_def buf_size_def np_new_def)
  moreover have "unat (ih_payload_length ih_new) = 65516"
    by (simp add: ih_payload_length_def ih_new_def)
  ultimately show ?thesis
    using False by (simp add: id_parse_def id_new_def np_new_def buf_size_def)
next
  case True
  let ?bs = "buf_str b"
  obtain r h p where p: "ih_parse ih_new (np_new b) = (r, h, p)" by (metis prod_cases3)
  note f = ih_parse_at[OF np_at_new[OF assms] True p]
  have size: "buf_size (np_buffer p) = length ?bs - (if dgram_well_formed ?bs then 4 * dgram_hlen ?bs else 20)"
    "np_error p = NoError"
    using f(3) by (simp_all add: np_at_def buf_size_def)
  have pl: "int (unat (ih_payload_length h)) = (int (dgram_len ?bs) - 4 * int (dgram_hlen ?bs)) mod 2 ^ 16"
    using payload_length_value[of h] f(1,2) by simp
  have "unat (ih_payload_length h) = length ?bs - 4 * dgram_hlen ?bs" if wf: "dgram_well_formed ?bs"
  proof -
    have "int (dgram_len ?bs) < 2 ^ 16"
      using f(2) unsigned_less[of "ih_len h", where 'a = nat] by simp
    moreover have "4 * dgram_hlen ?bs \<le> dgram_len ?bs" "length ?bs = dgram_len ?bs"
      using wf by (simp_all add: dgram_well_formed_def)
    ultimately have "(int (dgram_len ?bs) - 4 * int (dgram_hlen ?bs)) mod 2 ^ 16 =
        int (length ?bs - 4 * dgram_hlen ?bs)" by simp
    with pl have "int (unat (ih_payload_length h)) = int (length ?bs - 4 * dgram_hlen ?bs)" by (simp only:)
    then show ?thesis by (simp only: of_nat_eq_iff)
  qed
  moreover have "length ?bs - 20 = unat (ih_payload_length h) \<longleftrightarrow>
      int (length ?bs) - 20 = (int (dgram_len ?bs) - 4 * int (dgram_hlen ?bs)) mod 2 ^ 16"
    unfolding pl[symmetric] using True by linarith
  ultimately show ?thesis
    using True p size by (simp add: id_parse_def id_new_def Let_def)
qed

text \<open>Version 6 and a wrong checksum, yet accepted.\<close>

theorem ipv4_parse_result_witness:
  "fst (id_parse id_new (buf_of_string
     [0x65, 0, 0, 20, 0, 0, 0, 0, 64, 6, 0xff, 0xff, 0, 0, 0, 0, 0, 0, 0, 0])) = NoError \<and>
   fst (ih_parse ih_new (np_new (buf_of_string
     [0x65, 0, 0, 20, 0, 0, 0, 0, 64, 6, 0xff, 0xff, 0, 0, 0, 0, 0, 0, 0, 0]))) = WrongIPVersion"
proof -
  let ?s = "[0x65, 0, 0, 20, 0, 0, 0, 0, 64, 6, 0xff, 0xff, 0, 0, 0, 0, 0, 0, 0, 0] :: bytes"
  define b where "b = buf_of_string ?s"
  have b: "buf_ok b" "buf_str b = ?s" by (simp_all add: b_def two64_def)
  have s: "dgram_len (buf_str b) = 20" "dgram_hlen (buf_str b) = 5" "dgram_version (buf_str b) = 6"
    "length (buf_str b) = 20"
    unfolding b(2) by (simp_all add: dgram_len_def dgram_hlen_def dgram_version_def)
  have "fst (id_parse id_new b) = NoError"
    unfolding ipv4_parse_result[OF b(1)] Let_def s by simp
  moreover obtain r h p where p: "ih_parse ih_new (np_new b) = (r, h, p)" by (metis prod_cases3)
  moreover have "r = WrongIPVersion"
    using ih_parse_at(4)[OF np_at_new[OF b(1)] _ p] unfolding s by simp
  ultimately show ?thesis by (simp add: b_def)
qed

end
