(* ===== verification/Ethernet_Frame.thy ===== *)
theory Ethernet_Frame
  imports IPv4_Datagram
begin

text \<open>
  The link layer's formats (\<open>libsponge/tcp_helpers/ethernet_header.hh\<close>, \<open>ethernet_header.cc\<close>,
  \<open>ethernet_frame.hh\<close>, \<open>ethernet_frame.cc\<close>, \<open>arp_message.hh\<close> and \<open>arp_message.cc\<close>):
  Ethernet addresses, headers and frames, and ARP messages. An Ethernet address is read and
  written by another instance of the interface of the integer codecs.
\<close>

subsection \<open>Ethernet addresses\<close>

datatype EthernetAddress = EthernetAddress byte byte byte byte byte byte

fun eth_bytes :: "EthernetAddress \<Rightarrow> bytes" where
  "eth_bytes (EthernetAddress a b c d e f) = [a, b, c, d, e, f]"

definition ETHERNET_BROADCAST :: EthernetAddress where
  "ETHERNET_BROADCAST = EthernetAddress 0xff 0xff 0xff 0xff 0xff 0xff"

definition eth_zero :: EthernetAddress where
  "eth_zero = EthernetAddress 0 0 0 0 0 0"

text \<open>The loops that read and write the six bytes.\<close>

definition eth_parse :: "NetParser \<Rightarrow> EthernetAddress \<times> NetParser" where
  "eth_parse p0 =
     (let (a, p1) = np_u8 p0; (b, p2) = np_u8 p1; (c, p3) = np_u8 p2;
          (d, p4) = np_u8 p3; (e, p5) = np_u8 p4; (f, p6) = np_u8 p5
      in (EthernetAddress a b c d e f, p6))"

definition eth_serialize :: "EthernetAddress \<Rightarrow> bytes" where
  "eth_serialize a = concat (map nu_u8 (eth_bytes a))"

definition eth_to_string :: "EthernetAddress \<Rightarrow> string" where
  "eth_to_string a = concat (map2 (\<lambda>i b. set_width CHR ''0'' 2 (hex_string (unat b)) @ (if i \<noteq> 5 then '':'' else []))
     [0..<6] (eth_bytes a))"

lemma eth_serialize_simp:
  "eth_serialize (EthernetAddress a b c d e f) @ rest =
     nu_u8 a @ nu_u8 b @ nu_u8 c @ nu_u8 d @ nu_u8 e @ nu_u8 f @ rest"
  by (simp add: eth_serialize_def)

interpretation c48: net_codec eth_serialize eth_parse 6
proof (unfold_locales, goal_cases)
  case (1 p v rest)
  obtain a b c d e f where v: "v = EthernetAddress a b c d e f" by (cases v)
  with 1 have "np_at p (nu_u8 a @ nu_u8 b @ nu_u8 c @ nu_u8 d @ nu_u8 e @ nu_u8 f @ rest)"
    by (simp add: eth_serialize_simp)
  then obtain p1 where p1: "np_u8 p = (a, p1)" "np_at p1 (nu_u8 b @ nu_u8 c @ nu_u8 d @ nu_u8 e @ nu_u8 f @ rest)"
    by (rule c8.get_step)
  from p1(2) obtain p2 where p2: "np_u8 p1 = (b, p2)" "np_at p2 (nu_u8 c @ nu_u8 d @ nu_u8 e @ nu_u8 f @ rest)"
    by (rule c8.get_step)
  from p2(2) obtain p3 where p3: "np_u8 p2 = (c, p3)" "np_at p3 (nu_u8 d @ nu_u8 e @ nu_u8 f @ rest)"
    by (rule c8.get_step)
  from p3(2) obtain p4 where p4: "np_u8 p3 = (d, p4)" "np_at p4 (nu_u8 e @ nu_u8 f @ rest)" by (rule c8.get_step)
  from p4(2) obtain p5 where p5: "np_u8 p4 = (e, p5)" "np_at p5 (nu_u8 f @ rest)" by (rule c8.get_step)
  from p5(2) obtain p6 where p6: "np_u8 p5 = (f, p6)" "np_at p6 rest" by (rule c8.get_step)
  show ?case using v p1 p2 p3 p4 p5 p6 by (simp add: eth_parse_def)
next
  case (2 v)
  then show ?case by (cases v) (simp add: eth_serialize_def c8.put_width)
next
  case (3 p)
  then show ?case by (simp add: eth_parse_def case_prod_beta Let_def c8.get_left left_after_add eval_nat_numeral)
qed

subsection \<open>Header and frame\<close>

record EthernetHeader =
  eh_dst :: EthernetAddress
  eh_src :: EthernetAddress
  eh_type :: "16 word"

definition EthernetHeader_LENGTH :: nat where
  "EthernetHeader_LENGTH = 14"

definition TYPE_IPv4 :: "16 word" where
  "TYPE_IPv4 = 0x800"

definition TYPE_ARP :: "16 word" where
  "TYPE_ARP = 0x806"

definition eh_parse :: "EthernetHeader \<Rightarrow> NetParser \<Rightarrow> ParseResult \<times> EthernetHeader \<times> NetParser" where
  "eh_parse h p0 =
     (if buf_size (np_buffer p0) < EthernetHeader_LENGTH then (PacketTooShort, h, p0)
      else
        let (dst, p1) = eth_parse p0; (src, p2) = eth_parse p1; (typ, p3) = np_u16 p2
        in (np_error p3, \<lparr>eh_dst = dst, eh_src = src, eh_type = typ\<rparr>, p3))"

definition eh_serialize :: "EthernetHeader \<Rightarrow> bytes" where
  "eh_serialize h = eth_serialize (eh_dst h) @ eth_serialize (eh_src h) @ nu_u16 (eh_type h)"

definition eh_to_string :: "EthernetHeader \<Rightarrow> string" where
  "eh_to_string h =
     ''dst='' @ eth_to_string (eh_dst h) @ '', src='' @ eth_to_string (eh_src h) @ '', type='' @
     (if eh_type h = TYPE_IPv4 then ''IPv4''
      else if eh_type h = TYPE_ARP then ''ARP''
      else ''[unknown type '' @ hex_string (unat (eh_type h)) @ ''!]'')"

record EthernetFrame =
  ef_header :: EthernetHeader
  ef_payload :: BufferList

definition ef_new :: EthernetFrame where
  "ef_new = \<lparr>ef_header = \<lparr>eh_dst = eth_zero, eh_src = eth_zero, eh_type = 0\<rparr>, ef_payload = []\<rparr>"

definition ef_parse :: "EthernetFrame \<Rightarrow> Buffer \<Rightarrow> ParseResult \<times> EthernetFrame" where
  "ef_parse f buffer =
     (let (res, h, p) = eh_parse (ef_header f) (np_new buffer)
      in (np_error p, \<lparr>ef_header = h, ef_payload = [np_buffer p]\<rparr>))"

definition ef_serialize :: "EthernetFrame \<Rightarrow> BufferList" where
  "ef_serialize f = bl_append (bl_append [] (bl_of_string (eh_serialize (ef_header f)))) (ef_payload f)"

lemma eh_serialize_length [simp]: "length (eh_serialize h) = 14"
  by (simp add: eh_serialize_def c48.put_width c16.put_width)

lemma eh_parse_serialize:
  assumes "np_at p0 (eh_serialize h @ rest)"
  shows "\<exists>p. (\<forall>h0. eh_parse h0 p0 = (NoError, h, p)) \<and> np_at p rest"
proof -
  have "np_at p0 (eth_serialize (eh_dst h) @ eth_serialize (eh_src h) @ nu_u16 (eh_type h) @ rest)"
    using assms by (simp add: eh_serialize_def)
  then obtain p1 where p1: "eth_parse p0 = (eh_dst h, p1)" "np_at p1 (eth_serialize (eh_src h) @ nu_u16 (eh_type h) @ rest)"
    by (rule c48.get_step)
  from p1(2) obtain p2 where p2: "eth_parse p1 = (eh_src h, p2)" "np_at p2 (nu_u16 (eh_type h) @ rest)"
    by (rule c48.get_step)
  from p2(2) obtain p3 where p3: "np_u16 p2 = (eh_type h, p3)" "np_at p3 rest" by (rule c16.get_step)
  have "buf_size (np_buffer p0) \<ge> 14" using assms by (simp add: np_at_def buf_size_def)
  then have "eh_parse h0 p0 = (NoError, h, p3)" for h0
    using p1(1) p2(1) p3 by (simp add: eh_parse_def EthernetHeader_LENGTH_def np_at_def not_less)
  with p3(2) show ?thesis by blast
qed

lemma ef_parse_serialize:
  assumes "bl_size (ef_payload f) < 2 ^ 63"
  shows "\<exists>b. ef_parse f0 (buf_of_string (bl_concatenate (ef_serialize f))) = (NoError, f\<lparr>ef_payload := [b]\<rparr>) \<and>
    buf_ok b \<and> buf_str b = bl_concatenate (ef_payload f)"
proof -
  let ?s = "eh_serialize (ef_header f) @ bl_concatenate (ef_payload f)"
  have s: "bl_concatenate (ef_serialize f) = ?s"
    by (simp add: ef_serialize_def bl_append_def bl_of_string_def)
  have "np_at (np_new (buf_of_string ?s)) ?s"
    using np_at_new[of "buf_of_string ?s"] assms by (simp add: bl_size_concatenate two64_def)
  then obtain p where p: "\<forall>h0. eh_parse h0 (np_new (buf_of_string ?s)) = (NoError, ef_header f, p)"
    "np_at p (bl_concatenate (ef_payload f))"
    using eh_parse_serialize by blast
  then have "ef_parse f0 (buf_of_string ?s) = (NoError, f\<lparr>ef_payload := [np_buffer p]\<rparr>)"
    by (simp add: ef_parse_def np_at_def)
  with p(2) show ?thesis unfolding s by (auto simp: np_at_def)
qed

text \<open>
  A frame survives the wire: what \<open>EthernetFrame::serialize\<close> produces
  \<open>EthernetFrame::parse\<close> reads back, the header and the bytes of the payload.
\<close>

theorem ethernet_roundtrip:
  assumes "bl_size (ef_payload f) < 2 ^ 63"
  shows "\<exists>f'. ef_parse f0 (buf_of_string (bl_concatenate (ef_serialize f))) = (NoError, f') \<and>
    ef_header f' = ef_header f \<and> bl_concatenate (ef_payload f') = bl_concatenate (ef_payload f)"
  using ef_parse_serialize[OF assms, of f0] by auto

theorem ethernet_roundtrip_witness:
  "\<exists>f'. ef_parse ef_new (buf_of_string (bl_concatenate (ef_serialize (ef_new\<lparr>ef_payload := bl_of_string [7]\<rparr>)))) =
      (NoError, f') \<and> bl_concatenate (ef_payload f') = [7]"
  using ethernet_roundtrip[of "ef_new\<lparr>ef_payload := bl_of_string [7]\<rparr>" ef_new]
  by (auto simp: bl_of_string_def buf_size_def)

text \<open>
  A frame that is too short for a header is not an error: the result of
  \<open>EthernetHeader::parse\<close> is not looked at, so the frame keeps the header it had (all zeros for a
  new one) and takes all the bytes as its payload.
\<close>

theorem ethernet_runt_accepted:
  assumes "buf_size b < 14"
  shows "ef_parse f b = (NoError, f\<lparr>ef_payload := [b]\<rparr>) \<and> fst (eh_parse (ef_header f) (np_new b)) = PacketTooShort"
  using assms by (simp add: ef_parse_def eh_parse_def EthernetHeader_LENGTH_def np_new_def)

theorem ethernet_runt_accepted_witness:
  "fst (ef_parse ef_new (buf_of_string [1, 2, 3])) = NoError"
  using ethernet_runt_accepted[of "buf_of_string [1, 2, 3]" ef_new] by (simp add: buf_size_def)

subsection \<open>ARP messages\<close>

record ARPMessage =
  am_hardware_type :: "16 word"
  am_protocol_type :: "16 word"
  am_hardware_address_size :: "8 word"
  am_protocol_address_size :: "8 word"
  am_opcode :: "16 word"
  am_sender_ethernet_address :: EthernetAddress
  am_sender_ip_address :: "32 word"
  am_target_ethernet_address :: EthernetAddress
  am_target_ip_address :: "32 word"

definition ARPMessage_LENGTH :: nat where
  "ARPMessage_LENGTH = 28"

definition TYPE_ETHERNET :: "16 word" where
  "TYPE_ETHERNET = 1"

definition OPCODE_REQUEST :: "16 word" where
  "OPCODE_REQUEST = 1"

definition OPCODE_REPLY :: "16 word" where
  "OPCODE_REPLY = 2"

definition am_new :: ARPMessage where
  "am_new = \<lparr>am_hardware_type = TYPE_ETHERNET, am_protocol_type = TYPE_IPv4, am_hardware_address_size = 6,
     am_protocol_address_size = 4, am_opcode = 0, am_sender_ethernet_address = eth_zero,
     am_sender_ip_address = 0, am_target_ethernet_address = eth_zero, am_target_ip_address = 0\<rparr>"

definition am_supported :: "ARPMessage \<Rightarrow> bool" where
  "am_supported m \<longleftrightarrow> am_hardware_type m = TYPE_ETHERNET \<and> am_protocol_type m = TYPE_IPv4 \<and>
     am_hardware_address_size m = 6 \<and> am_protocol_address_size m = 4 \<and>
     (am_opcode m = OPCODE_REQUEST \<or> am_opcode m = OPCODE_REPLY)"

definition am_parse :: "ARPMessage \<Rightarrow> Buffer \<Rightarrow> ParseResult \<times> ARPMessage" where
  "am_parse m buffer =
     (let p0 = np_new buffer in
      if buf_size (np_buffer p0) < ARPMessage_LENGTH then (PacketTooShort, m)
      else
        let (htype, p1) = np_u16 p0; (ptype, p2) = np_u16 p1;
            (hsize, p3) = np_u8 p2; (psize, p4) = np_u8 p3; (opcode, p5) = np_u16 p4;
            m1 = m\<lparr>am_hardware_type := htype, am_protocol_type := ptype, am_hardware_address_size := hsize,
                   am_protocol_address_size := psize, am_opcode := opcode\<rparr>
        in if \<not> am_supported m1 then (Unsupported, m1)
           else
             let (seth, p6) = eth_parse p5; (sip, p7) = np_u32 p6;
                 (teth, p8) = eth_parse p7; (tip, p9) = np_u32 p8
             in (np_error p9, m1\<lparr>am_sender_ethernet_address := seth, am_sender_ip_address := sip,
                    am_target_ethernet_address := teth, am_target_ip_address := tip\<rparr>))"

definition am_serialize :: "ARPMessage \<Rightarrow> cpp_error + bytes" where
  "am_serialize m =
     (if \<not> am_supported m then Inl (RuntimeError
        ''ARPMessage::serialize(): unsupported field combination (must be Ethernet/IP, and request or reply)'')
      else Inr (nu_u16 (am_hardware_type m) @ nu_u16 (am_protocol_type m) @
        nu_u8 (am_hardware_address_size m) @ nu_u8 (am_protocol_address_size m) @ nu_u16 (am_opcode m) @
        eth_serialize (am_sender_ethernet_address m) @ nu_u32 (am_sender_ip_address m) @
        eth_serialize (am_target_ethernet_address m) @ nu_u32 (am_target_ip_address m)))"

definition am_to_string :: "ARPMessage \<Rightarrow> string" where
  "am_to_string m =
     ''opcode='' @ (if am_opcode m = OPCODE_REPLY then ''REPLY''
                    else if am_opcode m = OPCODE_REQUEST then ''REQUEST'' else ''(unknown type)'') @
     '', sender='' @ eth_to_string (am_sender_ethernet_address m) @ ''/'' @ inet_ntoa (am_sender_ip_address m) @
     '', target='' @ eth_to_string (am_target_ethernet_address m) @ ''/'' @ inet_ntoa (am_target_ip_address m)"

lemma am_parse_serialize:
  assumes "am_serialize m = Inr s" "buf_ok b" "buf_str b = s @ rest"
  shows "am_parse m0 b = (NoError, m)"
proof -
  have s: "s = nu_u16 (am_hardware_type m) @ nu_u16 (am_protocol_type m) @
        nu_u8 (am_hardware_address_size m) @ nu_u8 (am_protocol_address_size m) @ nu_u16 (am_opcode m) @
        eth_serialize (am_sender_ethernet_address m) @ nu_u32 (am_sender_ip_address m) @
        eth_serialize (am_target_ethernet_address m) @ nu_u32 (am_target_ip_address m)" and sup: "am_supported m"
    using assms(1) by (auto simp: am_serialize_def split: if_splits)
  let ?t8 = "nu_u32 (am_target_ip_address m) @ rest"
  let ?t7 = "eth_serialize (am_target_ethernet_address m) @ ?t8"
  let ?t6 = "nu_u32 (am_sender_ip_address m) @ ?t7"
  let ?t5 = "eth_serialize (am_sender_ethernet_address m) @ ?t6"
  let ?t4 = "nu_u16 (am_opcode m) @ ?t5"
  let ?t3 = "nu_u8 (am_protocol_address_size m) @ ?t4"
  let ?t2 = "nu_u8 (am_hardware_address_size m) @ ?t3"
  let ?t1 = "nu_u16 (am_protocol_type m) @ ?t2"
  have size: "28 \<le> buf_size b"
    by (simp add: buf_size_def assms(3) s c8.put_width c16.put_width c32.put_width c48.put_width)
  have "np_at (np_new b) (nu_u16 (am_hardware_type m) @ ?t1)"
    using np_at_new[OF assms(2)] by (simp add: assms(3) s)
  then obtain p1 where p1: "np_u16 (np_new b) = (am_hardware_type m, p1)" "np_at p1 ?t1" by (rule c16.get_step)
  from p1(2) obtain p2 where p2: "np_u16 p1 = (am_protocol_type m, p2)" "np_at p2 ?t2" by (rule c16.get_step)
  from p2(2) obtain p3 where p3: "np_u8 p2 = (am_hardware_address_size m, p3)" "np_at p3 ?t3" by (rule c8.get_step)
  from p3(2) obtain p4 where p4: "np_u8 p3 = (am_protocol_address_size m, p4)" "np_at p4 ?t4" by (rule c8.get_step)
  from p4(2) obtain p5 where p5: "np_u16 p4 = (am_opcode m, p5)" "np_at p5 ?t5" by (rule c16.get_step)
  from p5(2) obtain p6 where p6: "eth_parse p5 = (am_sender_ethernet_address m, p6)" "np_at p6 ?t6"
    by (rule c48.get_step)
  from p6(2) obtain p7 where p7: "np_u32 p6 = (am_sender_ip_address m, p7)" "np_at p7 ?t7" by (rule c32.get_step)
  from p7(2) obtain p8 where p8: "eth_parse p7 = (am_target_ethernet_address m, p8)" "np_at p8 ?t8"
    by (rule c48.get_step)
  from p8(2) obtain p9 where p9: "np_u32 p8 = (am_target_ip_address m, p9)" "np_at p9 rest" by (rule c32.get_step)
  have "am_supported (m0\<lparr>am_hardware_type := am_hardware_type m, am_protocol_type := am_protocol_type m,
      am_hardware_address_size := am_hardware_address_size m,
      am_protocol_address_size := am_protocol_address_size m, am_opcode := am_opcode m\<rparr>)"
    using sup by (simp add: am_supported_def)
  moreover have "np_buffer (np_new b) = b" by (simp add: np_new_def)
  ultimately show ?thesis
    using p1(1) p2(1) p3(1) p4(1) p5(1) p6(1) p7(1) p8(1) p9 size
    by (simp add: am_parse_def ARPMessage_LENGTH_def np_at_def Let_def)
qed

lemma am_serialize_length: "am_serialize m = Inr s \<Longrightarrow> length s = 28"
  by (auto simp: am_serialize_def c8.put_width c16.put_width c32.put_width c48.put_width split: if_splits)

text \<open>
  C32. ARP messages: \<open>serialize\<close> throws exactly on the combinations of fields that are not
  supported, and what it writes otherwise, followed by anything (such as the padding of a short
  frame), \<open>parse\<close> reads back field by field.
\<close>

theorem arp_roundtrip:
  assumes "length rest < 2 ^ 63"
  shows "if am_supported m
    then \<exists>s. am_serialize m = Inr s \<and> am_parse m0 (buf_of_string (s @ rest)) = (NoError, m)
    else \<exists>e. am_serialize m = Inl e"
proof (cases "am_supported m")
  case True
  then obtain s where s: "am_serialize m = Inr s" by (simp add: am_serialize_def)
  then have "buf_ok (buf_of_string (s @ rest))" using assms am_serialize_length[OF s] by (simp add: two64_def)
  with s am_parse_serialize[OF s] True show ?thesis by simp
qed (simp add: am_serialize_def)

theorem arp_roundtrip_witness:
  "\<exists>s. am_serialize (am_new\<lparr>am_opcode := OPCODE_REPLY, am_sender_ip_address := 7\<rparr>) = Inr s \<and>
     am_parse am_new (buf_of_string (s @ [0, 0])) = (NoError, am_new\<lparr>am_opcode := OPCODE_REPLY, am_sender_ip_address := 7\<rparr>)"
  using arp_roundtrip[of "[0, 0]" "am_new\<lparr>am_opcode := OPCODE_REPLY, am_sender_ip_address := 7\<rparr>" am_new]
  by (simp add: am_supported_def am_new_def)

end
