(* ===== verification/Net_Address.thy ===== *)
theory Net_Address
  imports Net_Print
begin

text \<open>
  Socket addresses (\<open>libsponge/util/address.hh\<close> and \<open>address.cc\<close>): the bytes of a
  \<open>sockaddr_storage\<close> and how many of them count. The functions of the C library that resolve and
  print names are arguments of the definitions that use them (record \<open>Resolver\<close>);
  \<open>numeric_resolver\<close> says what they do with numeric IPv4 addresses. The address family is
  stored as on a little-endian machine.
\<close>

subsection \<open>Addresses\<close>

record Address =
  ad_size :: nat
  ad_storage :: bytes

record addrinfo =
  ai_flags :: nat
  ai_family :: nat

record Resolver =
  rs_getaddrinfo :: "string \<Rightarrow> string \<Rightarrow> addrinfo \<Rightarrow> int \<times> bytes option"
  rs_getnameinfo :: "bytes \<Rightarrow> int \<times> string \<times> string"

definition AF_INET :: nat where
  "AF_INET = 2"

definition AI_NUMERICHOST :: nat where
  "AI_NUMERICHOST = 0x4"

definition AI_ALL :: nat where
  "AI_ALL = 0x10"

definition AI_NUMERICSERV :: nat where
  "AI_NUMERICSERV = 0x400"

definition ad_of_sockaddr :: "bytes \<Rightarrow> cpp_error + Address" where
  "ad_of_sockaddr addr =
     (if length addr > 128 then Inl (RuntimeError ''invalid sockaddr size'')
      else Inr \<lparr>ad_size = length addr, ad_storage = addr @ replicate (128 - length addr) 0\<rparr>)"

definition ad_resolve :: "Resolver \<Rightarrow> string \<Rightarrow> string \<Rightarrow> addrinfo \<Rightarrow> cpp_error + Address" where
  "ad_resolve rs node service hints =
     (let (gai_ret, resolved) = rs_getaddrinfo rs node service hints in
      if gai_ret \<noteq> 0 then
        Inl (TaggedError ''gai_error_category'' (''getaddrinfo('' @ node @ '', '' @ service @ '')'') gai_ret)
      else case resolved of
        None \<Rightarrow> Inl (RuntimeError ''getaddrinfo returned successfully but with no results'')
      | Some addr \<Rightarrow> ad_of_sockaddr addr)"

definition make_hints :: "nat \<Rightarrow> nat \<Rightarrow> addrinfo" where
  "make_hints flags family = \<lparr>ai_flags = flags, ai_family = family\<rparr>"

definition ad_of_host :: "Resolver \<Rightarrow> string \<Rightarrow> string \<Rightarrow> cpp_error + Address" where
  "ad_of_host rs hostname service = ad_resolve rs hostname service (make_hints AI_ALL AF_INET)"

definition ad_of_ip :: "Resolver \<Rightarrow> string \<Rightarrow> 16 word \<Rightarrow> cpp_error + Address" where
  "ad_of_ip rs ip port =
     ad_resolve rs ip (dec_string (unat port)) (make_hints (AI_NUMERICHOST OR AI_NUMERICSERV) AF_INET)"

definition ad_ip_port :: "Resolver \<Rightarrow> Address \<Rightarrow> cpp_error + (string \<times> 16 word)" where
  "ad_ip_port rs a =
     (let (gni_ret, ip, port) = rs_getnameinfo rs (take (ad_size a) (ad_storage a)) in
      if gni_ret \<noteq> 0 then Inl (TaggedError ''gai_error_category'' ''getnameinfo'' gni_ret)
      else throw_bind (stoi port) (\<lambda>n. Inr (ip, word_of_nat n)))"

definition ad_ip :: "Resolver \<Rightarrow> Address \<Rightarrow> cpp_error + string" where
  "ad_ip rs a = throw_bind (ad_ip_port rs a) (\<lambda>x. Inr (fst x))"

definition ad_port :: "Resolver \<Rightarrow> Address \<Rightarrow> cpp_error + 16 word" where
  "ad_port rs a = throw_bind (ad_ip_port rs a) (\<lambda>x. Inr (snd x))"

definition ad_to_string :: "Resolver \<Rightarrow> Address \<Rightarrow> cpp_error + string" where
  "ad_to_string rs a = throw_bind (ad_ip_port rs a) (\<lambda>x. Inr (fst x @ '':'' @ dec_string (unat (snd x))))"

definition ad_family :: "Address \<Rightarrow> nat" where
  "ad_family a = unat (ad_storage a ! 0) + 256 * unat (ad_storage a ! 1)"

definition be32toh :: "bytes \<Rightarrow> 32 word" where
  "be32toh bs = fold (\<lambda>b ret. push_bit 8 ret + ucast b) bs 0"

definition ad_ipv4_numeric :: "Address \<Rightarrow> cpp_error + 32 word" where
  "ad_ipv4_numeric a =
     (if ad_family a \<noteq> AF_INET \<or> ad_size a \<noteq> 16
      then Inl (RuntimeError ''ipv4_numeric called on non-IPV4 address'')
      else Inr (be32toh (take 4 (drop 4 (ad_storage a)))))"

text \<open>The bytes of a \<open>sockaddr_in\<close>: family, port and address in network byte order, padding.\<close>

definition sockaddr_in :: "32 word \<Rightarrow> 16 word \<Rightarrow> bytes" where
  "sockaddr_in ip port = [2, 0] @ nu_u16 port @ nu_u32 ip @ replicate 8 0"

definition from_ipv4_numeric :: "32 word \<Rightarrow> cpp_error + Address" where
  "from_ipv4_numeric ip_address = ad_of_sockaddr (sockaddr_in ip_address 0)"

definition ad_equal :: "Address \<Rightarrow> Address \<Rightarrow> bool" where
  "ad_equal a other \<longleftrightarrow> ad_size a = ad_size other \<and>
     take (ad_size a) (ad_storage a) = take (ad_size a) (ad_storage other)"

subsection \<open>IPv4 addresses\<close>

definition inet_address :: "32 word \<Rightarrow> 16 word \<Rightarrow> Address" where
  "inet_address ip port = \<lparr>ad_size = 16, ad_storage = sockaddr_in ip port @ replicate 112 0\<rparr>"

text \<open>What the C library documents about numeric hosts and services: \<open>getaddrinfo\<close> turns a dotted
  quad and a decimal port into the socket address, and \<open>getnameinfo\<close> turns it back.\<close>

definition numeric_resolver :: "Resolver \<Rightarrow> bool" where
  "numeric_resolver rs \<longleftrightarrow>
     (\<forall>ip (port :: 16 word).
        rs_getaddrinfo rs (inet_ntoa ip) (dec_string (unat port))
          (make_hints (AI_NUMERICHOST OR AI_NUMERICSERV) AF_INET) = (0, Some (sockaddr_in ip port)) \<and>
        rs_getnameinfo rs (sockaddr_in ip port) = (0, inet_ntoa ip, dec_string (unat port)))"

lemma sockaddr_in_length [simp]: "length (sockaddr_in ip port) = 16"
  by (simp add: sockaddr_in_def c16.put_width c32.put_width)

lemma ad_of_sockaddr_in: "ad_of_sockaddr (sockaddr_in ip port) = Inr (inet_address ip port)"
  by (simp add: ad_of_sockaddr_def inet_address_def)

lemma be32toh_unparse: "be32toh (nu_u32 ip) = ip"
  using fold_unparse[of 4 4 ip] by (simp add: be32toh_def nu_u32_def nu_unparse_int_def)

lemma inet_address_numeric [simp]: "ad_ipv4_numeric (inet_address ip port) = Inr ip"
proof -
  have "take 4 (drop 4 (ad_storage (inet_address ip port))) = nu_u32 ip"
    by (simp add: inet_address_def sockaddr_in_def c16.put_width c32.put_width)
  then show ?thesis
    by (simp add: ad_ipv4_numeric_def be32toh_unparse ad_family_def inet_address_def sockaddr_in_def AF_INET_def)
qed

lemma inet_address_ip_port [simp]:
  assumes "numeric_resolver rs"
  shows "ad_ip_port rs (inet_address ip port) = Inr (inet_ntoa ip, port)"
proof -
  have "unat port < 2 ^ 31" using unsigned_less[of port, where 'a = nat] by simp
  moreover have "take 16 (ad_storage (inet_address ip port)) = sockaddr_in ip port"
    by (simp add: inet_address_def)
  ultimately show ?thesis
    using assms by (simp add: ad_ip_port_def numeric_resolver_def stoi_dec_string inet_address_def)
qed

lemma inet_address_port [simp]: "numeric_resolver rs \<Longrightarrow> ad_port rs (inet_address ip port) = Inr port"
  by (simp add: ad_port_def)

lemma ad_of_ip_numeric [simp]: "numeric_resolver rs \<Longrightarrow> ad_of_ip rs (inet_ntoa ip) port = Inr (inet_address ip port)"
  by (simp add: ad_of_ip_def ad_resolve_def numeric_resolver_def ad_of_sockaddr_in)

lemma sockaddr_in_inject [simp]: "sockaddr_in ip port = sockaddr_in ip' port' \<longleftrightarrow> ip = ip' \<and> port = port'"
proof
  assume *: "sockaddr_in ip port = sockaddr_in ip' port'"
  then have "nu_u16 port @ (nu_u32 ip @ replicate 8 0) = nu_u16 port' @ (nu_u32 ip' @ replicate 8 0)"
    by (simp add: sockaddr_in_def)
  then have "port = port' \<and> nu_u32 ip @ replicate 8 0 = nu_u32 ip' @ replicate 8 0"
    by (intro c16.put_inject) (simp_all add: two64_def c32.put_width)
  moreover from this have "ip = ip'"
    by (intro conjunct1[OF c32.put_inject[of "replicate 8 0" ip ip' "replicate 8 0"]]) (simp_all add: two64_def)
  ultimately show "ip = ip' \<and> port = port'" by simp
qed simp

lemma inet_address_equal [simp]: "ad_equal (inet_address ip port) (inet_address ip' port') \<longleftrightarrow> ip = ip' \<and> port = port'"
  by (simp add: ad_equal_def inet_address_def)

text \<open>
  Conversions of addresses agree: an address made from a number gives the number back, and
  prints as the dotted quad with port 0; an address made from a dotted quad and a port has this
  number, this text and this port; and two such addresses are equal exactly when number and port
  are.
\<close>

theorem address_conversions:
  assumes "numeric_resolver rs"
  shows "\<exists>a b. from_ipv4_numeric ip = Inr a \<and> ad_ipv4_numeric a = Inr ip \<and>
      ad_to_string rs a = Inr (inet_ntoa ip @ '':0'') \<and>
    ad_of_ip rs (inet_ntoa ip') port = Inr b \<and> ad_ipv4_numeric b = Inr ip' \<and>
      ad_ip_port rs b = Inr (inet_ntoa ip', port) \<and>
    (ad_equal a b \<longleftrightarrow> ip = ip' \<and> port = 0)"
proof -
  have "dec_string 0 = ''0''" by code_simp
  then have "ad_to_string rs (inet_address ip 0) = Inr (inet_ntoa ip @ '':0'')"
    using assms by (simp add: ad_to_string_def)
  then show ?thesis
    using assms by (auto simp: from_ipv4_numeric_def ad_of_sockaddr_in)
qed

text \<open>A resolver for numeric IPv4 addresses.\<close>

fun split_dots :: "string \<Rightarrow> string list" where
  "split_dots [] = [[]]"
| "split_dots (c # s) = (if c = CHR ''.'' then [] # split_dots s
     else case split_dots s of [] \<Rightarrow> [[c]] | w # ws \<Rightarrow> (c # w) # ws)"

definition numeric_only :: Resolver where
  "numeric_only = \<lparr>
     rs_getaddrinfo = (\<lambda>node service hints.
       let quad = map (\<lambda>s. word_of_nat (digits_value s) :: byte) (split_dots node) in
       if length quad \<noteq> 4 then (-2, None)
       else (0, Some ([2, 0] @ nu_u16 (word_of_nat (digits_value service)) @ quad @ replicate 8 0))),
     rs_getnameinfo = (\<lambda>addr.
       if length addr \<noteq> 16 then (-6, [], [])
       else (0, inet_ntoa (be32toh (take 4 (drop 4 addr))),
             dec_string (256 * unat (addr ! 2) + unat (addr ! 3))))\<rparr>"

lemma dec_string_no_dot: "c \<in> set (dec_string n) \<Longrightarrow> c \<noteq> CHR ''.''"
  using dec_string_decimal[of n] by (auto simp: is_decimal_def)

lemma split_dots_word:
  assumes "CHR ''.'' \<notin> set w"
  shows "split_dots w = [w]" "split_dots (w @ CHR ''.'' # r) = w # split_dots r"
  using assms by (induction w) auto

lemma split_dots_dec:
  "split_dots (dec_string n) = [dec_string n]"
  "split_dots (dec_string n @ CHR ''.'' # r) = dec_string n # split_dots r"
  using dec_string_no_dot split_dots_word by blast+

lemma word_of_nat_unat_byte: "(word_of_nat (unat (x :: 32 word)) :: byte) = ucast x"
  by (simp add: unsigned_def ucast_eq)

lemma numeric_only_resolves: "numeric_resolver numeric_only"
  unfolding numeric_resolver_def
proof (intro allI conjI)
  fix ip :: "32 word" and port :: "16 word"
  have "drop_bit 24 ip AND 0xff = drop_bit 24 ip"
  proof -
    have "drop_bit 24 ip AND 0xff = take_bit 8 (drop_bit 24 ip)"
      by (simp add: take_bit_eq_mask mask_eq_exp_minus_1)
    also have "\<dots> = drop_bit 24 ip"
      by (intro bit_word_eqI) (auto simp: bit_simps dest: bit_imp_le_length)
    finally show ?thesis .
  qed
  then have quad: "map (\<lambda>s. word_of_nat (digits_value s) :: byte) (split_dots (inet_ntoa ip)) = nu_u32 ip"
    by (simp add: inet_ntoa_def split_dots_dec word_of_nat_unat_byte nu_u32_def nu_unparse_int_def upt_rec)
  then have "length (split_dots (inet_ntoa ip)) = 4"
    using c32.put_width[of ip] by (metis length_map)
  with quad show "rs_getaddrinfo numeric_only (inet_ntoa ip) (dec_string (unat port))
      (make_hints (AI_NUMERICHOST OR AI_NUMERICSERV) AF_INET) = (0, Some (sockaddr_in ip port))"
    by (simp add: numeric_only_def Let_def sockaddr_in_def c32.put_width)
  have "take 4 (drop 4 (sockaddr_in ip port)) = nu_u32 ip"
    by (simp add: sockaddr_in_def c16.put_width c32.put_width)
  moreover have "256 * unat (sockaddr_in ip port ! 2) + unat (sockaddr_in ip port ! 3) = unat port"
  proof -
    obtain x y where "nu_u16 port = [x, y]"
      using c16.put_width[of port] by (auto simp: numeral_2_eq_2 length_Suc_conv)
    then show ?thesis using be_sum_u16[of port] by (simp add: sockaddr_in_def)
  qed
  ultimately show "rs_getnameinfo numeric_only (sockaddr_in ip port) = (0, inet_ntoa ip, dec_string (unat port))"
    by (simp add: numeric_only_def be32toh_unparse)
qed

theorem address_conversions_witness:
  "\<exists>a b. from_ipv4_numeric 0x0a000001 = Inr a \<and> ad_to_string numeric_only a = Inr (inet_ntoa 0x0a000001 @ '':0'') \<and>
    ad_of_ip numeric_only (inet_ntoa 0x0a000001) 80 = Inr b \<and> \<not> ad_equal a b"
  using address_conversions[OF numeric_only_resolves, of "0x0a000001" "0x0a000001" 80] by auto

end
