(* ===== verification/FD_Adapters.thy ===== *)
theory FD_Adapters
  imports IPv4_Datagram Net_Address
begin

text \<open>
  Adapters between TCP segments and what travels below them
  (\<open>libsponge/tcp_helpers/fd_adapter.hh\<close>, \<open>fd_adapter.cc\<close>, \<open>tcp_over_ip.hh\<close>,
  \<open>tcp_over_ip.cc\<close>, \<open>lossy_fd_adapter.hh\<close>, \<open>tuntap_adapter.hh\<close>, and \<open>FdAdapterConfig\<close> of
  \<open>tcp_config.hh\<close>): segments in UDP payloads, segments in IPv4 datagrams on a TUN device, and
  the adapter that drops segments at random. What a device or socket delivers is an argument of
  \<open>read\<close>, what it is given is part of the result of \<open>write\<close>. The locale \<open>segment_channel\<close> is the
  contract of an adapter: what is written at one end is read at the other.
\<close>

subsection \<open>Configuration and base class\<close>

record FdAdapterConfig =
  fa_source :: Address
  fa_destination :: Address
  fa_loss_rate_dn :: "16 word"
  fa_loss_rate_up :: "16 word"

record FdAdapterBase =
  ab_cfg :: FdAdapterConfig
  ab_listen :: bool

definition ab_new :: "Resolver \<Rightarrow> cpp_error + FdAdapterBase" where
  "ab_new rs =
     throw_bind (ad_of_ip rs ''0'' 0) (\<lambda>source.
     throw_bind (ad_of_ip rs ''0'' 0) (\<lambda>destination.
       Inr \<lparr>ab_cfg = \<lparr>fa_source = source, fa_destination = destination, fa_loss_rate_dn = 0, fa_loss_rate_up = 0\<rparr>,
            ab_listen = False\<rparr>))"

definition ab_set_listening :: "FdAdapterBase \<Rightarrow> bool \<Rightarrow> FdAdapterBase" where
  "ab_set_listening ab l = ab\<lparr>ab_listen := l\<rparr>"

subsection \<open>Segments in IPv4 datagrams\<close>

text \<open>The guards on the addresses, and the choice of the peer by the first opening segment.\<close>

definition ip_not_ours :: "FdAdapterBase \<Rightarrow> IPv4Datagram \<Rightarrow> cpp_error + bool" where
  "ip_not_ours ab ip_dgram =
     (if ab_listen ab then Inr False
      else throw_bind (ad_ipv4_numeric (fa_source (ab_cfg ab))) (\<lambda>ip.
        if ih_dst (id_header ip_dgram) \<noteq> ip then Inr True
        else throw_bind (ad_ipv4_numeric (fa_destination (ab_cfg ab))) (\<lambda>peer.
          Inr (ih_src (id_header ip_dgram) \<noteq> peer))))"

definition ip_retarget :: "Resolver \<Rightarrow> FdAdapterBase \<Rightarrow> IPv4Datagram \<Rightarrow> TCPSegment \<Rightarrow> cpp_error + FdAdapterBase option" where
  "ip_retarget rs ab ip_dgram seg =
     (if ab_listen ab then
        if th_syn (ts_header seg) \<and> \<not> th_rst (ts_header seg) then
          throw_bind (ad_port rs (fa_source (ab_cfg ab))) (\<lambda>port.
          throw_bind (ad_of_ip rs (inet_ntoa (ih_dst (id_header ip_dgram))) port) (\<lambda>source.
          throw_bind (ad_of_ip rs (inet_ntoa (ih_src (id_header ip_dgram))) (th_sport (ts_header seg))) (\<lambda>destination.
            Inr (Some (ab\<lparr>ab_cfg := (ab_cfg ab)\<lparr>fa_source := source, fa_destination := destination\<rparr>,
                          ab_listen := False\<rparr>)))))
        else Inr None
      else Inr (Some ab))"

definition unwrap_tcp_in_ip :: "Resolver \<Rightarrow> FdAdapterBase \<Rightarrow> IPv4Datagram \<Rightarrow> cpp_error + TCPSegment option \<times> FdAdapterBase" where
  "unwrap_tcp_in_ip rs ab ip_dgram =
     throw_bind (ip_not_ours ab ip_dgram) (\<lambda>skip.
     if skip \<or> ih_proto (id_header ip_dgram) \<noteq> PROTO_TCP then Inr (None, ab)
     else throw_bind (bl_to_buffer (id_payload ip_dgram)) (\<lambda>payload.
       let (res, tcp_seg) = ts_parse ts_new payload (ih_pseudo_cksum (id_header ip_dgram)) in
       if res \<noteq> NoError then Inr (None, ab)
       else throw_bind (ad_port rs (fa_source (ab_cfg ab))) (\<lambda>port.
         if th_dport (ts_header tcp_seg) \<noteq> port then Inr (None, ab)
         else throw_bind (ip_retarget rs ab ip_dgram tcp_seg) (\<lambda>next.
           case next of
             None \<Rightarrow> Inr (None, ab)
           | Some ab' \<Rightarrow>
               throw_bind (ad_port rs (fa_destination (ab_cfg ab'))) (\<lambda>peer_port.
                 if th_sport (ts_header tcp_seg) \<noteq> peer_port then Inr (None, ab')
                 else Inr (Some tcp_seg, ab'))))))"

definition ab_stamp_ports :: "Resolver \<Rightarrow> FdAdapterBase \<Rightarrow> TCPSegment \<Rightarrow> cpp_error + TCPSegment" where
  "ab_stamp_ports rs ab seg =
     throw_bind (ad_port rs (fa_source (ab_cfg ab))) (\<lambda>sport.
     throw_bind (ad_port rs (fa_destination (ab_cfg ab))) (\<lambda>dport.
       Inr (seg\<lparr>ts_header := (ts_header seg)\<lparr>th_sport := sport, th_dport := dport\<rparr>\<rparr>)))"

text \<open>The segment is passed by reference: its ports are set for the caller too.\<close>

definition wrap_tcp_in_ip :: "Resolver \<Rightarrow> FdAdapterBase \<Rightarrow> TCPSegment \<Rightarrow> cpp_error + TCPSegment \<times> IPv4Datagram" where
  "wrap_tcp_in_ip rs ab seg0 =
     throw_bind (ab_stamp_ports rs ab seg0) (\<lambda>seg.
     throw_bind (ad_ipv4_numeric (fa_source (ab_cfg ab))) (\<lambda>src.
     throw_bind (ad_ipv4_numeric (fa_destination (ab_cfg ab))) (\<lambda>dst.
       let h = (id_header id_new)\<lparr>ih_src := src, ih_dst := dst,
             ih_len := word_of_nat (unat (ih_hlen (id_header id_new)) * 4 + unat (th_doff (ts_header seg)) * 4 +
                                    buf_size (ts_payload seg))\<rparr>
       in throw_bind (ts_serialize seg (ih_pseudo_cksum h)) (\<lambda>payload.
            Inr (seg, \<lparr>id_header = h, id_payload = payload\<rparr>)))))"

subsection \<open>The TUN device\<close>

definition tun_read :: "Resolver \<Rightarrow> FdAdapterBase \<Rightarrow> bytes \<Rightarrow> cpp_error + TCPSegment option \<times> FdAdapterBase" where
  "tun_read rs ab received =
     (let (res, ip_dgram) = id_parse id_new (buf_of_string received) in
      if res \<noteq> NoError then Inr (None, ab) else unwrap_tcp_in_ip rs ab ip_dgram)"

definition tun_write :: "Resolver \<Rightarrow> FdAdapterBase \<Rightarrow> TCPSegment \<Rightarrow> cpp_error + TCPSegment \<times> bytes" where
  "tun_write rs ab seg0 =
     throw_bind (wrap_tcp_in_ip rs ab seg0) (\<lambda>(seg, ip_dgram).
     throw_bind (id_serialize ip_dgram) (\<lambda>bl. Inr (seg, bl_concatenate bl)))"

subsection \<open>Segments in UDP payloads\<close>

text \<open>A received datagram is its source address and payload.\<close>

definition udp_read :: "FdAdapterBase \<Rightarrow> Address \<times> bytes \<Rightarrow> TCPSegment option \<times> FdAdapterBase" where
  "udp_read ab received =
     (let (source_address, payload) = received in
      if \<not> ab_listen ab \<and> \<not> ad_equal source_address (fa_destination (ab_cfg ab)) then (None, ab)
      else
        let (res, seg) = ts_parse ts_new (buf_of_string payload) 0 in
        if res \<noteq> NoError then (None, ab)
        else if ab_listen ab then
          if th_syn (ts_header seg) \<and> \<not> th_rst (ts_header seg)
          then (Some seg, ab\<lparr>ab_cfg := (ab_cfg ab)\<lparr>fa_destination := source_address\<rparr>, ab_listen := False\<rparr>)
          else (None, ab)
        else (Some seg, ab))"

definition udp_write :: "Resolver \<Rightarrow> FdAdapterBase \<Rightarrow> TCPSegment \<Rightarrow> cpp_error + TCPSegment \<times> Address \<times> bytes" where
  "udp_write rs ab seg0 =
     throw_bind (ab_stamp_ports rs ab seg0) (\<lambda>seg.
     throw_bind (ts_serialize seg 0) (\<lambda>bl. Inr (seg, fa_destination (ab_cfg ab), bl_concatenate bl)))"

subsection \<open>The lossy adapter\<close>

text \<open>A template over the adapter: its methods \<open>config\<close>, \<open>read\<close> and \<open>write\<close> are arguments, and so
  is the generator of random numbers.\<close>

record ('a, 'r) LossyFdAdapter =
  lo_rand :: 'r
  lo_adapter :: 'a

definition lo_should_drop ::
    "('r \<Rightarrow> 32 word \<times> 'r) \<Rightarrow> ('a \<Rightarrow> FdAdapterConfig) \<Rightarrow> ('a, 'r) LossyFdAdapter \<Rightarrow> bool \<Rightarrow> bool \<times> ('a, 'r) LossyFdAdapter" where
  "lo_should_drop rand config lo uplink =
     (let cfg = config (lo_adapter lo);
          loss = (if uplink then fa_loss_rate_up cfg else fa_loss_rate_dn cfg)
      in if loss = 0 then (False, lo)
         else let (r, rest) = rand (lo_rand lo) in ((ucast r :: 16 word) < loss, lo\<lparr>lo_rand := rest\<rparr>))"

definition lo_read ::
    "('r \<Rightarrow> 32 word \<times> 'r) \<Rightarrow> ('a \<Rightarrow> FdAdapterConfig) \<Rightarrow> ('a \<Rightarrow> 'm \<Rightarrow> cpp_error + TCPSegment option \<times> 'a) \<Rightarrow>
     ('a, 'r) LossyFdAdapter \<Rightarrow> 'm \<Rightarrow> cpp_error + TCPSegment option \<times> ('a, 'r) LossyFdAdapter" where
  "lo_read rand config read lo received =
     throw_bind (read (lo_adapter lo) received) (\<lambda>(ret, adapter).
       let (drop, lo') = lo_should_drop rand config (lo\<lparr>lo_adapter := adapter\<rparr>) False
       in Inr (if drop then None else ret, lo'))"

definition lo_write ::
    "('r \<Rightarrow> 32 word \<times> 'r) \<Rightarrow> ('a \<Rightarrow> FdAdapterConfig) \<Rightarrow> ('a \<Rightarrow> TCPSegment \<Rightarrow> cpp_error + TCPSegment \<times> 'm) \<Rightarrow>
     ('a, 'r) LossyFdAdapter \<Rightarrow> TCPSegment \<Rightarrow> cpp_error + (TCPSegment \<times> 'm option) \<times> ('a, 'r) LossyFdAdapter" where
  "lo_write rand config write lo seg =
     (let (drop, lo') = lo_should_drop rand config lo True in
      if drop then Inr ((seg, None), lo')
      else throw_bind (write (lo_adapter lo') seg) (\<lambda>(seg', m). Inr ((seg', Some m), lo')))"

subsection \<open>The contract\<close>

text \<open>A segment that fits into a datagram, and the same segment up to what the way down writes
  into it: ports and checksum.\<close>

definition segment_fits :: "TCPSegment \<Rightarrow> bool" where
  "segment_fits seg \<longleftrightarrow> 5 \<le> th_doff (ts_header seg) \<and> th_doff (ts_header seg) < 16 \<and>
     20 + 4 * unat (th_doff (ts_header seg)) + buf_size (ts_payload seg) < 2 ^ 16"

definition same_segment :: "TCPSegment \<Rightarrow> TCPSegment \<Rightarrow> bool" where
  "same_segment seg' seg \<longleftrightarrow> buf_str (ts_payload seg') = buf_str (ts_payload seg) \<and>
     (ts_header seg')\<lparr>th_sport := th_sport (ts_header seg), th_dport := th_dport (ts_header seg),
        th_cksum := th_cksum (ts_header seg)\<rparr> = ts_header seg"

locale segment_channel =
  fixes wr :: "'a \<Rightarrow> TCPSegment \<Rightarrow> cpp_error + TCPSegment \<times> 'm"
    and rd :: "'a \<Rightarrow> 'm \<Rightarrow> cpp_error + TCPSegment option \<times> 'a"
    and linked :: "'a \<Rightarrow> 'a \<Rightarrow> bool"
  assumes deliver: "linked a b \<Longrightarrow> segment_fits seg \<Longrightarrow>
    \<exists>seg1 m seg2. wr a seg = Inr (seg1, m) \<and> rd b m = Inr (Some seg2, b) \<and> same_segment seg2 seg"
begin

text \<open>Through lossy adapters a segment arrives unchanged or not at all.\<close>

lemma lossy_deliver:
  assumes "linked (lo_adapter a) (lo_adapter b)" "segment_fits seg"
  shows "\<exists>seg1 mo a'. lo_write rand config wr a seg = Inr ((seg1, mo), a') \<and> lo_adapter a' = lo_adapter a \<and>
    (case mo of None \<Rightarrow> fa_loss_rate_up (config (lo_adapter a)) \<noteq> 0
     | Some m \<Rightarrow> \<exists>got b'. lo_read rand' config rd b m = Inr (got, b') \<and> lo_adapter b' = lo_adapter b \<and>
         (case got of None \<Rightarrow> fa_loss_rate_dn (config (lo_adapter b)) \<noteq> 0 | Some seg2 \<Rightarrow> same_segment seg2 seg))"
proof -
  obtain seg1 m seg2 where d: "wr (lo_adapter a) seg = Inr (seg1, m)"
    "rd (lo_adapter b) m = Inr (Some seg2, lo_adapter b)" "same_segment seg2 seg"
    using deliver[OF assms] by blast
  obtain up a' where up: "lo_should_drop rand config a True = (up, a')" by fastforce
  then have a': "lo_adapter a' = lo_adapter a" "up \<longrightarrow> fa_loss_rate_up (config (lo_adapter a)) \<noteq> 0"
    by (auto simp: lo_should_drop_def Let_def split: if_splits prod.splits)
  obtain dn b' where dn: "lo_should_drop rand' config b False = (dn, b')" by fastforce
  then have b': "lo_adapter b' = lo_adapter b" "dn \<longrightarrow> fa_loss_rate_dn (config (lo_adapter b)) \<noteq> 0"
    by (auto simp: lo_should_drop_def Let_def split: if_splits prod.splits)
  have "lo_read rand' config rd b m = Inr (if dn then None else Some seg2, b')"
    using d(2) dn by (simp add: lo_read_def)
  then show ?thesis
    using a' b' d up by (cases up; cases dn) (auto simp: lo_write_def)
qed

end

subsection \<open>The adapters keep the contract\<close>

text \<open>Two ends whose configurations mirror each other.\<close>

definition linked_ends :: "Resolver \<Rightarrow> FdAdapterBase \<Rightarrow> FdAdapterBase \<Rightarrow> bool" where
  "linked_ends rs a b \<longleftrightarrow> numeric_resolver rs \<and> \<not> ab_listen b \<and>
     (\<exists>ip port peer_ip peer_port.
        fa_source (ab_cfg a) = inet_address ip port \<and> fa_destination (ab_cfg a) = inet_address peer_ip peer_port \<and>
        fa_source (ab_cfg b) = inet_address peer_ip peer_port \<and> fa_destination (ab_cfg b) = inet_address ip port)"

lemma unat_add_le: "unat (a + b :: 'a::len word) \<le> unat a + unat b"
  by (simp add: unat_word_ariths)

lemma pseudo_cksum_bound: "unat (ih_pseudo_cksum h) \<le> 400000"
proof -
  have half: "unat (drop_bit 16 x) \<le> 65535" "unat (x AND 0xffff) \<le> 65535" for x :: "32 word"
  proof -
    have "unat x < 2 ^ 32" using unsigned_less[of x, where 'a = nat] by simp
    then show "unat (drop_bit 16 x) \<le> 65535"
      by (simp add: drop_bit_eq_div unat_div_distrib)
    have "x AND 0xffff = take_bit 16 x" by (simp add: take_bit_eq_mask mask_eq_exp_minus_1)
    then show "unat (x AND 0xffff) \<le> 65535"
      by (simp add: take_bit_eq_mod unat_mod_distrib)
  qed
  have small: "unat (ucast (p :: 8 word) :: 32 word) \<le> 255" "unat (ucast (l :: 16 word) :: 32 word) \<le> 65535" for p l
    using unsigned_less[of p, where 'a = nat] unsigned_less[of l, where 'a = nat]
    by (simp_all add: unsigned_ucast_eq take_bit_eq_mod)
  show ?thesis
    unfolding ih_pseudo_cksum_def
    by (rule order.trans[OF unat_add_le], rule order.trans[OF add_mono[OF unat_add_le order.refl]],
        rule order.trans[OF add_mono[OF add_mono[OF unat_add_le order.refl] order.refl]],
        rule order.trans[OF add_mono[OF add_mono[OF add_mono[OF unat_add_le unat_add_le] order.refl] order.refl]])
      (use half[of "ih_src h"] half[of "ih_dst h"] small(1)[of "ih_proto h"] small(2)[of "ih_payload_length h"] in linarith)
qed

lemma unat_16_of_nat: "n < 2 ^ 16 \<Longrightarrow> unat (word_of_nat n :: 16 word) = n"
  by (simp add: unat_of_nat)

lemma fits_sum: "segment_fits seg \<Longrightarrow> unat ds \<le> 400000 \<Longrightarrow> sum_fits ds (60 + buf_size (ts_payload seg))"
  by (simp add: segment_fits_def sum_fits_def word_le_nat_alt)

abbreviation with_ports :: "TCPSegment \<Rightarrow> 16 word \<Rightarrow> 16 word \<Rightarrow> TCPSegment" where
  "with_ports seg sport dport \<equiv> seg\<lparr>ts_header := (ts_header seg)\<lparr>th_sport := sport, th_dport := dport\<rparr>\<rparr>"

lemma fits_with_ports: "segment_fits seg \<Longrightarrow> segment_fits (with_ports seg sport dport)"
  by (simp add: segment_fits_def)

lemma wrap_tcp_in_ip_ok:
  assumes "linked_ends rs a b" "segment_fits seg"
  obtains seg1 d where "wrap_tcp_in_ip rs a seg = Inr (seg1, d)" "id_ok d"
    and "\<forall>d' ck pl. id_header d' = (id_header d)\<lparr>ih_cksum := ck\<rparr> \<and> id_payload d' = [pl] \<and> buf_ok pl \<and>
      buf_str pl = bl_concatenate (id_payload d) \<longrightarrow>
      (\<exists>seg2. unwrap_tcp_in_ip rs b d' = Inr (Some seg2, b) \<and> same_segment seg2 seg)"
proof -
  obtain ip port peer_ip peer_port where
    ends: "fa_source (ab_cfg a) = inet_address ip port" "fa_destination (ab_cfg a) = inet_address peer_ip peer_port"
      "fa_source (ab_cfg b) = inet_address peer_ip peer_port" "fa_destination (ab_cfg b) = inet_address ip port"
    and rs: "numeric_resolver rs" "\<not> ab_listen b"
    using assms(1) unfolding linked_ends_def by blast
  let ?seg = "with_ports seg port peer_port"
  let ?n = "20 + unat (th_doff (ts_header seg)) * 4 + buf_size (ts_payload seg)"
  define h where "h = ih_new\<lparr>ih_src := ip, ih_dst := peer_ip, ih_len := word_of_nat ?n\<rparr>"
  have fits: "segment_fits ?seg" using assms(2) by (rule fits_with_ports)
  have "?n < 2 ^ 16" using assms(2) by (simp add: segment_fits_def)
  moreover have "ih_len h = word_of_nat ?n" by (simp add: h_def)
  ultimately have len: "unat (ih_len h) = ?n" using unat_16_of_nat[of ?n] by (simp only:)
  obtain bl v where bl: "ts_serialize ?seg (ih_pseudo_cksum h) = Inr bl"
    "bl_size bl = 4 * unat (th_doff (ts_header seg)) + buf_size (ts_payload seg)"
    and parse: "\<And>b seg0. buf_ok b \<Longrightarrow> buf_str b = bl_concatenate bl \<Longrightarrow>
      \<exists>pl. ts_parse seg0 b (ih_pseudo_cksum h) =
          (NoError, \<lparr>ts_header = (ts_header ?seg)\<lparr>th_cksum := v\<rparr>, ts_payload = pl\<rparr>) \<and>
        buf_ok pl \<and> buf_str pl = buf_str (ts_payload seg)"
    using ts_parse_serialize[of ?seg "ih_pseudo_cksum h"] fits fits_sum[OF fits pseudo_cksum_bound]
    by (auto simp: segment_fits_def)
  have "wrap_tcp_in_ip rs a seg = Inr (?seg, \<lparr>id_header = h, id_payload = bl\<rparr>)"
    using ends rs bl(1)
    by (simp add: wrap_tcp_in_ip_def ab_stamp_ports_def h_def id_new_def ih_new_def Let_def)
  moreover have "id_ok \<lparr>id_header = h, id_payload = bl\<rparr>"
    using len bl(2) by (simp add: id_ok_def ih_ok_def h_def ih_new_def)
  moreover have "\<exists>seg2. unwrap_tcp_in_ip rs b d' = Inr (Some seg2, b) \<and> same_segment seg2 seg"
    if d': "id_header d' = h\<lparr>ih_cksum := ck\<rparr>" "id_payload d' = [pl]" "buf_ok pl" "buf_str pl = bl_concatenate bl"
    for d' ck pl
  proof -
    obtain pl' where pl': "ts_parse ts_new pl (ih_pseudo_cksum h) =
        (NoError, \<lparr>ts_header = (ts_header ?seg)\<lparr>th_cksum := v\<rparr>, ts_payload = pl'\<rparr>)"
      "buf_str pl' = buf_str (ts_payload seg)"
      using parse[OF d'(3,4)] by blast
    have "ih_pseudo_cksum (h\<lparr>ih_cksum := ck\<rparr>) = ih_pseudo_cksum h"
      by (simp add: ih_pseudo_cksum_def ih_payload_length_def)
    then have "unwrap_tcp_in_ip rs b d' = Inr (Some \<lparr>ts_header = (ts_header ?seg)\<lparr>th_cksum := v\<rparr>, ts_payload = pl'\<rparr>, b)"
      using ends rs d'(1,2) pl'(1)
      by (simp add: unwrap_tcp_in_ip_def ip_not_ours_def ip_retarget_def bl_to_buffer_def)
        (simp add: h_def ih_new_def)
    then show ?thesis using pl'(2) by (simp add: same_segment_def)
  qed
  ultimately show thesis using that[of ?seg "\<lparr>id_header = h, id_payload = bl\<rparr>"] by simp
qed

interpretation tun: segment_channel "tun_write rs" "tun_read rs" "linked_ends rs" for rs
proof (unfold_locales, goal_cases)
  case (1 a b seg)
  obtain seg1 d where w: "wrap_tcp_in_ip rs a seg = Inr (seg1, d)" "id_ok d"
    and unwrap: "\<forall>d' ck pl. id_header d' = (id_header d)\<lparr>ih_cksum := ck\<rparr> \<and> id_payload d' = [pl] \<and> buf_ok pl \<and>
      buf_str pl = bl_concatenate (id_payload d) \<longrightarrow>
      (\<exists>seg2. unwrap_tcp_in_ip rs b d' = Inr (Some seg2, b) \<and> same_segment seg2 seg)"
    using wrap_tcp_in_ip_ok[OF 1] by metis
  obtain bl v where bl: "id_serialize d = Inr bl" "bl_size bl = unat (ih_len (id_header d))"
    and parse: "\<forall>d0 buf. buf_ok buf \<and> buf_str buf = bl_concatenate bl \<longrightarrow>
      (\<exists>b p. id_parse d0 buf = (NoError, \<lparr>id_header = (id_header d)\<lparr>ih_cksum := v\<rparr>, id_payload = [b]\<rparr>) \<and>
        buf_ok b \<and> buf_str b = bl_concatenate (id_payload d) \<and>
        ih_parse ih_new (np_new buf) = (NoError, (id_header d)\<lparr>ih_cksum := v\<rparr>, p))"
    using id_parse_serialize[OF w(2)] by metis
  obtain pl where pl: "id_parse id_new (buf_of_string (bl_concatenate bl)) =
      (NoError, \<lparr>id_header = (id_header d)\<lparr>ih_cksum := v\<rparr>, id_payload = [pl]\<rparr>)"
    "buf_ok pl" "buf_str pl = bl_concatenate (id_payload d)"
    using parse[rule_format, of "buf_of_string (bl_concatenate bl)" id_new] dgram_string_ok[OF bl(2)] by auto
  obtain seg2 where "unwrap_tcp_in_ip rs b \<lparr>id_header = (id_header d)\<lparr>ih_cksum := v\<rparr>, id_payload = [pl]\<rparr> = Inr (Some seg2, b)"
    "same_segment seg2 seg"
    using unwrap[rule_format, of "\<lparr>id_header = (id_header d)\<lparr>ih_cksum := v\<rparr>, id_payload = [pl]\<rparr>"] pl(2,3) by auto
  then show ?case using w bl(1) pl(1) by (simp add: tun_write_def tun_read_def)
qed

text \<open>What the network does to a UDP payload: it arrives with the address of its sender.\<close>

definition udp_sent :: "Resolver \<Rightarrow> FdAdapterBase \<Rightarrow> TCPSegment \<Rightarrow> cpp_error + TCPSegment \<times> Address \<times> bytes" where
  "udp_sent rs a seg = throw_bind (udp_write rs a seg) (\<lambda>(seg', dest, payload). Inr (seg', fa_source (ab_cfg a), payload))"

interpretation udp: segment_channel "udp_sent rs" "\<lambda>ab m. Inr (udp_read ab m)" "linked_ends rs" for rs
proof (unfold_locales, goal_cases)
  case (1 a b seg)
  obtain ip port peer_ip peer_port where
    ends: "fa_source (ab_cfg a) = inet_address ip port" "fa_destination (ab_cfg a) = inet_address peer_ip peer_port"
      "fa_source (ab_cfg b) = inet_address peer_ip peer_port" "fa_destination (ab_cfg b) = inet_address ip port"
    and rs: "numeric_resolver rs" "\<not> ab_listen b"
    using 1(1) unfolding linked_ends_def by blast
  let ?seg = "with_ports seg port peer_port"
  have fits: "segment_fits ?seg" using 1(2) by (rule fits_with_ports)
  obtain bl v where bl: "ts_serialize ?seg 0 = Inr bl"
    "bl_size bl = 4 * unat (th_doff (ts_header seg)) + buf_size (ts_payload seg)"
    and parse: "\<And>b seg0. buf_ok b \<Longrightarrow> buf_str b = bl_concatenate bl \<Longrightarrow>
      \<exists>pl. ts_parse seg0 b 0 = (NoError, \<lparr>ts_header = (ts_header ?seg)\<lparr>th_cksum := v\<rparr>, ts_payload = pl\<rparr>) \<and>
        buf_ok pl \<and> buf_str pl = buf_str (ts_payload seg)"
    using ts_parse_serialize[of ?seg 0] fits fits_sum[OF fits, of 0] by (auto simp: segment_fits_def)
  have "length (bl_concatenate bl) < two64"
    using bl(2) 1(2) by (simp add: bl_size_concatenate segment_fits_def two64_def)
  then obtain pl where "ts_parse ts_new (buf_of_string (bl_concatenate bl)) 0 =
      (NoError, \<lparr>ts_header = (ts_header ?seg)\<lparr>th_cksum := v\<rparr>, ts_payload = pl\<rparr>)"
    "buf_str pl = buf_str (ts_payload seg)"
    using parse[of "buf_of_string (bl_concatenate bl)" ts_new] by auto
  then show ?case
    using ends rs bl(1)
    by (simp add: udp_sent_def udp_write_def ab_stamp_ports_def udp_read_def same_segment_def)
qed

text \<open>
  C26. A segment written to the TUN device at one end is read at the other: for two adapters
  whose configurations mirror each other and a segment that fits into a datagram, \<open>write\<close>
  produces a datagram from which \<open>read\<close> at the peer gets back the segment: every header
  field except ports and checksum, and the payload.
\<close>

theorem tun_delivers:
  assumes "linked_ends rs a b" "segment_fits seg"
  shows "\<exists>seg1 m seg2. tun_write rs a seg = Inr (seg1, m) \<and> tun_read rs b m = Inr (Some seg2, b) \<and> same_segment seg2 seg"
  using assms by (rule tun.deliver)

definition example_end :: "32 word \<Rightarrow> 32 word \<Rightarrow> FdAdapterBase" where
  "example_end ip peer = \<lparr>ab_cfg = \<lparr>fa_source = inet_address ip 80, fa_destination = inet_address peer 80,
     fa_loss_rate_dn = 0, fa_loss_rate_up = 9\<rparr>, ab_listen = False\<rparr>"

lemma example_ends_linked: "linked_ends numeric_only (example_end 1 2) (example_end 2 1)"
  by (auto simp: linked_ends_def example_end_def numeric_only_resolves)

lemma example_segment_fits: "segment_fits (ts_new\<lparr>ts_payload := buf_of_string [7]\<rparr>)"
  by (simp add: segment_fits_def ts_new_def th_new_def buf_size_def)

theorem tun_delivers_witness:
  "\<exists>seg1 m seg2. tun_write numeric_only (example_end 1 2) (ts_new\<lparr>ts_payload := buf_of_string [7]\<rparr>) = Inr (seg1, m) \<and>
     tun_read numeric_only (example_end 2 1) m = Inr (Some seg2, example_end 2 1) \<and> buf_str (ts_payload seg2) = [7]"
proof -
  obtain seg1 m seg2 where
    "tun_write numeric_only (example_end 1 2) (ts_new\<lparr>ts_payload := buf_of_string [7]\<rparr>) = Inr (seg1, m)"
    "tun_read numeric_only (example_end 2 1) m = Inr (Some seg2, example_end 2 1)"
    "same_segment seg2 (ts_new\<lparr>ts_payload := buf_of_string [7]\<rparr>)"
    using tun_delivers[OF example_ends_linked example_segment_fits] by blast
  then show ?thesis by (auto simp: same_segment_def)
qed

text \<open>
  The lossy adapter over UDP, whatever the random numbers: writing and reading never fail,
  and the segment arrives unchanged or not at all; it can be lost on the way out only when
  the uplink rate of the sender is not zero, and on the way in only when the downlink rate of the
  receiver is not.
\<close>

theorem lossy_udp_delivers:
  assumes "linked_ends rs (lo_adapter a) (lo_adapter b)" "segment_fits seg"
  shows "\<exists>seg1 mo a'. lo_write rand ab_cfg (udp_sent rs) a seg = Inr ((seg1, mo), a') \<and> lo_adapter a' = lo_adapter a \<and>
    (case mo of None \<Rightarrow> fa_loss_rate_up (ab_cfg (lo_adapter a)) \<noteq> 0
     | Some m \<Rightarrow> \<exists>got b'. lo_read rand' ab_cfg (\<lambda>ab m. Inr (udp_read ab m)) b m = Inr (got, b') \<and>
         lo_adapter b' = lo_adapter b \<and>
         (case got of None \<Rightarrow> fa_loss_rate_dn (ab_cfg (lo_adapter b)) \<noteq> 0 | Some seg2 \<Rightarrow> same_segment seg2 seg))"
  using assms by (rule udp.lossy_deliver)

theorem lossy_udp_delivers_witness:
  "\<exists>seg1 mo a'. lo_write (\<lambda>r. (r, r + 1)) ab_cfg (udp_sent numeric_only) \<lparr>lo_rand = 7, lo_adapter = example_end 1 2\<rparr>
     (ts_new\<lparr>ts_payload := buf_of_string [7]\<rparr>) = Inr ((seg1, mo), a') \<and> lo_adapter a' = example_end 1 2"
proof -
  let ?a = "\<lparr>lo_rand = 7 :: 32 word, lo_adapter = example_end 1 2\<rparr>" and ?b = "\<lparr>lo_rand = (), lo_adapter = example_end 2 1\<rparr>"
  have "linked_ends numeric_only (lo_adapter ?a) (lo_adapter ?b)" by (simp add: example_ends_linked)
  from lossy_udp_delivers[OF this example_segment_fits, of "\<lambda>r. (r, r + 1)" "\<lambda>u. (0, u)"] show ?thesis
    by (elim exE conjE) (simp, blast?)
qed

end
