(* ===== verification/Ordered_Map.thy ===== *)
theory Ordered_Map
  imports Sponge_Prelude
begin

text \<open>
  \<open>std::map\<close> as the network interface uses it: a list of pairs in strictly increasing order of the
  keys, which is the order of iteration. The locale \<open>key_store\<close> is the contract of the
  container; its clients rely on the facts proved there.
\<close>

subsection \<open>The container\<close>

type_synonym ('k, 'v) omap = "('k \<times> 'v) list"

definition om_find :: "('k, 'v) omap \<Rightarrow> 'k \<Rightarrow> 'v option" where
  "om_find m k = map_of m k"

fun om_put :: "'k::linorder \<Rightarrow> 'v \<Rightarrow> ('k, 'v) omap \<Rightarrow> ('k, 'v) omap" where
  "om_put k v [] = [(k, v)]"
| "om_put k v ((k', v') # m) =
     (if k < k' then (k, v) # (k', v') # m
      else if k = k' then (k, v) # m
      else (k', v') # om_put k v m)"

definition om_erase :: "'k \<Rightarrow> ('k, 'v) omap \<Rightarrow> ('k, 'v) omap" where
  "om_erase k m = filter (\<lambda>e. fst e \<noteq> k) m"

definition om_ok :: "('k::linorder, 'v) omap \<Rightarrow> bool" where
  "om_ok m \<longleftrightarrow> sorted_wrt (<) (map fst m)"

subsection \<open>The contract\<close>

locale key_store =
  fixes find :: "'m \<Rightarrow> 'k \<Rightarrow> 'v option"
    and put :: "'k \<Rightarrow> 'v \<Rightarrow> 'm \<Rightarrow> 'm"
    and erase :: "'k \<Rightarrow> 'm \<Rightarrow> 'm"
    and ok :: "'m \<Rightarrow> bool"
  assumes ok_put: "ok m \<Longrightarrow> ok (put k v m)"
    and ok_erase: "ok m \<Longrightarrow> ok (erase k m)"
    and find_put: "ok m \<Longrightarrow> find (put k v m) k' = (if k' = k then Some v else find m k')"
    and find_erase: "ok m \<Longrightarrow> find (erase k m) k' = (if k' = k then None else find m k')"
begin

definition keys :: "'m \<Rightarrow> 'k set" where
  "keys m = {k. find m k \<noteq> None}"

lemma keys_put [simp]: "ok m \<Longrightarrow> keys (put k v m) = insert k (keys m)"
  by (auto simp: keys_def find_put)

lemma keys_erase [simp]: "ok m \<Longrightarrow> keys (erase k m) = keys m - {k}"
  by (auto simp: keys_def find_erase)

lemma find_None_keys: "find m k = None \<longleftrightarrow> k \<notin> keys m"
  by (simp add: keys_def)

text \<open>A key that moves from one store to another keeps the two disjoint.\<close>

lemma move_disjoint: "ok m \<Longrightarrow> ok n \<Longrightarrow> keys m \<inter> A = {} \<Longrightarrow> keys (erase k m) \<inter> insert k A = {}"
  by auto

end

subsection \<open>The list of pairs keeps the contract\<close>

lemma om_put_keys: "fst ` set (om_put k v m) = insert k (fst ` set m)"
  by (induction k v m rule: om_put.induct) auto

lemma om_ok_put: "om_ok m \<Longrightarrow> om_ok (om_put k v m)"
proof (induction k v m rule: om_put.induct)
  case (2 k v k' v' m)
  then have "om_ok (om_put k v m)" if "k' < k" using that by (simp add: om_ok_def)
  with 2 om_put_keys[of k v m] show ?case
    by (auto simp: om_ok_def not_less_iff_gr_or_eq)
qed (simp add: om_ok_def)

lemma om_find_put: "om_ok m \<Longrightarrow> om_find (om_put k v m) k' = (if k' = k then Some v else om_find m k')"
  by (induction k v m rule: om_put.induct) (auto simp: om_find_def om_ok_def)

lemma om_find_erase: "om_find (om_erase k m) k' = (if k' = k then None else om_find m k')"
  by (induction m) (auto simp: om_find_def om_erase_def)

lemma om_ok_erase: "om_ok m \<Longrightarrow> om_ok (om_erase k m)"
  by (induction m) (auto simp: om_ok_def om_erase_def)

interpretation om: key_store om_find om_put om_erase om_ok
  by unfold_locales (simp_all add: om_ok_put om_ok_erase om_find_put om_find_erase)

lemma om_keys_eq: "om.keys m = fst ` set m"
  by (auto simp: om.keys_def om_find_def map_of_eq_None_iff)

lemma om_ok_Nil [simp]: "om_ok []"
  by (simp add: om_ok_def)

end
