(* ===== verification/Network_Interface.thy ===== *)
theory Network_Interface
  imports Ethernet_Frame FD_Adapters Ordered_Map
begin

text \<open>
  The network interface (\<open>libsponge/network_interface.hh\<close> and \<open>network_interface.cc\<close>): it puts
  datagrams into Ethernet frames, resolving the address of the next hop with ARP, and takes
  datagrams out of frames. Results are \<open>Some (Inr _)\<close> for a return, \<open>Some (Inl _)\<close> for an
  exception and \<open>None\<close> when the call does not return; the debugging output is left out.
\<close>

subsection \<open>State\<close>

record ARP_Entry =
  ae_eth_addr :: EthernetAddress
  ae_ttl :: u64

record NetworkInterface =
  ni_ethernet_address :: EthernetAddress
  ni_ip_address :: Address
  ni_frames_out :: "EthernetFrame list"
  ni_arp_table :: "(32 word, ARP_Entry) omap"
  ni_waiting_ip :: "(32 word, u64) omap"
  ni_waiting_datagrams :: "(Address \<times> IPv4Datagram) list"

definition arp_entry_default_ttl :: u64 where
  "arp_entry_default_ttl = 30 * 1000"

definition arp_response_default_ttl :: u64 where
  "arp_response_default_ttl = 5 * 1000"

text \<open>The members at their initial values. The constructor prints the address, which may throw.\<close>

definition ni_initial :: "EthernetAddress \<Rightarrow> Address \<Rightarrow> NetworkInterface" where
  "ni_initial ethernet_address ip_address = \<lparr>ni_ethernet_address = ethernet_address, ni_ip_address = ip_address,
     ni_frames_out = [], ni_arp_table = [], ni_waiting_ip = [], ni_waiting_datagrams = []\<rparr>"

definition ni_new :: "Resolver \<Rightarrow> EthernetAddress \<Rightarrow> Address \<Rightarrow> cpp_error + NetworkInterface" where
  "ni_new rs ethernet_address ip_address =
     throw_bind (ad_ip rs ip_address) (\<lambda>_. Inr (ni_initial ethernet_address ip_address))"

lemma ni_new_numeric:
  "numeric_resolver rs \<Longrightarrow> ni_new rs eth (inet_address ip port) = Inr (ni_initial eth (inet_address ip port))"
  by (simp add: ni_new_def ad_ip_def)

lemma ni_new_initial: "ni_new rs eth addr = Inr ni \<Longrightarrow> ni = ni_initial eth addr"
  by (simp add: ni_new_def throw_bind_def split: sum.splits)

subsection \<open>Frames\<close>

definition make_ARP :: "ARPMessage \<Rightarrow> 16 word \<Rightarrow> EthernetAddress \<Rightarrow> 32 word \<Rightarrow> EthernetAddress \<Rightarrow> 32 word \<Rightarrow> ARPMessage" where
  "make_ARP result opcode sender_eth sender_ip target_eth target_ip =
     result\<lparr>am_opcode := opcode, am_sender_ethernet_address := sender_eth, am_sender_ip_address := sender_ip,
       am_target_ethernet_address := target_eth, am_target_ip_address := target_ip\<rparr>"

definition ni_push_frame :: "NetworkInterface \<Rightarrow> EthernetHeader \<Rightarrow> BufferList \<Rightarrow> NetworkInterface" where
  "ni_push_frame ni h payload = ni\<lparr>ni_frames_out := ni_frames_out ni @ [\<lparr>ef_header = h, ef_payload = payload\<rparr>]\<rparr>"

definition ni_send_arp_broadcast :: "NetworkInterface \<Rightarrow> ARPMessage \<Rightarrow> cpp_error + NetworkInterface" where
  "ni_send_arp_broadcast ni arp =
     throw_bind (am_serialize arp) (\<lambda>s.
       Inr (ni_push_frame ni \<lparr>eh_dst = ETHERNET_BROADCAST, eh_src = ni_ethernet_address ni, eh_type = TYPE_ARP\<rparr>
              (bl_of_string s)))"

definition ni_send_arp_to :: "NetworkInterface \<Rightarrow> EthernetAddress \<Rightarrow> ARPMessage \<Rightarrow> cpp_error + NetworkInterface" where
  "ni_send_arp_to ni src_eth_addr arp =
     throw_bind (am_serialize arp) (\<lambda>s.
       Inr (ni_push_frame ni \<lparr>eh_dst = src_eth_addr, eh_src = ni_ethernet_address ni, eh_type = TYPE_ARP\<rparr>
              (bl_of_string s)))"

definition ni_send_ipv4 :: "NetworkInterface \<Rightarrow> IPv4Datagram \<Rightarrow> ARP_Entry \<Rightarrow> cpp_error + NetworkInterface" where
  "ni_send_ipv4 ni dgram entry =
     throw_bind (id_serialize dgram) (\<lambda>bl.
       Inr (ni_push_frame ni \<lparr>eh_dst = ae_eth_addr entry, eh_src = ni_ethernet_address ni, eh_type = TYPE_IPv4\<rparr> bl))"

text \<open>A request for the Ethernet address of \<open>ip\<close>.\<close>

definition ni_request :: "NetworkInterface \<Rightarrow> 32 word \<Rightarrow> cpp_error + NetworkInterface" where
  "ni_request ni ip =
     throw_bind (ad_ipv4_numeric (ni_ip_address ni)) (\<lambda>own.
       ni_send_arp_broadcast ni (make_ARP am_new OPCODE_REQUEST (ni_ethernet_address ni) own eth_zero ip))"

subsection \<open>Sending\<close>

definition ni_send_datagram :: "NetworkInterface \<Rightarrow> IPv4Datagram \<Rightarrow> Address \<Rightarrow> cpp_error + NetworkInterface" where
  "ni_send_datagram ni dgram next_hop =
     throw_bind (ad_ipv4_numeric next_hop) (\<lambda>ip.
       case om_find (ni_arp_table ni) ip of
         None \<Rightarrow>
           throw_bind
             (if om_find (ni_waiting_ip ni) ip = None
              then throw_bind (ni_request ni ip) (\<lambda>ni'.
                Inr (ni'\<lparr>ni_waiting_ip := om_put ip arp_response_default_ttl (ni_waiting_ip ni')\<rparr>))
              else Inr ni)
             (\<lambda>ni'. Inr (ni'\<lparr>ni_waiting_datagrams := ni_waiting_datagrams ni' @ [(next_hop, dgram)]\<rparr>))
       | Some entry \<Rightarrow> ni_send_ipv4 ni dgram entry)"

subsection \<open>Receiving\<close>

text \<open>The loop over the waiting datagrams, with the position of the iterator.\<close>

partial_function (option) ni_flush :: "32 word \<Rightarrow> nat \<Rightarrow> NetworkInterface \<Rightarrow> (cpp_error + NetworkInterface) option" where
  "ni_flush ip i ni =
     (if i \<ge> length (ni_waiting_datagrams ni) then Some (Inr ni)
      else
        let (hop, dgram) = ni_waiting_datagrams ni ! i in
        case ad_ipv4_numeric hop of
          Inl e \<Rightarrow> Some (Inl e)
        | Inr n \<Rightarrow>
            if n = ip then
              (case ni_send_datagram ni dgram hop of
                 Inl e \<Rightarrow> Some (Inl e)
               | Inr ni' \<Rightarrow> ni_flush ip i (ni'\<lparr>ni_waiting_datagrams := erase_at i (ni_waiting_datagrams ni')\<rparr>))
            else ni_flush ip (Suc i) ni)"

declare ni_flush.simps [code]

definition arp_is_request :: "NetworkInterface \<Rightarrow> ARPMessage \<Rightarrow> cpp_error + bool" where
  "arp_is_request ni m =
     (if am_opcode m = OPCODE_REQUEST
      then throw_bind (ad_ipv4_numeric (ni_ip_address ni)) (\<lambda>own. Inr (am_target_ip_address m = own))
      else Inr False)"

definition arp_is_response :: "NetworkInterface \<Rightarrow> ARPMessage \<Rightarrow> bool" where
  "arp_is_response ni m \<longleftrightarrow> am_opcode m = OPCODE_REPLY \<and> am_target_ethernet_address m = ni_ethernet_address ni"

definition ni_answer :: "NetworkInterface \<Rightarrow> ARPMessage \<Rightarrow> cpp_error + NetworkInterface" where
  "ni_answer ni m =
     throw_bind (ad_ipv4_numeric (ni_ip_address ni)) (\<lambda>own.
       ni_send_arp_to ni (am_sender_ethernet_address m)
         (make_ARP am_new OPCODE_REPLY (ni_ethernet_address ni) own
            (am_sender_ethernet_address m) (am_sender_ip_address m)))"

definition ni_learn :: "NetworkInterface \<Rightarrow> ARPMessage \<Rightarrow> (cpp_error + NetworkInterface) option" where
  "ni_learn ni m =
     (let ip = am_sender_ip_address m;
          entry = \<lparr>ae_eth_addr = am_sender_ethernet_address m, ae_ttl = arp_entry_default_ttl\<rparr>
      in ret_bind (ni_flush ip 0 (ni\<lparr>ni_arp_table := om_put ip entry (ni_arp_table ni)\<rparr>)) (\<lambda>ni'.
           Some (Inr (ni'\<lparr>ni_waiting_ip := om_erase ip (ni_waiting_ip ni')\<rparr>))))"

definition ni_handle_arp :: "NetworkInterface \<Rightarrow> ARPMessage \<Rightarrow> (cpp_error + NetworkInterface) option" where
  "ni_handle_arp ni m =
     ret_bind (Some (arp_is_request ni m)) (\<lambda>request.
     ret_bind (Some (if request then ni_answer ni m else Inr ni)) (\<lambda>ni'.
       if request \<or> arp_is_response ni m then ni_learn ni' m else Some (Inr ni')))"

definition ni_recv_frame :: "NetworkInterface \<Rightarrow> EthernetFrame \<Rightarrow> (cpp_error + IPv4Datagram option \<times> NetworkInterface) option" where
  "ni_recv_frame ni frame =
     (let h = ef_header frame in
      if eh_dst h \<noteq> ni_ethernet_address ni \<and> eh_dst h \<noteq> ETHERNET_BROADCAST then Some (Inr (None, ni))
      else if eh_type h = TYPE_IPv4 then
        ret_bind (Some (bl_to_buffer (ef_payload frame))) (\<lambda>payload.
          let (res, datagram) = id_parse id_new payload
          in Some (Inr (if res \<noteq> NoError then None else Some datagram, ni)))
      else if eh_type h = TYPE_ARP then
        ret_bind (Some (bl_to_buffer (ef_payload frame))) (\<lambda>payload.
          let (res, arp_msg) = am_parse am_new payload
          in if res \<noteq> NoError then Some (Inr (None, ni))
             else ret_bind (ni_handle_arp ni arp_msg) (\<lambda>ni'. Some (Inr (None, ni'))))
      else Some (Inr (None, ni)))"

subsection \<open>Time\<close>

fun arp_expire :: "u64 \<Rightarrow> (32 word, ARP_Entry) omap \<Rightarrow> (32 word, ARP_Entry) omap" where
  "arp_expire ms [] = []"
| "arp_expire ms ((ip, entry) # table) =
     (if ae_ttl entry \<le> ms then arp_expire ms table
      else (ip, entry\<lparr>ae_ttl := ae_ttl entry - ms\<rparr>) # arp_expire ms table)"

partial_function (option) ni_resend :: "u64 \<Rightarrow> nat \<Rightarrow> NetworkInterface \<Rightarrow> (cpp_error + NetworkInterface) option" where
  "ni_resend ms i ni =
     (if i \<ge> length (ni_waiting_ip ni) then Some (Inr ni)
      else
        let (ip, ttl) = ni_waiting_ip ni ! i in
        if ttl \<le> ms then
          (case ni_request ni ip of
             Inl e \<Rightarrow> Some (Inl e)
           | Inr ni' \<Rightarrow> ni_resend ms i (ni'\<lparr>ni_waiting_ip := (ni_waiting_ip ni')[i := (ip, arp_response_default_ttl)]\<rparr>))
        else ni_resend ms (Suc i) (ni\<lparr>ni_waiting_ip := (ni_waiting_ip ni)[i := (ip, ttl - ms)]\<rparr>))"

declare ni_resend.simps [code]

definition ni_tick :: "NetworkInterface \<Rightarrow> u64 \<Rightarrow> (cpp_error + NetworkInterface) option" where
  "ni_tick ni ms = ni_resend ms 0 (ni\<lparr>ni_arp_table := arp_expire ms (ni_arp_table ni)\<rparr>)"

subsection \<open>Well-formed interfaces\<close>

text \<open>A datagram that can be written, and the invariant: the maps are ordered, the own address is an
  IPv4 address, no address is both known and asked for, times are within their limits, and every
  waiting datagram can be written and waits for an address that was asked for.\<close>

definition sendable :: "IPv4Datagram \<Rightarrow> bool" where
  "sendable d \<longleftrightarrow> (\<exists>bl. id_serialize d = Inr bl)"

definition hop_is :: "32 word \<Rightarrow> Address \<times> IPv4Datagram \<Rightarrow> bool" where
  "hop_is ip w \<longleftrightarrow> ad_ipv4_numeric (fst w) = Inr ip"

definition ni_inv :: "NetworkInterface \<Rightarrow> bool" where
  "ni_inv ni \<longleftrightarrow> om_ok (ni_arp_table ni) \<and> om_ok (ni_waiting_ip ni) \<and>
     (\<exists>own. ad_ipv4_numeric (ni_ip_address ni) = Inr own) \<and>
     om.keys (ni_arp_table ni) \<inter> om.keys (ni_waiting_ip ni) = {} \<and>
     (\<forall>e \<in> set (ni_arp_table ni). ae_ttl (snd e) \<le> arp_entry_default_ttl) \<and>
     (\<forall>e \<in> set (ni_waiting_ip ni). snd e \<le> arp_response_default_ttl) \<and>
     (\<forall>w \<in> set (ni_waiting_datagrams ni). sendable (snd w) \<and> (\<exists>ip \<in> om.keys (ni_waiting_ip ni). hop_is ip w))"

definition arp_frame :: "EthernetAddress \<Rightarrow> EthernetAddress \<Rightarrow> ARPMessage \<Rightarrow> EthernetFrame" where
  "arp_frame dst src m = \<lparr>ef_header = \<lparr>eh_dst = dst, eh_src = src, eh_type = TYPE_ARP\<rparr>,
     ef_payload = (case am_serialize m of Inr s \<Rightarrow> bl_of_string s | Inl e \<Rightarrow> [])\<rparr>"

definition ipv4_frame :: "EthernetAddress \<Rightarrow> EthernetAddress \<Rightarrow> IPv4Datagram \<Rightarrow> EthernetFrame" where
  "ipv4_frame dst src d = \<lparr>ef_header = \<lparr>eh_dst = dst, eh_src = src, eh_type = TYPE_IPv4\<rparr>,
     ef_payload = (case id_serialize d of Inr bl \<Rightarrow> bl | Inl e \<Rightarrow> [])\<rparr>"

abbreviation request_message :: "EthernetAddress \<Rightarrow> 32 word \<Rightarrow> 32 word \<Rightarrow> ARPMessage" where
  "request_message eth own ip \<equiv> make_ARP am_new OPCODE_REQUEST eth own eth_zero ip"

abbreviation reply_message :: "EthernetAddress \<Rightarrow> 32 word \<Rightarrow> EthernetAddress \<Rightarrow> 32 word \<Rightarrow> ARPMessage" where
  "reply_message eth own peer_eth peer_ip \<equiv> make_ARP am_new OPCODE_REPLY eth own peer_eth peer_ip"

lemma am_supported_made [simp]:
  "am_supported (make_ARP am_new OPCODE_REQUEST a b c d)" "am_supported (make_ARP am_new OPCODE_REPLY a b c d)"
  by (simp_all add: am_supported_def make_ARP_def am_new_def)

lemma am_serialize_supported: "am_supported m \<Longrightarrow> \<exists>s. am_serialize m = Inr s"
  by (simp add: am_serialize_def)

lemma ni_request_eq:
  assumes "ad_ipv4_numeric (ni_ip_address ni) = Inr own"
  shows "ni_request ni ip = Inr (ni\<lparr>ni_frames_out := ni_frames_out ni @
    [arp_frame ETHERNET_BROADCAST (ni_ethernet_address ni) (request_message (ni_ethernet_address ni) own ip)]\<rparr>)"
  using am_serialize_supported[OF am_supported_made(1)[of "ni_ethernet_address ni" own eth_zero ip]] assms
  by (auto simp: ni_request_def ni_send_arp_broadcast_def ni_push_frame_def arp_frame_def)

lemma ni_answer_eq:
  assumes "ad_ipv4_numeric (ni_ip_address ni) = Inr own"
  shows "ni_answer ni m = Inr (ni\<lparr>ni_frames_out := ni_frames_out ni @
    [arp_frame (am_sender_ethernet_address m) (ni_ethernet_address ni)
       (reply_message (ni_ethernet_address ni) own (am_sender_ethernet_address m) (am_sender_ip_address m))]\<rparr>)"
  using am_serialize_supported[OF am_supported_made(2)[of "ni_ethernet_address ni" own
        "am_sender_ethernet_address m" "am_sender_ip_address m"]] assms
  by (auto simp: ni_answer_def ni_send_arp_to_def ni_push_frame_def arp_frame_def)

lemma ni_send_ipv4_eq:
  assumes "sendable d"
  shows "ni_send_ipv4 ni d entry =
    Inr (ni\<lparr>ni_frames_out := ni_frames_out ni @ [ipv4_frame (ae_eth_addr entry) (ni_ethernet_address ni) d]\<rparr>)"
  using assms by (auto simp: sendable_def ni_send_ipv4_def ni_push_frame_def ipv4_frame_def)

subsection \<open>Sending\<close>

lemma ni_send_known:
  assumes "ad_ipv4_numeric hop = Inr ip" "om_find (ni_arp_table ni) ip = Some entry" "sendable d"
  shows "ni_send_datagram ni d hop =
    Inr (ni\<lparr>ni_frames_out := ni_frames_out ni @ [ipv4_frame (ae_eth_addr entry) (ni_ethernet_address ni) d]\<rparr>)"
  using assms by (simp add: ni_send_datagram_def ni_send_ipv4_eq)

lemma ni_send_unknown:
  assumes "ad_ipv4_numeric hop = Inr ip" "om_find (ni_arp_table ni) ip = None"
    and "ad_ipv4_numeric (ni_ip_address ni) = Inr own"
  shows "ni_send_datagram ni d hop =
    Inr (if om_find (ni_waiting_ip ni) ip = None
         then ni\<lparr>ni_frames_out := ni_frames_out ni @
                  [arp_frame ETHERNET_BROADCAST (ni_ethernet_address ni) (request_message (ni_ethernet_address ni) own ip)],
                ni_waiting_ip := om_put ip arp_response_default_ttl (ni_waiting_ip ni),
                ni_waiting_datagrams := ni_waiting_datagrams ni @ [(hop, d)]\<rparr>
         else ni\<lparr>ni_waiting_datagrams := ni_waiting_datagrams ni @ [(hop, d)]\<rparr>)"
  using assms by (simp add: ni_send_datagram_def ni_request_eq)

subsection \<open>Releasing what waits\<close>

definition released :: "NetworkInterface \<Rightarrow> EthernetAddress \<Rightarrow> 32 word \<Rightarrow> EthernetFrame list" where
  "released ni eth ip = map (\<lambda>w. ipv4_frame eth (ni_ethernet_address ni) (snd w))
     (filter (hop_is ip) (ni_waiting_datagrams ni))"

lemma ni_flush_eq:
  assumes "om_find (ni_arp_table ni) ip = Some entry"
    and "\<forall>w \<in> set (ni_waiting_datagrams ni). sendable (snd w) \<and> (\<exists>ip. hop_is ip w)"
  shows "ni_flush ip i ni = Some (Inr (ni\<lparr>
    ni_frames_out := ni_frames_out ni @ map (\<lambda>w. ipv4_frame (ae_eth_addr entry) (ni_ethernet_address ni) (snd w))
      (filter (hop_is ip) (drop i (ni_waiting_datagrams ni))),
    ni_waiting_datagrams := take i (ni_waiting_datagrams ni) @
      filter (\<lambda>w. \<not> hop_is ip w) (drop i (ni_waiting_datagrams ni))\<rparr>))"
  using assms
proof (induction "length (ni_waiting_datagrams ni) - i" arbitrary: i ni)
  case 0
  then show ?case by (simp add: ni_flush.simps[of ip i])
next
  case (Suc n')
  let ?q = "ni_waiting_datagrams ni"
  have i: "i < length ?q" using Suc.hyps(2) by simp
  obtain hop d where w: "?q ! i = (hop, d)" by fastforce
  with i have mem: "(hop, d) \<in> set ?q" by (metis nth_mem)
  have split: "drop i ?q = (hop, d) # drop (Suc i) ?q" using Cons_nth_drop_Suc[OF i] w by simp
  from Suc.prems(2) mem obtain n where n: "ad_ipv4_numeric hop = Inr n" and send: "sendable d"
    by (force simp: hop_is_def)
  show ?case
  proof (cases "n = ip")
    case True
    let ?ni = "ni\<lparr>ni_frames_out := ni_frames_out ni @ [ipv4_frame (ae_eth_addr entry) (ni_ethernet_address ni) d]\<rparr>"
    let ?ni' = "?ni\<lparr>ni_waiting_datagrams := erase_at i ?q\<rparr>"
    have "ni_send_datagram ni d hop = Inr ?ni"
      using ni_send_known[OF _ Suc.prems(1) send] n True by simp
    then have step: "ni_flush ip i ni = ni_flush ip i ?ni'"
      using i w n True by (simp add: ni_flush.simps[of ip i ni])
    have q: "take i (erase_at i ?q) = take i ?q" "drop i (erase_at i ?q) = drop (Suc i) ?q"
      "length (erase_at i ?q) - i = length ?q - Suc i"
      using i by (simp_all add: erase_at_def)
    have "set (erase_at i ?q) \<subseteq> set ?q"
      by (auto simp: erase_at_def dest: in_set_takeD in_set_dropD)
    then have "\<forall>w \<in> set (ni_waiting_datagrams ?ni'). sendable (snd w) \<and> (\<exists>ip. hop_is ip w)"
      using Suc.prems(2) by auto
    moreover have "n' = length (ni_waiting_datagrams ?ni') - i" using Suc.hyps(2) q(3) by simp
    moreover have "hop_is ip (hop, d)" using n True by (simp add: hop_is_def)
    ultimately show ?thesis
      using Suc.hyps(1)[of ?ni' i] Suc.prems(1) step q(1,2) split by simp
  next
    case False
    then have "ni_flush ip i ni = ni_flush ip (Suc i) ni"
      using i w n by (simp add: ni_flush.simps[of ip i ni])
    moreover have "take (Suc i) ?q = take i ?q @ [(hop, d)]"
      using i w by (simp add: take_Suc_conv_app_nth)
    moreover have "\<not> hop_is ip (hop, d)" using n False by (simp add: hop_is_def)
    moreover have "n' = length ?q - Suc i" using Suc.hyps(2) by simp
    ultimately show ?thesis
      using Suc.hyps(1)[of ni "Suc i"] Suc.prems split by simp
  qed
qed

subsection \<open>ARP messages\<close>

definition arp_concerns :: "NetworkInterface \<Rightarrow> 32 word \<Rightarrow> ARPMessage \<Rightarrow> bool" where
  "arp_concerns ni own m \<longleftrightarrow> am_opcode m = OPCODE_REQUEST \<and> am_target_ip_address m = own \<or> arp_is_response ni m"

text \<open>What the interface knows after a message that concerns it.\<close>

definition ni_after_arp :: "NetworkInterface \<Rightarrow> 32 word \<Rightarrow> ARPMessage \<Rightarrow> NetworkInterface" where
  "ni_after_arp ni own m =
     (let eth = am_sender_ethernet_address m; ip = am_sender_ip_address m in
      ni\<lparr>ni_frames_out := ni_frames_out ni @
           (if am_opcode m = OPCODE_REQUEST
            then [arp_frame eth (ni_ethernet_address ni) (reply_message (ni_ethernet_address ni) own eth ip)] else []) @
           released ni eth ip,
         ni_arp_table := om_put ip \<lparr>ae_eth_addr = eth, ae_ttl = arp_entry_default_ttl\<rparr> (ni_arp_table ni),
         ni_waiting_ip := om_erase ip (ni_waiting_ip ni),
         ni_waiting_datagrams := filter (\<lambda>w. \<not> hop_is ip w) (ni_waiting_datagrams ni)\<rparr>)"

lemma ni_learn_eq:
  assumes "om_ok (ni_arp_table ni)"
    and "\<forall>w \<in> set (ni_waiting_datagrams ni). sendable (snd w) \<and> (\<exists>ip. hop_is ip w)"
  shows "ni_learn ni m = Some (Inr (ni\<lparr>
    ni_frames_out := ni_frames_out ni @ released ni (am_sender_ethernet_address m) (am_sender_ip_address m),
    ni_arp_table := om_put (am_sender_ip_address m)
      \<lparr>ae_eth_addr = am_sender_ethernet_address m, ae_ttl = arp_entry_default_ttl\<rparr> (ni_arp_table ni),
    ni_waiting_ip := om_erase (am_sender_ip_address m) (ni_waiting_ip ni),
    ni_waiting_datagrams := filter (\<lambda>w. \<not> hop_is (am_sender_ip_address m) w) (ni_waiting_datagrams ni)\<rparr>))"
proof -
  let ?ip = "am_sender_ip_address m"
  let ?entry = "\<lparr>ae_eth_addr = am_sender_ethernet_address m, ae_ttl = arp_entry_default_ttl\<rparr>"
  let ?ni = "ni\<lparr>ni_arp_table := om_put ?ip ?entry (ni_arp_table ni)\<rparr>"
  have "om_find (ni_arp_table ?ni) ?ip = Some ?entry" using assms(1) by (simp add: om.find_put)
  then show ?thesis
    using ni_flush_eq[of ?ni ?ip ?entry 0] assms(2) by (simp add: ni_learn_def released_def Let_def)
qed

lemma ni_handle_arp_eq:
  assumes "ni_inv ni" "ad_ipv4_numeric (ni_ip_address ni) = Inr own"
  shows "ni_handle_arp ni m = Some (Inr (if arp_concerns ni own m then ni_after_arp ni own m else ni))"
proof -
  have ok: "om_ok (ni_arp_table ni)"
    "\<forall>w \<in> set (ni_waiting_datagrams ni). sendable (snd w) \<and> (\<exists>ip. hop_is ip w)"
    using assms(1) by (auto simp: ni_inv_def)
  have no: "OPCODE_REPLY \<noteq> OPCODE_REQUEST" by (simp add: OPCODE_REPLY_def OPCODE_REQUEST_def)
  consider "am_opcode m = OPCODE_REQUEST" "am_target_ip_address m = own"
    | "\<not> (am_opcode m = OPCODE_REQUEST \<and> am_target_ip_address m = own)" by blast
  then show ?thesis
  proof cases
    case 1
    let ?reply = "arp_frame (am_sender_ethernet_address m) (ni_ethernet_address ni)
       (reply_message (ni_ethernet_address ni) own (am_sender_ethernet_address m) (am_sender_ip_address m))"
    let ?ni = "ni\<lparr>ni_frames_out := ni_frames_out ni @ [?reply]\<rparr>"
    have "ni_handle_arp ni m = ni_learn ?ni m"
      using 1 assms(2) by (simp add: ni_handle_arp_def arp_is_request_def ni_answer_eq)
    then show ?thesis
      using 1 ni_learn_eq[of ?ni m] ok by (simp add: arp_concerns_def ni_after_arp_def released_def Let_def)
  next
    case 2
    then have "ni_handle_arp ni m = (if arp_is_response ni m then ni_learn ni m else Some (Inr ni))"
      using assms(2) by (auto simp: ni_handle_arp_def arp_is_request_def)
    moreover have "am_opcode m \<noteq> OPCODE_REQUEST" if "arp_is_response ni m"
      using that no by (simp add: arp_is_response_def)
    ultimately show ?thesis
      using 2 ni_learn_eq[OF ok, of m] by (auto simp: arp_concerns_def ni_after_arp_def Let_def)
  qed
qed

lemma ni_recv_arp:
  assumes "ni_inv ni" "ad_ipv4_numeric (ni_ip_address ni) = Inr own"
    and "eh_dst (ef_header f) = ni_ethernet_address ni \<or> eh_dst (ef_header f) = ETHERNET_BROADCAST"
    and "eh_type (ef_header f) = TYPE_ARP" "ef_payload f = [b]" "buf_ok b" "am_serialize m = Inr s" "buf_str b = s"
  shows "ni_recv_frame ni f = Some (Inr (None, if arp_concerns ni own m then ni_after_arp ni own m else ni))"
proof -
  have "am_parse am_new b = (NoError, m)"
    using am_parse_serialize[OF assms(7,6), of "[]"] assms(8) by simp
  moreover have "TYPE_ARP \<noteq> TYPE_IPv4" by (simp add: TYPE_ARP_def TYPE_IPv4_def)
  ultimately show ?thesis
    using assms(3-5) ni_handle_arp_eq[OF assms(1,2)]
    by (auto simp: ni_recv_frame_def bl_to_buffer_def Let_def)
qed

subsection \<open>Time\<close>

lemma arp_expire_keys: "fst ` set (arp_expire ms t) \<subseteq> fst ` set t"
  by (induction ms t rule: arp_expire.induct) auto

lemma arp_expire_find: "om_ok t \<Longrightarrow> om_find (arp_expire ms t) ip =
  (case om_find t ip of None \<Rightarrow> None
   | Some e \<Rightarrow> if ae_ttl e \<le> ms then None else Some (e\<lparr>ae_ttl := ae_ttl e - ms\<rparr>))"
proof (induction t)
  case (Cons x t)
  obtain k e where x: "x = (k, e)" by (cases x)
  have ok: "om_ok t" "k \<notin> fst ` set t" using Cons.prems x by (auto simp: om_ok_def)
  then have "map_of t k = None" "map_of (arp_expire ms t) k = None"
    using arp_expire_keys[of ms t] by (auto simp: map_of_eq_None_iff)
  then show ?case using Cons.IH[OF ok(1)] x by (auto simp: om_find_def split: option.splits)
qed (simp add: om_find_def)

lemma arp_expire_ok: "om_ok t \<Longrightarrow> om_ok (arp_expire ms t)"
proof (induction ms t rule: arp_expire.induct)
  case (2 ms ip entry table)
  have "\<forall>k \<in> fst ` set table. ip < k" using 2(3) by (simp add: om_ok_def)
  with arp_expire_keys[of ms table] have "\<forall>k \<in> fst ` set (arp_expire ms table). ip < k" by blast
  with 2 show ?case by (simp add: om_ok_def)
qed simp

definition age_request :: "u64 \<Rightarrow> 32 word \<times> u64 \<Rightarrow> 32 word \<times> u64" where
  "age_request ms w = (fst w, (if snd w \<le> ms then arp_response_default_ttl else snd w) - ms)"

definition resent :: "NetworkInterface \<Rightarrow> 32 word \<Rightarrow> u64 \<Rightarrow> (32 word \<times> u64) list \<Rightarrow> EthernetFrame list" where
  "resent ni own ms ws = map (\<lambda>w. arp_frame ETHERNET_BROADCAST (ni_ethernet_address ni)
     (request_message (ni_ethernet_address ni) own (fst w))) (filter (\<lambda>w. snd w \<le> ms) ws)"

lemma ni_resend_eq:
  assumes "ms < arp_response_default_ttl" "ad_ipv4_numeric (ni_ip_address ni) = Inr own"
  shows "ni_resend ms i ni = Some (Inr (ni\<lparr>
    ni_frames_out := ni_frames_out ni @ resent ni own ms (drop i (ni_waiting_ip ni)),
    ni_waiting_ip := take i (ni_waiting_ip ni) @ map (age_request ms) (drop i (ni_waiting_ip ni))\<rparr>))"
  using assms(2)
proof (induction "length (ni_waiting_ip ni) - i" arbitrary: i ni)
  case 0
  then show ?case by (simp add: ni_resend.simps[of ms i] resent_def)
next
  case (Suc n)
  let ?q = "ni_waiting_ip ni"
  have i: "i < length ?q" using Suc.hyps(2) by simp
  obtain ip ttl where w: "?q ! i = (ip, ttl)" by fastforce
  have split: "drop i ?q = (ip, ttl) # drop (Suc i) ?q" using Cons_nth_drop_Suc[OF i] w by simp
  let ?req = "arp_frame ETHERNET_BROADCAST (ni_ethernet_address ni) (request_message (ni_ethernet_address ni) own ip)"
  let ?ni = "if ttl \<le> ms then ni\<lparr>ni_frames_out := ni_frames_out ni @ [?req]\<rparr> else ni"
  let ?ni' = "?ni\<lparr>ni_waiting_ip := ?q[i := age_request ms (ip, ttl)]\<rparr>"
  have step: "ni_resend ms i ni = ni_resend ms (Suc i) ?ni'"
  proof (cases "ttl \<le> ms")
    case True
    then have "ni_resend ms i ni = ni_resend ms i (?ni\<lparr>ni_waiting_ip := ?q[i := (ip, arp_response_default_ttl)]\<rparr>)"
      using i w ni_request_eq[OF Suc.prems] by (simp add: ni_resend.simps[of ms i ni])
    also have "\<dots> = ni_resend ms (Suc i) ?ni'"
      using i True assms(1) by (subst ni_resend.simps) (simp add: age_request_def)
    finally show ?thesis .
  next
    case False
    then show ?thesis using i w by (simp add: ni_resend.simps[of ms i ni] age_request_def)
  qed
  have q: "take (Suc i) (?q[i := x]) = take i ?q @ [x]" "drop (Suc i) (?q[i := x]) = drop (Suc i) ?q" for x
    using i by (simp_all add: take_Suc_conv_app_nth)
  have "n = length (ni_waiting_ip ?ni') - Suc i" using Suc.hyps(2) by simp
  from Suc.hyps(1)[OF this] Suc.prems step q split show ?case
    by (cases "ttl \<le> ms") (simp_all add: resent_def)
qed

lemma ni_resend_diverges:
  assumes "arp_response_default_ttl \<le> ms" "ad_ipv4_numeric (ni_ip_address ni) = Inr own"
    and "i < length (ni_waiting_ip ni)" "snd (ni_waiting_ip ni ! i) \<le> ms"
  shows "ni_resend ms i ni = None"
proof (rule ccontr)
  let ?P = "\<lambda>ms i ni r. ad_ipv4_numeric (ni_ip_address ni) = Inr own \<longrightarrow> arp_response_default_ttl \<le> ms \<longrightarrow>
      i < length (ni_waiting_ip ni) \<longrightarrow> snd (ni_waiting_ip ni ! i) \<le> ms \<longrightarrow> False"
  assume "ni_resend ms i ni \<noteq> None"
  then obtain r where ret: "ni_resend ms i ni = Some r" by blast
  have "?P ms i ni r"
  proof (rule ni_resend.raw_induct[where P = ?P, OF _ ret], intro impI, goal_cases)
    case (1 f ms i ni r)
    obtain ip ttl where w: "ni_waiting_ip ni ! i = (ip, ttl)" by fastforce
    let ?ni = "ni\<lparr>ni_frames_out := ni_frames_out ni @
      [arp_frame ETHERNET_BROADCAST (ni_ethernet_address ni) (request_message (ni_ethernet_address ni) own ip)],
      ni_waiting_ip := (ni_waiting_ip ni)[i := (ip, arp_response_default_ttl)]\<rparr>"
    have "f ms i ?ni = Some r"
      using 1(2-) w ni_request_eq[of ni own] by (simp split: if_splits)
    from 1(1)[OF this] 1(3-) show False by simp
  qed
  with assms show False by blast
qed

subsection \<open>The invariant\<close>

lemma om_put_set: "set (om_put k v m) \<subseteq> insert (k, v) (set m)"
  by (induction k v m rule: om_put.induct) auto

lemma hop_is_unique: "hop_is ip w \<Longrightarrow> hop_is ip' w \<Longrightarrow> ip = ip'"
  by (simp add: hop_is_def)

lemma ni_inv_waiting:
  "ni_inv ni \<Longrightarrow> w \<in> set (ni_waiting_datagrams ni) \<Longrightarrow> \<exists>ip \<in> om.keys (ni_waiting_ip ni). hop_is ip w"
  by (simp add: ni_inv_def)

lemma ni_inv_new: "ad_ipv4_numeric addr = Inr own \<Longrightarrow> ni_inv (ni_initial eth addr)"
  by (simp add: ni_inv_def ni_initial_def om_keys_eq)

lemma ni_inv_send:
  assumes "ni_inv ni" "sendable d" "ad_ipv4_numeric hop = Inr ip"
  shows "\<exists>ni'. ni_send_datagram ni d hop = Inr ni' \<and> ni_inv ni'"
proof (cases "om_find (ni_arp_table ni) ip")
  case (Some entry)
  then show ?thesis
    using assms ni_send_known[OF assms(3) Some assms(2)] by (simp add: ni_inv_def)
next
  case None
  obtain own where own: "ad_ipv4_numeric (ni_ip_address ni) = Inr own" using assms(1) by (auto simp: ni_inv_def)
  have hop: "hop_is ip (hop, d)" using assms(3) by (simp add: hop_is_def)
  note eq = ni_send_unknown[OF assms(3) None own, of d]
  have nt: "ip \<notin> om.keys (ni_arp_table ni)" using None by (simp add: om.find_None_keys)
  show ?thesis
  proof (cases "om_find (ni_waiting_ip ni) ip = None")
    case True
    have "\<forall>e \<in> set (om_put ip arp_response_default_ttl (ni_waiting_ip ni)). snd e \<le> arp_response_default_ttl"
      using om_put_set[of ip arp_response_default_ttl "ni_waiting_ip ni"] assms(1) by (auto simp: ni_inv_def)
    with True eq show ?thesis
      using assms(1,2) nt hop by (auto simp: ni_inv_def om.ok_put)
  next
    case False
    then have "ip \<in> om.keys (ni_waiting_ip ni)" using om.find_None_keys by metis
    with False eq show ?thesis
      using assms(1,2) hop by (auto simp: ni_inv_def)
  qed
qed

lemma ni_inv_after_arp:
  assumes "ni_inv ni"
  shows "ni_inv (ni_after_arp ni own m)"
proof -
  let ?ip = "am_sender_ip_address m"
  let ?entry = "\<lparr>ae_eth_addr = am_sender_ethernet_address m, ae_ttl = arp_entry_default_ttl\<rparr>"
  have ok: "om_ok (ni_arp_table ni)" "om_ok (ni_waiting_ip ni)"
    "om.keys (ni_arp_table ni) \<inter> om.keys (ni_waiting_ip ni) = {}"
    using assms by (simp_all add: ni_inv_def)
  have "\<forall>e \<in> set (om_put ?ip ?entry (ni_arp_table ni)). ae_ttl (snd e) \<le> arp_entry_default_ttl"
    using om_put_set[of ?ip ?entry "ni_arp_table ni"] assms by (auto simp: ni_inv_def)
  moreover have "\<exists>ip \<in> om.keys (ni_waiting_ip ni) - {?ip}. hop_is ip w"
    if "w \<in> set (ni_waiting_datagrams ni)" "\<not> hop_is ?ip w" for w
    using that assms by (auto simp: ni_inv_def)
  moreover have "om.keys (om_put ?ip ?entry (ni_arp_table ni)) \<inter> om.keys (om_erase ?ip (ni_waiting_ip ni)) = {}"
    using ok by auto
  ultimately show ?thesis
    using assms ok by (simp add: ni_inv_def ni_after_arp_def Let_def om.ok_put om.ok_erase) (simp add: om_erase_def)
qed

lemma ni_inv_recv:
  assumes "ni_inv ni" "length (ef_payload f) \<le> 1"
  shows "\<exists>d ni'. ni_recv_frame ni f = Some (Inr (d, ni')) \<and> ni_inv ni'"
proof -
  obtain own where own: "ad_ipv4_numeric (ni_ip_address ni) = Inr own" using assms(1) by (auto simp: ni_inv_def)
  obtain b where b: "bl_to_buffer (ef_payload f) = Inr b"
    using assms(2) by (cases "ef_payload f") (auto simp: bl_to_buffer_def)
  have arp: "\<exists>ni'. ni_handle_arp ni m = Some (Inr ni') \<and> ni_inv ni'" for m
    using ni_handle_arp_eq[OF assms(1) own, of m] ni_inv_after_arp[OF assms(1)] assms(1) by simp
  obtain r1 d where d: "id_parse id_new b = (r1, d)" by fastforce
  obtain r2 m where m: "am_parse am_new b = (r2, m)" by fastforce
  show ?thesis
    using arp[of m] assms(1) by (auto simp: ni_recv_frame_def Let_def b d m)
qed

lemma ni_tick_eq:
  assumes "ni_inv ni" "ad_ipv4_numeric (ni_ip_address ni) = Inr own" "ms < arp_response_default_ttl"
  shows "ni_tick ni ms = Some (Inr (ni\<lparr>
    ni_frames_out := ni_frames_out ni @ resent ni own ms (ni_waiting_ip ni),
    ni_arp_table := arp_expire ms (ni_arp_table ni),
    ni_waiting_ip := map (age_request ms) (ni_waiting_ip ni)\<rparr>))"
  using ni_resend_eq[OF assms(3), of "ni\<lparr>ni_arp_table := arp_expire ms (ni_arp_table ni)\<rparr>" own 0] assms(2)
  by (simp add: ni_tick_def resent_def)

lemma arp_expire_ttl: "\<forall>e \<in> set t. ae_ttl (snd e) \<le> n \<Longrightarrow> \<forall>e \<in> set (arp_expire ms t). ae_ttl (snd e) \<le> n"
  by (induction ms t rule: arp_expire.induct) auto

lemma ni_inv_tick:
  assumes "ni_inv ni" "ms < arp_response_default_ttl"
  shows "\<exists>ni'. ni_tick ni ms = Some (Inr ni') \<and> ni_inv ni'"
proof -
  obtain own where own: "ad_ipv4_numeric (ni_ip_address ni) = Inr own" using assms(1) by (auto simp: ni_inv_def)
  have fst: "map fst (map (age_request ms) q) = map fst q" for q :: "(32 word \<times> u64) list"
    by (simp add: age_request_def comp_def)
  have keys: "om.keys (map (age_request ms) q) = om.keys q" "om_ok (map (age_request ms) q) = om_ok q"
    for q :: "(32 word \<times> u64) list"
    unfolding om_keys_eq om_ok_def set_map[symmetric] fst by simp_all
  have "\<forall>e \<in> set (map (age_request ms) (ni_waiting_ip ni)). snd e \<le> arp_response_default_ttl"
    using assms(1) by (auto simp: age_request_def ni_inv_def)
  moreover have "om.keys (arp_expire ms (ni_arp_table ni)) \<subseteq> om.keys (ni_arp_table ni)"
    using arp_expire_keys by (simp add: om_keys_eq)
  ultimately have "ni_inv (ni\<lparr>ni_frames_out := ni_frames_out ni @ resent ni own ms (ni_waiting_ip ni),
    ni_arp_table := arp_expire ms (ni_arp_table ni), ni_waiting_ip := map (age_request ms) (ni_waiting_ip ni)\<rparr>)"
    using assms(1) arp_expire_ok arp_expire_ttl keys unfolding ni_inv_def by simp blast
  then show ?thesis using ni_tick_eq[OF assms(1) own assms(2)] by simp
qed

datatype ni_call = SendDatagram IPv4Datagram Address | RecvFrame EthernetFrame | Tick u64

fun ni_call_ok :: "ni_call \<Rightarrow> bool" where
  "ni_call_ok (SendDatagram d hop) \<longleftrightarrow> sendable d \<and> (\<exists>ip. ad_ipv4_numeric hop = Inr ip)"
| "ni_call_ok (RecvFrame f) \<longleftrightarrow> length (ef_payload f) \<le> 1"
| "ni_call_ok (Tick ms) \<longleftrightarrow> ms < arp_response_default_ttl"

fun ni_step :: "NetworkInterface \<Rightarrow> ni_call \<Rightarrow> (cpp_error + NetworkInterface) option" where
  "ni_step ni (SendDatagram d hop) = Some (ni_send_datagram ni d hop)"
| "ni_step ni (RecvFrame f) = ret_bind (ni_recv_frame ni f) (\<lambda>x. Some (Inr (snd x)))"
| "ni_step ni (Tick ms) = ni_tick ni ms"

fun ni_run :: "NetworkInterface \<Rightarrow> ni_call list \<Rightarrow> (cpp_error + NetworkInterface) option" where
  "ni_run ni [] = Some (Inr ni)"
| "ni_run ni (c # cs) = ret_bind (ni_step ni c) (\<lambda>ni'. ni_run ni' cs)"

lemma ni_inv_step: "ni_inv ni \<Longrightarrow> ni_call_ok c \<Longrightarrow> \<exists>ni'. ni_step ni c = Some (Inr ni') \<and> ni_inv ni'"
proof (cases c)
  case (RecvFrame f)
  assume "ni_inv ni" "ni_call_ok c"
  then obtain d ni' where "ni_recv_frame ni f = Some (Inr (d, ni'))" "ni_inv ni'"
    using ni_inv_recv[of ni f] RecvFrame by auto
  then show ?thesis using RecvFrame by simp
qed (auto simp: ni_inv_send ni_inv_tick)

lemma ni_inv_run:
  "ni_inv ni \<Longrightarrow> list_all ni_call_ok cs \<Longrightarrow> \<exists>ni'. ni_run ni cs = Some (Inr ni') \<and> ni_inv ni'"
  by (induction cs arbitrary: ni) (use ni_inv_step in force)+

text \<open>
  C23. The invariant of the network interface, from its constructor on: for every sequence of
  datagrams to send (which can be written, to IPv4 next hops), frames as they come from the wire
  (the payload in at most one buffer) and ticks of less than five seconds, every call returns, and
  afterwards no address is both resolved and asked for, and every waiting datagram waits for an
  address that was asked for and not yet resolved.
\<close>

theorem interface_invariant:
  assumes "ni_new rs eth addr = Inr ni0" "ad_ipv4_numeric addr = Inr own" "list_all ni_call_ok cs"
  shows "\<exists>ni. ni_run ni0 cs = Some (Inr ni) \<and> ni_inv ni"
  using ni_inv_run[OF ni_inv_new[OF assms(2)] assms(3)] ni_new_initial[OF assms(1)] by simp

theorem interface_invariant_witness:
  "\<exists>ni0 ni. ni_new numeric_only eth_zero (inet_address 1 0) = Inr ni0 \<and>
      ni_run ni0 [SendDatagram example_datagram (inet_address 2 0), Tick 4999] = Some (Inr ni) \<and> ni_inv ni"
proof -
  have "sendable example_datagram"
    using id_parse_serialize[OF example_datagram_ok] unfolding sendable_def by metis
  then have "list_all ni_call_ok [SendDatagram example_datagram (inet_address 2 0), Tick 4999]"
    by (auto simp: arp_response_default_ttl_def)
  from interface_invariant[OF ni_new_numeric[OF numeric_only_resolves] inet_address_numeric this]
  show ?thesis using ni_new_numeric[OF numeric_only_resolves] by blast
qed

subsection \<open>Two interfaces on one network\<close>

text \<open>A frame as it arrives at the other end of the wire.\<close>

definition on_wire :: "EthernetFrame \<Rightarrow> EthernetFrame" where
  "on_wire f = snd (ef_parse ef_new (buf_of_string (bl_concatenate (ef_serialize f))))"

lemma on_wire_eq:
  assumes "bl_size (ef_payload f) < 2 ^ 63"
  obtains b where "on_wire f = f\<lparr>ef_payload := [b]\<rparr>" "buf_ok b" "buf_str b = bl_concatenate (ef_payload f)"
  using ef_parse_serialize[OF assms, of ef_new] by (auto simp: on_wire_def)

lemma arp_frame_size: "am_supported m \<Longrightarrow> bl_size (ef_payload (arp_frame dst src m)) < 2 ^ 63"
  using am_serialize_supported[of m] am_serialize_length[of m]
  by (auto simp: arp_frame_def bl_of_string_def buf_size_def)

lemma ipv4_frame_size:
  assumes "id_ok d"
  shows "bl_size (ef_payload (ipv4_frame dst src d)) < 2 ^ 63"
proof -
  have "unat (ih_len (id_header d)) < 2 ^ 16" using unsigned_less[of "ih_len (id_header d)", where 'a = nat] by simp
  moreover obtain bl where "id_serialize d = Inr bl" "bl_size bl = unat (ih_len (id_header d))"
    using id_parse_serialize[OF assms] by metis
  ultimately show ?thesis by (simp add: ipv4_frame_def)
qed

lemma ni_recv_arp_wire:
  assumes "ni_inv ni" "ad_ipv4_numeric (ni_ip_address ni) = Inr own" "am_supported m"
    and "dst = ni_ethernet_address ni \<or> dst = ETHERNET_BROADCAST"
  shows "ni_recv_frame ni (on_wire (arp_frame dst src m)) =
    Some (Inr (None, if arp_concerns ni own m then ni_after_arp ni own m else ni))"
proof -
  obtain s where s: "am_serialize m = Inr s" using am_serialize_supported[OF assms(3)] by blast
  then have pl: "ef_payload (arp_frame dst src m) = bl_of_string s" by (simp add: arp_frame_def)
  obtain b where b: "on_wire (arp_frame dst src m) = (arp_frame dst src m)\<lparr>ef_payload := [b]\<rparr>" "buf_ok b" "buf_str b = s"
    using on_wire_eq[OF arp_frame_size[OF assms(3), of dst src]] pl by (auto simp: bl_of_string_def)
  show ?thesis
    unfolding b(1) by (rule ni_recv_arp[OF assms(1,2) _ _ _ b(2) s b(3)]) (use assms(4) in \<open>simp_all add: arp_frame_def\<close>)
qed

text \<open>The datagram that arrives: the same up to the header checksum, in one buffer.\<close>

definition arrived :: "IPv4Datagram \<Rightarrow> IPv4Datagram \<Rightarrow> bool" where
  "arrived d' d \<longleftrightarrow> (\<exists>v pl. id_header d' = (id_header d)\<lparr>ih_cksum := v\<rparr> \<and> id_payload d' = [pl] \<and> buf_ok pl \<and>
     buf_str pl = bl_concatenate (id_payload d))"

lemma arrived_same:
  "arrived d' d \<Longrightarrow> (id_header d')\<lparr>ih_cksum := ih_cksum (id_header d)\<rparr> = id_header d"
  "arrived d' d \<Longrightarrow> bl_concatenate (id_payload d') = bl_concatenate (id_payload d)"
  by (auto simp: arrived_def)

lemma ni_recv_ipv4_wire:
  assumes "id_ok d" "dst = ni_ethernet_address ni"
  shows "\<exists>d'. ni_recv_frame ni (on_wire (ipv4_frame dst src d)) = Some (Inr (Some d', ni)) \<and> arrived d' d"
proof -
  obtain bl v where bl: "id_serialize d = Inr bl" "bl_size bl = unat (ih_len (id_header d))"
    and parse: "\<forall>d0 buf. buf_ok buf \<and> buf_str buf = bl_concatenate bl \<longrightarrow>
      (\<exists>b p. id_parse d0 buf = (NoError, \<lparr>id_header = (id_header d)\<lparr>ih_cksum := v\<rparr>, id_payload = [b]\<rparr>) \<and>
        buf_ok b \<and> buf_str b = bl_concatenate (id_payload d) \<and>
        ih_parse ih_new (np_new buf) = (NoError, (id_header d)\<lparr>ih_cksum := v\<rparr>, p))"
    using id_parse_serialize[OF assms(1)] by metis
  let ?f = "ipv4_frame dst src d"
  have pl: "ef_payload ?f = bl" using bl(1) by (simp add: ipv4_frame_def)
  obtain buf where buf: "on_wire ?f = ?f\<lparr>ef_payload := [buf]\<rparr>" "buf_ok buf" "buf_str buf = bl_concatenate bl"
    using on_wire_eq[OF ipv4_frame_size[OF assms(1), of dst src]] pl by metis
  obtain b where b: "id_parse id_new buf = (NoError, \<lparr>id_header = (id_header d)\<lparr>ih_cksum := v\<rparr>, id_payload = [b]\<rparr>)"
    "buf_ok b" "buf_str b = bl_concatenate (id_payload d)"
    using parse buf(2,3) by blast
  then have "ni_recv_frame ni (on_wire ?f) =
      Some (Inr (Some \<lparr>id_header = (id_header d)\<lparr>ih_cksum := v\<rparr>, id_payload = [b]\<rparr>, ni))"
    unfolding buf(1) using assms(2) by (simp add: ni_recv_frame_def ipv4_frame_def bl_to_buffer_def)
  with b(2,3) show ?thesis by (auto simp: arrived_def)
qed

lemma id_ok_sendable: "id_ok d \<Longrightarrow> sendable d"
  using id_parse_serialize unfolding sendable_def by metis

text \<open>The owner of an interface takes the frames from its queue.\<close>

abbreviation drained :: "NetworkInterface \<Rightarrow> NetworkInterface" where
  "drained ni \<equiv> ni\<lparr>ni_frames_out := []\<rparr>"

lemma ni_inv_drained [simp]: "ni_inv (drained ni) = ni_inv ni"
  by (simp add: ni_inv_def)

lemma arp_exchange:
  assumes "ni_inv a" "ni_inv b" "id_ok d"
    and "ad_ipv4_numeric hop = Inr ipb" "ad_ipv4_numeric (ni_ip_address b) = Inr ipb"
    and "om_find (ni_arp_table a) ipb = None" "om_find (ni_waiting_ip a) ipb = None"
    and "ni_frames_out a = []" "ni_frames_out b = []"
  shows "\<exists>a1 req b1 rep more a2 f d'.
    ni_send_datagram a d hop = Inr a1 \<and> ni_frames_out a1 = [req] \<and> ni_inv a1 \<and>
    ni_recv_frame b (on_wire req) = Some (Inr (None, b1)) \<and> ni_frames_out b1 = rep # more \<and>
    ni_recv_frame (drained a1) (on_wire rep) = Some (Inr (None, a2)) \<and> ni_frames_out a2 = [f] \<and>
    ni_waiting_datagrams a2 = ni_waiting_datagrams a \<and>
    ni_recv_frame (drained b1) (on_wire f) = Some (Inr (Some d', drained b1)) \<and> arrived d' d \<and>
    (\<forall>g \<in> {req, rep, f}. bl_size (ef_payload g) < 2 ^ 63)"
proof -
  obtain ipa where ipa: "ad_ipv4_numeric (ni_ip_address a) = Inr ipa" using assms(1) by (auto simp: ni_inv_def)
  let ?ea = "ni_ethernet_address a" and ?eb = "ni_ethernet_address b"
  let ?ask = "request_message ?ea ipa ipb" and ?tell = "reply_message ?eb ipb ?ea ipa"
  let ?req = "arp_frame ETHERNET_BROADCAST ?ea ?ask" and ?rep = "arp_frame ?ea ?eb ?tell"
  define a1 where "a1 = a\<lparr>ni_frames_out := [?req],
    ni_waiting_ip := om_put ipb arp_response_default_ttl (ni_waiting_ip a),
    ni_waiting_datagrams := ni_waiting_datagrams a @ [(hop, d)]\<rparr>"
  have send: "ni_send_datagram a d hop = Inr a1"
    using ni_send_unknown[OF assms(4,6) ipa, of d] assms(7,8) by (simp add: a1_def)
  then have inv1: "ni_inv a1"
    using ni_inv_send[OF assms(1) id_ok_sendable[OF assms(3)] assms(4)] by simp
  have out: "ni_frames_out a1 = [?req]" by (simp add: a1_def)
  define b1 where "b1 = ni_after_arp b ipb ?ask"
  have "arp_concerns b ipb ?ask" by (simp add: arp_concerns_def make_ARP_def)
  then have recv_b: "ni_recv_frame b (on_wire ?req) = Some (Inr (None, b1))"
    using ni_recv_arp_wire[OF assms(2,5), of ?ask ETHERNET_BROADCAST ?ea] by (simp add: b1_def)
  have frames_b: "ni_frames_out b1 = ?rep # released b ?ea ipa" "ni_ethernet_address b1 = ?eb"
    using assms(9) by (simp_all add: b1_def ni_after_arp_def make_ARP_def Let_def)
  have ipa1: "ad_ipv4_numeric (ni_ip_address (drained a1)) = Inr ipa" "ni_ethernet_address a1 = ?ea"
    using ipa by (simp_all add: a1_def)
  have inv1': "ni_inv (drained a1)" using inv1 by simp
  have "arp_concerns (drained a1) ipa ?tell"
    by (simp add: arp_concerns_def arp_is_response_def make_ARP_def ipa1(2))
  then have recv_a: "ni_recv_frame (drained a1) (on_wire ?rep) = Some (Inr (None, ni_after_arp (drained a1) ipa ?tell))"
    using ni_recv_arp_wire[OF inv1' ipa1(1), of ?tell ?ea ?eb] ipa1(2) by simp
  have "\<not> hop_is ipb w" if w: "w \<in> set (ni_waiting_datagrams a)" for w
  proof -
    obtain ip where "ip \<in> om.keys (ni_waiting_ip a)" "hop_is ip w"
      using ni_inv_waiting[OF assms(1) w] by blast
    moreover have "ipb \<notin> om.keys (ni_waiting_ip a)" using assms(7) by (simp add: om.find_None_keys)
    ultimately show ?thesis using hop_is_unique by blast
  qed
  then have q: "filter (hop_is ipb) (ni_waiting_datagrams a1) = [(hop, d)]"
    "filter (\<lambda>w. \<not> hop_is ipb w) (ni_waiting_datagrams a1) = ni_waiting_datagrams a"
    using assms(4) by (simp_all add: a1_def hop_is_def filter_empty_conv)
  have "OPCODE_REPLY \<noteq> OPCODE_REQUEST" by (simp add: OPCODE_REPLY_def OPCODE_REQUEST_def)
  then have frames_a: "ni_frames_out (ni_after_arp (drained a1) ipa ?tell) = [ipv4_frame ?eb ?ea d]"
    "ni_waiting_datagrams (ni_after_arp (drained a1) ipa ?tell) = ni_waiting_datagrams a"
    using q ipa1(2) by (simp_all add: ni_after_arp_def released_def make_ARP_def Let_def)
  obtain d' where "ni_recv_frame (drained b1) (on_wire (ipv4_frame ?eb ?ea d)) = Some (Inr (Some d', drained b1))"
    "arrived d' d"
    using ni_recv_ipv4_wire[OF assms(3), of ?eb "drained b1" ?ea] frames_b(2) by auto
  moreover have "\<forall>g \<in> {?req, ?rep, ipv4_frame ?eb ?ea d}. bl_size (ef_payload g) < 2 ^ 63"
    using arp_frame_size[OF am_supported_made(1)] arp_frame_size[OF am_supported_made(2)] ipv4_frame_size[OF assms(3)]
    by blast
  ultimately show ?thesis using send inv1 out recv_b frames_b(1) recv_a frames_a by blast
qed

text \<open>
  C13. Address resolution: when interface \<open>a\<close> is given a datagram for interface \<open>b\<close>, whose
  Ethernet address it does not know and has not asked for, it broadcasts one request; \<open>b\<close> answers
  it; with the answer \<open>a\<close> sends the datagram, and nothing else, to \<open>b\<close>; and \<open>b\<close> takes out of the
  frame the datagram as it was sent (up to the header checksum). The datagrams waiting at \<open>a\<close> are
  then those that were waiting before.
\<close>

theorem arp_resolution:
  assumes "ni_inv a" "ni_inv b" "id_ok d"
    and "ad_ipv4_numeric hop = Inr ipb" "ad_ipv4_numeric (ni_ip_address b) = Inr ipb"
    and "om_find (ni_arp_table a) ipb = None" "om_find (ni_waiting_ip a) ipb = None"
    and "ni_frames_out a = []" "ni_frames_out b = []"
  shows "\<exists>a1 req b1 rep more a2 f d'.
    ni_send_datagram a d hop = Inr a1 \<and> ni_frames_out a1 = [req] \<and>
    ni_recv_frame b (on_wire req) = Some (Inr (None, b1)) \<and> ni_frames_out b1 = rep # more \<and>
    ni_recv_frame (drained a1) (on_wire rep) = Some (Inr (None, a2)) \<and> ni_frames_out a2 = [f] \<and>
    ni_waiting_datagrams a2 = ni_waiting_datagrams a \<and>
    ni_recv_frame (drained b1) (on_wire f) = Some (Inr (Some d', drained b1)) \<and>
    (id_header d')\<lparr>ih_cksum := ih_cksum (id_header d)\<rparr> = id_header d \<and>
    bl_concatenate (id_payload d') = bl_concatenate (id_payload d)"
  using arp_exchange[OF assms]
  by (elim exE conjE) (intro exI conjI; (assumption | rule arrived_same, assumption))

theorem arp_resolution_witness:
  "\<exists>a1 req b1 rep more a2 f d'.
    ni_send_datagram (ni_initial eth_zero (inet_address 1 0)) example_datagram (inet_address 2 0) = Inr a1 \<and>
    ni_frames_out a1 = [req] \<and>
    ni_recv_frame (ni_initial (EthernetAddress 2 0 0 0 0 1) (inet_address 2 0)) (on_wire req) = Some (Inr (None, b1)) \<and>
    ni_frames_out b1 = rep # more \<and> ni_recv_frame (drained a1) (on_wire rep) = Some (Inr (None, a2)) \<and>
    ni_frames_out a2 = [f] \<and> ni_recv_frame (drained b1) (on_wire f) = Some (Inr (Some d', drained b1)) \<and>
    bl_concatenate (id_payload d') = [1, 2, 3]"
proof -
  let ?a = "ni_initial eth_zero (inet_address 1 0)" and ?b = "ni_initial (EthernetAddress 2 0 0 0 0 1) (inet_address 2 0)"
  have 1: "ni_inv ?a" "ni_inv ?b" by (rule ni_inv_new[OF inet_address_numeric])+
  have 2: "ad_ipv4_numeric (ni_ip_address ?b) = Inr 2" "om_find (ni_arp_table ?a) 2 = None"
    "om_find (ni_waiting_ip ?a) 2 = None" "ni_frames_out ?a = []" "ni_frames_out ?b = []"
    by (simp_all add: ni_initial_def om_find_def)
  have "bl_concatenate (id_payload example_datagram) = [1, 2, 3]" by (simp add: example_datagram_def)
  with arp_resolution[OF 1 example_datagram_ok inet_address_numeric 2] show ?thesis by metis
qed

text \<open>
  The effect of a tick of less than five seconds, in every reachable state: an entry of the
  ARP table is forgotten when its remaining time has passed and ages otherwise; each pending
  request whose time has passed is sent again, once, in the order of the addresses; and nothing
  else changes.
\<close>

theorem interface_tick:
  assumes "ni_inv ni" "ad_ipv4_numeric (ni_ip_address ni) = Inr own" "ms < arp_response_default_ttl"
  shows "\<exists>ni'. ni_tick ni ms = Some (Inr ni') \<and>
    ni_frames_out ni' = ni_frames_out ni @ map (\<lambda>w. arp_frame ETHERNET_BROADCAST (ni_ethernet_address ni)
      (request_message (ni_ethernet_address ni) own (fst w))) (filter (\<lambda>w. snd w \<le> ms) (ni_waiting_ip ni)) \<and>
    (\<forall>ip. om_find (ni_arp_table ni') ip = (case om_find (ni_arp_table ni) ip of None \<Rightarrow> None
       | Some e \<Rightarrow> if ae_ttl e \<le> ms then None else Some (e\<lparr>ae_ttl := ae_ttl e - ms\<rparr>))) \<and>
    map fst (ni_waiting_ip ni') = map fst (ni_waiting_ip ni) \<and>
    ni_waiting_datagrams ni' = ni_waiting_datagrams ni"
  using ni_tick_eq[OF assms] assms(1)
  by (simp add: resent_def arp_expire_find ni_inv_def age_request_def comp_def)

theorem interface_tick_witness:
  "\<exists>ni'. ni_tick (ni_initial eth_zero (inet_address 1 0)) 7 = Some (Inr ni') \<and> ni_frames_out ni' = []"
  using interface_tick[OF ni_inv_new[OF inet_address_numeric], of eth_zero 1 0 1 7]
  by (auto simp: ni_initial_def arp_response_default_ttl_def)

text \<open>
  C40. A tick of five seconds or more never returns while a request is pending: its time is set to
  five seconds each time the request is sent, which has then passed again.
\<close>

theorem interface_tick_diverges:
  assumes "ni_inv ni" "ni_waiting_ip ni \<noteq> []" "arp_response_default_ttl \<le> ms"
  shows "ni_tick ni ms = None"
proof -
  obtain own where own: "ad_ipv4_numeric (ni_ip_address ni) = Inr own" using assms(1) by (auto simp: ni_inv_def)
  have "ni_waiting_ip ni ! 0 \<in> set (ni_waiting_ip ni)" using assms(2) by simp
  then have "snd (ni_waiting_ip ni ! 0) \<le> ms" using assms(1,3) by (fastforce simp: ni_inv_def)
  then show ?thesis
    unfolding ni_tick_def using assms(2,3) own by (intro ni_resend_diverges[of ms _ own]) auto
qed

theorem interface_tick_diverges_witness:
  "\<exists>ni. ni_send_datagram (ni_initial eth_zero (inet_address 1 0)) example_datagram (inet_address 2 0) = Inr ni \<and>
     ni_tick ni 5000 = None"
proof -
  let ?a = "ni_initial eth_zero (inet_address 1 0)"
  obtain ni where ni: "ni_send_datagram ?a example_datagram (inet_address 2 0) = Inr ni" "ni_inv ni"
    using ni_inv_send[OF ni_inv_new id_ok_sendable[OF example_datagram_ok]] inet_address_numeric by metis
  have "ni_waiting_ip ni \<noteq> []"
    using ni(1) ni_send_unknown[of "inet_address 2 0" 2 ?a 1 example_datagram]
    by (auto simp: ni_initial_def om_find_def)
  then show ?thesis
    using ni interface_tick_diverges[OF ni(2)] by (auto simp: arp_response_default_ttl_def)
qed

end
