(* ===== verification/Tap_Adapter.thy ===== *)
theory Tap_Adapter
  imports Network_Interface
begin

text \<open>
  Segments in datagrams in Ethernet frames on a TAP device
  (\<open>libsponge/tcp_helpers/tuntap_adapter.hh\<close> and \<open>tuntap_adapter.cc\<close>,
  \<open>TCPOverIPv4OverEthernetAdapter\<close>). What the device delivers is an argument of \<open>read\<close>; the frames
  written to it are part of each result.
\<close>

subsection \<open>The adapter\<close>

record TapAdapter =
  tp_base :: FdAdapterBase
  tp_interface :: NetworkInterface
  tp_next_hop :: Address

text \<open>The constructor sends an empty frame to prime the device.\<close>

definition tp_new ::
    "Resolver \<Rightarrow> FdAdapterBase \<Rightarrow> EthernetAddress \<Rightarrow> Address \<Rightarrow> Address \<Rightarrow> cpp_error + bytes list \<times> TapAdapter" where
  "tp_new rs base eth_address ip_address next_hop =
     throw_bind (ni_new rs eth_address ip_address) (\<lambda>interface.
       Inr ([bl_concatenate (ef_serialize ef_new)],
         \<lparr>tp_base = base, tp_interface = interface, tp_next_hop = next_hop\<rparr>))"

text \<open>The loop that writes the pending frames to the device and takes them from the queue.\<close>

fun send_frames :: "EthernetFrame list \<Rightarrow> bytes list" where
  "send_frames [] = []"
| "send_frames (f # fs) = bl_concatenate (ef_serialize f) # send_frames fs"

definition tp_send_pending :: "TapAdapter \<Rightarrow> bytes list \<times> TapAdapter" where
  "tp_send_pending tp =
     (send_frames (ni_frames_out (tp_interface tp)),
      tp\<lparr>tp_interface := (tp_interface tp)\<lparr>ni_frames_out := []\<rparr>\<rparr>)"

definition tp_read ::
    "Resolver \<Rightarrow> TapAdapter \<Rightarrow> bytes \<Rightarrow> (cpp_error + TCPSegment option \<times> bytes list \<times> TapAdapter) option" where
  "tp_read rs tp received =
     (let (res, frame) = ef_parse ef_new (buf_of_string received) in
      if res \<noteq> NoError then Some (Inr (None, [], tp))
      else ret_bind (ni_recv_frame (tp_interface tp) frame) (\<lambda>(ip_dgram, ni).
        let (out, tp') = tp_send_pending (tp\<lparr>tp_interface := ni\<rparr>) in
        case ip_dgram of
          None \<Rightarrow> Some (Inr (None, out, tp'))
        | Some d \<Rightarrow> ret_bind (Some (unwrap_tcp_in_ip rs (tp_base tp') d)) (\<lambda>(seg, base).
            Some (Inr (seg, out, tp'\<lparr>tp_base := base\<rparr>)))))"

definition tp_tick :: "TapAdapter \<Rightarrow> u64 \<Rightarrow> (cpp_error + bytes list \<times> TapAdapter) option" where
  "tp_tick tp ms =
     ret_bind (ni_tick (tp_interface tp) ms) (\<lambda>ni. Some (Inr (tp_send_pending (tp\<lparr>tp_interface := ni\<rparr>))))"

definition tp_write :: "Resolver \<Rightarrow> TapAdapter \<Rightarrow> TCPSegment \<Rightarrow> cpp_error + TCPSegment \<times> bytes list \<times> TapAdapter" where
  "tp_write rs tp seg0 =
     throw_bind (wrap_tcp_in_ip rs (tp_base tp) seg0) (\<lambda>(seg, d).
     throw_bind (ni_send_datagram (tp_interface tp) d (tp_next_hop tp)) (\<lambda>ni.
       Inr (seg, tp_send_pending (tp\<lparr>tp_interface := ni\<rparr>))))"

subsection \<open>Delivery\<close>

text \<open>Reading a frame that another end has written.\<close>

lemma tp_read_frame:
  assumes "bl_size (ef_payload f) < 2 ^ 63"
    and "ni_recv_frame (tp_interface tp) (on_wire f) = Some (Inr (None, ni))"
  shows "tp_read rs tp (bl_concatenate (ef_serialize f)) =
    Some (Inr (None, tp_send_pending (tp\<lparr>tp_interface := ni\<rparr>)))"
proof -
  have "ef_parse ef_new (buf_of_string (bl_concatenate (ef_serialize f))) = (NoError, on_wire f)"
    using ef_parse_serialize[OF assms(1), of ef_new] by (auto simp: on_wire_def)
  then show ?thesis using assms(2) by (simp add: tp_read_def case_prod_beta)
qed

lemma tp_read_datagram:
  assumes "bl_size (ef_payload f) < 2 ^ 63"
    and "ni_recv_frame (tp_interface tp) (on_wire f) = Some (Inr (Some d, tp_interface tp))"
    and "ni_frames_out (tp_interface tp) = []"
    and "unwrap_tcp_in_ip rs (tp_base tp) d = Inr (seg, tp_base tp)"
  shows "tp_read rs tp (bl_concatenate (ef_serialize f)) = Some (Inr (seg, [], tp))"
proof -
  have "ef_parse ef_new (buf_of_string (bl_concatenate (ef_serialize f))) = (NoError, on_wire f)"
    using ef_parse_serialize[OF assms(1), of ef_new] by (auto simp: on_wire_def)
  moreover have "tp\<lparr>tp_interface := (tp_interface tp)\<lparr>ni_frames_out := []\<rparr>\<rparr> = tp"
    using assms(3) by (cases tp; cases "tp_interface tp") simp
  ultimately show ?thesis using assms(2-4) by (simp add: tp_read_def tp_send_pending_def)
qed

text \<open>
  C18. A segment travels over Ethernet: for two TAP adapters whose configurations mirror each
  other, where the sender does not know the Ethernet address of its next hop, the receiver, the
  segment goes through after one exchange: \<open>write\<close> sends a request, the receiver's \<open>read\<close> answers
  it, with the answer the sender's \<open>read\<close> sends the frame with the datagram, and from it the
  receiver's \<open>read\<close> returns the segment, with every header field but ports and checksum and with
  its payload.
\<close>

theorem tap_delivers:
  assumes "linked_ends rs (tp_base a) (tp_base b)" "segment_fits seg"
    and "ni_inv (tp_interface a)" "ni_inv (tp_interface b)"
    and "ad_ipv4_numeric (tp_next_hop a) = Inr ipb" "ad_ipv4_numeric (ni_ip_address (tp_interface b)) = Inr ipb"
    and "om_find (ni_arp_table (tp_interface a)) ipb = None" "om_find (ni_waiting_ip (tp_interface a)) ipb = None"
    and "ni_frames_out (tp_interface a) = []" "ni_frames_out (tp_interface b) = []"
  shows "\<exists>seg1 req a1 rep more b1 frame a2 seg2.
    tp_write rs a seg = Inr (seg1, [req], a1) \<and>
    tp_read rs b req = Some (Inr (None, rep # more, b1)) \<and>
    tp_read rs a1 rep = Some (Inr (None, [frame], a2)) \<and>
    tp_read rs b1 frame = Some (Inr (Some seg2, [], b1)) \<and> same_segment seg2 seg"
proof -
  obtain seg1 d where w: "wrap_tcp_in_ip rs (tp_base a) seg = Inr (seg1, d)" "id_ok d"
    and unwrap: "\<forall>d' ck pl. id_header d' = (id_header d)\<lparr>ih_cksum := ck\<rparr> \<and> id_payload d' = [pl] \<and> buf_ok pl \<and>
      buf_str pl = bl_concatenate (id_payload d) \<longrightarrow>
      (\<exists>seg2. unwrap_tcp_in_ip rs (tp_base b) d' = Inr (Some seg2, tp_base b) \<and> same_segment seg2 seg)"
    using wrap_tcp_in_ip_ok[OF assms(1,2)] by metis
  let ?w = "\<lambda>f. bl_concatenate (ef_serialize f)"
  obtain i1 req j1 rep more i2 f d' where ex:
    "ni_send_datagram (tp_interface a) d (tp_next_hop a) = Inr i1" "ni_frames_out i1 = [req]"
    "ni_recv_frame (tp_interface b) (on_wire req) = Some (Inr (None, j1))" "ni_frames_out j1 = rep # more"
    "ni_recv_frame (drained i1) (on_wire rep) = Some (Inr (None, i2))" "ni_frames_out i2 = [f]"
    "ni_recv_frame (drained j1) (on_wire f) = Some (Inr (Some d', drained j1))" "arrived d' d"
    "bl_size (ef_payload req) < 2 ^ 63" "bl_size (ef_payload rep) < 2 ^ 63" "bl_size (ef_payload f) < 2 ^ 63"
    using arp_exchange[OF assms(3,4) w(2) assms(5-10)] by (elim exE conjE) simp
  obtain seg2 where seg2: "unwrap_tcp_in_ip rs (tp_base b) d' = Inr (Some seg2, tp_base b)" "same_segment seg2 seg"
    using unwrap ex(8) unfolding arrived_def by blast
  define a1 where "a1 = a\<lparr>tp_interface := drained i1\<rparr>"
  define b1 where "b1 = b\<lparr>tp_interface := drained j1\<rparr>"
  have "tp_write rs a seg = Inr (seg1, [?w req], a1)"
    using w(1) ex(1,2) by (simp add: tp_write_def tp_send_pending_def a1_def)
  moreover have "tp_read rs b (?w req) = Some (Inr (None, ?w rep # send_frames more, b1))"
    using tp_read_frame[OF ex(9,3)] ex(4) by (simp add: tp_send_pending_def b1_def)
  moreover have "tp_read rs a1 (?w rep) = Some (Inr (None, [?w f], a1\<lparr>tp_interface := drained i2\<rparr>))"
    using tp_read_frame[OF ex(10), of a1 i2 rs] ex(5,6) by (simp add: tp_send_pending_def a1_def)
  moreover have "tp_read rs b1 (?w f) = Some (Inr (Some seg2, [], b1))"
    using ex(7) seg2(1) by (intro tp_read_datagram[OF ex(11)]) (simp_all add: b1_def)
  ultimately show ?thesis using seg2(2) by blast
qed

definition example_tap :: "EthernetAddress \<Rightarrow> 32 word \<Rightarrow> 32 word \<Rightarrow> TapAdapter" where
  "example_tap eth ip peer = \<lparr>tp_base = example_end ip peer, tp_interface = ni_initial eth (inet_address ip 0),
     tp_next_hop = inet_address peer 0\<rparr>"

lemma example_tap_new:
  "tp_new numeric_only (example_end ip peer) eth (inet_address ip 0) (inet_address peer 0) =
     Inr ([bl_concatenate (ef_serialize ef_new)], example_tap eth ip peer)"
  by (simp add: tp_new_def example_tap_def ni_new_numeric numeric_only_resolves)

theorem tap_delivers_witness:
  "\<exists>seg1 req a1 rep more b1 frame a2 seg2.
    tp_write numeric_only (example_tap eth_zero 1 2) (ts_new\<lparr>ts_payload := buf_of_string [7]\<rparr>) = Inr (seg1, [req], a1) \<and>
    tp_read numeric_only (example_tap (EthernetAddress 2 0 0 0 0 1) 2 1) req = Some (Inr (None, rep # more, b1)) \<and>
    tp_read numeric_only a1 rep = Some (Inr (None, [frame], a2)) \<and>
    tp_read numeric_only b1 frame = Some (Inr (Some seg2, [], b1)) \<and> buf_str (ts_payload seg2) = [7]"
proof -
  let ?a = "example_tap eth_zero 1 2" and ?b = "example_tap (EthernetAddress 2 0 0 0 0 1) 2 1"
  note defs = example_tap_def
  have 1: "linked_ends numeric_only (tp_base ?a) (tp_base ?b)" by (simp add: defs example_ends_linked)
  have 2: "ni_inv (tp_interface ?a)" "ni_inv (tp_interface ?b)"
    by (simp_all add: defs ni_inv_new[OF inet_address_numeric])
  have 3: "ad_ipv4_numeric (tp_next_hop ?a) = Inr 2" "ad_ipv4_numeric (ni_ip_address (tp_interface ?b)) = Inr 2"
    "om_find (ni_arp_table (tp_interface ?a)) 2 = None" "om_find (ni_waiting_ip (tp_interface ?a)) 2 = None"
    "ni_frames_out (tp_interface ?a) = []" "ni_frames_out (tp_interface ?b) = []"
    by (simp_all add: defs ni_initial_def om_find_def)
  have "buf_str (ts_payload seg2) = [7]" if "same_segment seg2 (ts_new\<lparr>ts_payload := buf_of_string [7]\<rparr>)" for seg2
    using that by (simp add: same_segment_def)
  with tap_delivers[OF 1 example_segment_fits 2 3] show ?thesis by blast
qed

end
