(* ===== verification/IP_Router.thy ===== *)
theory IP_Router
  imports Network_Interface
begin

text \<open>
  The router (\<open>libsponge/router.hh\<close> and \<open>router.cc\<close>): interfaces that keep the datagrams they
  receive until they are fetched, and the router that owns them. In the source \<open>add_route\<close> and
  \<open>route_one_datagram\<close> are stubs: they print or do nothing.
\<close>

subsection \<open>Interfaces with a queue\<close>

record AsyncNetworkInterface =
  as_interface :: NetworkInterface
  as_datagrams_out :: "IPv4Datagram list"

definition as_of_interface :: "NetworkInterface \<Rightarrow> AsyncNetworkInterface" where
  "as_of_interface ni = \<lparr>as_interface = ni, as_datagrams_out = []\<rparr>"

definition as_recv_frame :: "AsyncNetworkInterface \<Rightarrow> EthernetFrame \<Rightarrow> (cpp_error + AsyncNetworkInterface) option" where
  "as_recv_frame ai frame =
     ret_bind (ni_recv_frame (as_interface ai) frame) (\<lambda>(optional_dgram, ni).
       let ai' = ai\<lparr>as_interface := ni\<rparr> in
       Some (Inr (case optional_dgram of
           None \<Rightarrow> ai'
         | Some d \<Rightarrow> ai'\<lparr>as_datagrams_out := as_datagrams_out ai' @ [d]\<rparr>)))"

subsection \<open>The router\<close>

record Router =
  rt_interfaces :: "AsyncNetworkInterface list"

definition rt_add_interface :: "Router \<Rightarrow> AsyncNetworkInterface \<Rightarrow> nat \<times> Router" where
  "rt_add_interface rt ai =
     (let rt' = rt\<lparr>rt_interfaces := rt_interfaces rt @ [ai]\<rparr> in (length (rt_interfaces rt') - 1, rt'))"

definition rt_interface :: "Router \<Rightarrow> nat \<Rightarrow> cpp_error + AsyncNetworkInterface" where
  "rt_interface rt n =
     (if n < length (rt_interfaces rt) then Inr (rt_interfaces rt ! n) else Inl (OutOfRange ''vector::at''))"

text \<open>The line that \<open>add_route\<close> prints is all it does.\<close>

definition rt_add_route :: "Resolver \<Rightarrow> Router \<Rightarrow> 32 word \<Rightarrow> 8 word \<Rightarrow> Address option \<Rightarrow> nat \<Rightarrow> cpp_error + string \<times> Router" where
  "rt_add_route rs rt route_prefix prefix_length next_hop interface_num =
     throw_bind (from_ipv4_numeric route_prefix) (\<lambda>prefix.
     throw_bind (ad_ip rs prefix) (\<lambda>prefix_ip.
     throw_bind (case next_hop of None \<Rightarrow> Inr ''(direct)'' | Some a \<Rightarrow> ad_ip rs a) (\<lambda>hop.
       Inr (''DEBUG: adding route '' @ prefix_ip @ ''/'' @ dec_string (unat prefix_length) @ '' => '' @ hop @
            '' on interface '' @ dec_string interface_num @ newline, rt))))"

definition rt_route_one_datagram :: "Router \<Rightarrow> IPv4Datagram \<Rightarrow> Router" where
  "rt_route_one_datagram rt dgram = rt"

text \<open>The inner loop on the queue of interface \<open>n\<close>, and the loop over the interfaces.\<close>

function rt_drain :: "nat \<Rightarrow> Router \<Rightarrow> Router" where
  "rt_drain n rt =
     (if n < length (rt_interfaces rt) \<and> as_datagrams_out (rt_interfaces rt ! n) \<noteq> [] then
        (let rt1 = rt_route_one_datagram rt (hd (as_datagrams_out (rt_interfaces rt ! n)))
         in rt_drain n (rt1\<lparr>rt_interfaces := (rt_interfaces rt1)[n :=
              (rt_interfaces rt1 ! n)\<lparr>as_datagrams_out := tl (as_datagrams_out (rt_interfaces rt1 ! n))\<rparr>]\<rparr>))
      else rt)"
  by auto
termination
  by (relation "measure (\<lambda>(n, rt). length (as_datagrams_out (rt_interfaces rt ! n)))")
    (auto simp: rt_route_one_datagram_def)

declare rt_drain.simps [simp del]

definition rt_route :: "Router \<Rightarrow> Router" where
  "rt_route rt = fold rt_drain [0..<length (rt_interfaces rt)] rt"

subsection \<open>What routing does\<close>

lemma rt_drain_eq:
  "n < length (rt_interfaces rt) \<Longrightarrow>
   rt_drain n rt = rt\<lparr>rt_interfaces := (rt_interfaces rt)[n := (rt_interfaces rt ! n)\<lparr>as_datagrams_out := []\<rparr>]\<rparr>"
proof (induction n rt rule: rt_drain.induct)
  case (1 n rt)
  show ?case
  proof (cases "as_datagrams_out (rt_interfaces rt ! n) = []")
    case True
    have same: "(rt_interfaces rt ! n)\<lparr>as_datagrams_out := []\<rparr> = rt_interfaces rt ! n"
      using True by (cases "rt_interfaces rt ! n") simp
    show ?thesis unfolding same using True by (simp add: rt_drain.simps[of n rt])
  next
    case False
    then show ?thesis
      using 1 by (simp add: rt_drain.simps[of n rt] rt_route_one_datagram_def Let_def)
  qed
qed

lemma rt_fold_drain:
  "k \<le> length (rt_interfaces rt) \<Longrightarrow>
   fold rt_drain [0..<k] rt = rt\<lparr>rt_interfaces := map (\<lambda>ai. ai\<lparr>as_datagrams_out := []\<rparr>) (take k (rt_interfaces rt)) @
     drop k (rt_interfaces rt)\<rparr>"
proof (induction k)
  case (Suc k)
  let ?is = "rt_interfaces rt"
  have "drop k ?is = ?is ! k # drop (Suc k) ?is" using Suc.prems by (simp add: Cons_nth_drop_Suc)
  with Suc show ?case
    by (simp add: rt_drain_eq nth_append list_update_append take_Suc_conv_app_nth)
qed simp

text \<open>
  The router as it stands forwards nothing: \<open>route\<close> empties the queue of every interface,
  and no frame is sent on any of them; nothing else changes.
\<close>

theorem router_drops_everything:
  "rt_route rt = rt\<lparr>rt_interfaces := map (\<lambda>ai. ai\<lparr>as_datagrams_out := []\<rparr>) (rt_interfaces rt)\<rparr>"
  using rt_fold_drain[of "length (rt_interfaces rt)" rt] by (simp add: rt_route_def)

end
