(* ===== verification/Network_Simulator.thy ===== *)
theory Network_Simulator
  imports IP_Router
begin

text \<open>
  The network simulator (\<open>apps/network_simulator.cc\<close>): a router with seven interfaces and six hosts, the frames
  that are exchanged on the links between them, and the list of deliveries that the program tests. The
  values of the random generator (\<open>rd\<close>, with the number of values taken so far), the resolver of addresses and
  the order in which an \<open>unordered_map\<close> is walked are arguments. What is printed is left out, except for the
  message of the exception that ends the program.
\<close>

subsection \<open>Helpers\<close>

definition random_bytes :: "(nat \<Rightarrow> 32 word) \<Rightarrow> nat \<Rightarrow> EthernetAddress" where
  "random_bytes rd n = EthernetAddress (ucast (rd n)) (ucast (rd (n + 1))) (ucast (rd (n + 2)))
     (ucast (rd (n + 3))) (ucast (rd (n + 4))) (ucast (rd (n + 5)))"

definition random_host_ethernet_address :: "(nat \<Rightarrow> 32 word) \<Rightarrow> nat \<Rightarrow> EthernetAddress \<times> nat" where
  "random_host_ethernet_address rd n =
     (case random_bytes rd n of EthernetAddress a b c d e f \<Rightarrow>
        (EthernetAddress ((a OR 0x02) AND 0xfe) b c d e f, n + 6))"

definition random_router_ethernet_address :: "(nat \<Rightarrow> 32 word) \<Rightarrow> nat \<Rightarrow> EthernetAddress \<times> nat" where
  "random_router_ethernet_address rd n =
     (case random_bytes rd n of EthernetAddress a b c d e f \<Rightarrow> (EthernetAddress 0x02 0 0 d e f, n + 6))"

definition ip_of :: "Resolver \<Rightarrow> string \<Rightarrow> cpp_error + 32 word" where
  "ip_of rs str = throw_bind (ad_of_ip rs str 0) ad_ipv4_numeric"

fun clear_queues :: "'a list \<Rightarrow> 'a list \<Rightarrow> 'a list" where
  "clear_queues [] queue2 = queue2"
| "clear_queues (x # queue1) queue2 = clear_queues queue1 (tl queue2)"

definition string_of_bytes :: "bytes \<Rightarrow> string" where
  "string_of_bytes bs = map (\<lambda>b. char_of (unat b)) bs"

definition bytes_of_string :: "string \<Rightarrow> bytes" where
  "bytes_of_string s = map (\<lambda>c. word_of_nat (of_char c)) s"

definition dgram_text :: "IPv4Datagram \<Rightarrow> string" where
  "dgram_text d = ih_summary (id_header d) @ '' payload=\"'' @ string_of_bytes (bl_concatenate (id_payload d)) @ ''\"''"

definition frame_summary :: "EthernetFrame \<Rightarrow> cpp_error + string" where
  "frame_summary frame =
     (let ret = eh_to_string (ef_header frame) in
      if eh_type (ef_header frame) = TYPE_IPv4 then
        throw_bind (bl_to_buffer (ef_payload frame)) (\<lambda>payload.
          let (res, dgram) = id_parse id_new payload in
          Inr (ret @ (if res = NoError then '' '' @ dgram_text dgram else '' (bad IPv4)'')))
      else if eh_type (ef_header frame) = TYPE_ARP then
        throw_bind (bl_to_buffer (ef_payload frame)) (\<lambda>payload.
          let (res, arp) = am_parse am_new payload in
          Inr (ret @ (if res = NoError then '' '' @ am_to_string arp else '' (bad ARP)'')))
      else Inr ret)"

subsection \<open>Hosts\<close>

record Host =
  ho_name :: string
  ho_my_address :: Address
  ho_interface :: AsyncNetworkInterface
  ho_next_hop :: Address
  ho_expecting_to_receive :: "IPv4Datagram list"

definition same_dgram :: "IPv4Datagram \<Rightarrow> IPv4Datagram \<Rightarrow> cpp_error + bool" where
  "same_dgram x expected =
     throw_bind (id_serialize x) (\<lambda>a. throw_bind (id_serialize expected) (\<lambda>b.
       Inr (bl_concatenate a = bl_concatenate b)))"

fun ho_expecting :: "IPv4Datagram list \<Rightarrow> IPv4Datagram \<Rightarrow> cpp_error + bool" where
  "ho_expecting [] expected = Inr False"
| "ho_expecting (x # xs) expected =
     throw_bind (same_dgram x expected) (\<lambda>same. if same then Inr True else ho_expecting xs expected)"

fun ho_remove_expectation :: "IPv4Datagram list \<Rightarrow> IPv4Datagram \<Rightarrow> cpp_error + IPv4Datagram list" where
  "ho_remove_expectation [] expected = Inr []"
| "ho_remove_expectation (x # xs) expected =
     throw_bind (same_dgram x expected) (\<lambda>same.
       if same then Inr xs else throw_bind (ho_remove_expectation xs expected) (\<lambda>ys. Inr (x # ys)))"

definition ho_new :: "Resolver \<Rightarrow> (nat \<Rightarrow> 32 word) \<Rightarrow> nat \<Rightarrow> string \<Rightarrow> Address \<Rightarrow> Address \<Rightarrow> cpp_error + Host \<times> nat" where
  "ho_new rs rd n name my_address next_hop =
     (let (eth, n') = random_host_ethernet_address rd n in
      throw_bind (ni_new rs eth my_address) (\<lambda>ni.
      Inr (\<lparr>ho_name = name, ho_my_address = my_address, ho_interface = as_of_interface ni,
        ho_next_hop = next_hop, ho_expecting_to_receive = []\<rparr>, n')))"

definition ho_set_interface :: "AsyncNetworkInterface \<Rightarrow> Host \<Rightarrow> Host" where
  "ho_set_interface ai h = h\<lparr>ho_interface := ai\<rparr>"

definition make_dgram :: "32 word \<Rightarrow> 32 word \<Rightarrow> 8 word \<Rightarrow> 32 word \<Rightarrow> IPv4Datagram" where
  "make_dgram src dst ttl r =
     (let payload = bl_of_string (bytes_of_string (''random payload: {'' @ dec_string (unat r) @ ''}'')) in
      \<lparr>id_header = ih_new\<lparr>ih_src := src, ih_dst := dst,
         ih_len := ucast (ih_hlen ih_new) * 4 + word_of_nat (bl_size payload), ih_ttl := ttl\<rparr>, id_payload = payload\<rparr>)"

definition ho_send_to :: "Resolver \<Rightarrow> (nat \<Rightarrow> 32 word) \<Rightarrow> nat \<Rightarrow> Host \<Rightarrow> Address \<Rightarrow> 8 word \<Rightarrow>
    cpp_error + IPv4Datagram \<times> Host \<times> nat" where
  "ho_send_to rs rd n h destination ttl =
     throw_bind (ad_ipv4_numeric (ho_my_address h)) (\<lambda>src.
     throw_bind (ad_ipv4_numeric destination) (\<lambda>dst.
       let dgram = make_dgram src dst ttl (rd n) in
       throw_bind (ni_send_datagram (as_interface (ho_interface h)) dgram (ho_next_hop h)) (\<lambda>ni.
       throw_bind (ad_ip rs (ho_next_hop h)) (\<lambda>hop.
         Inr (dgram, ho_set_interface ((ho_interface h)\<lparr>as_interface := ni\<rparr>) h, n + 1)))))"

definition ho_expect :: "Host \<Rightarrow> IPv4Datagram \<Rightarrow> Host" where
  "ho_expect h expected = h\<lparr>ho_expecting_to_receive := ho_expecting_to_receive h @ [expected]\<rparr>"

fun ho_check_received :: "string \<Rightarrow> IPv4Datagram list \<Rightarrow> IPv4Datagram list \<Rightarrow> cpp_error + IPv4Datagram list" where
  "ho_check_received name [] expected = Inr expected"
| "ho_check_received name (dgram_received # dgrams) expected =
     throw_bind (ho_expecting expected dgram_received) (\<lambda>found.
       if \<not> found then
         Inl (RuntimeError (''Host '' @ name @ '' received unexpected Internet datagram: '' @ dgram_text dgram_received))
       else throw_bind (ho_remove_expectation expected dgram_received) (ho_check_received name dgrams))"

definition ho_check :: "Host \<Rightarrow> cpp_error + Host" where
  "ho_check h =
     throw_bind (ho_check_received (ho_name h) (as_datagrams_out (ho_interface h)) (ho_expecting_to_receive h)) (\<lambda>left.
       case left of
         [] \<Rightarrow> Inr (h\<lparr>ho_interface := (ho_interface h)\<lparr>as_datagrams_out := []\<rparr>, ho_expecting_to_receive := []\<rparr>)
       | expected # _ \<Rightarrow> Inl (RuntimeError (''Host '' @ ho_name h @ '' did NOT receive an expected Internet datagram: '' @
           dgram_text expected)))"

subsection \<open>Links\<close>

definition flat_frame :: "EthernetFrame \<Rightarrow> EthernetFrame" where
  "flat_frame f = f\<lparr>ef_payload := bl_of_string (bl_concatenate (ef_payload f))\<rparr>"

fun deliver :: "EthernetFrame list \<Rightarrow> AsyncNetworkInterface \<Rightarrow> (cpp_error + AsyncNetworkInterface) option" where
  "deliver [] dst = Some (Inr dst)"
| "deliver (f # to_send) dst =
     ret_bind (Some (frame_summary (flat_frame f))) (\<lambda>_.
     ret_bind (as_recv_frame dst (flat_frame f)) (\<lambda>dst'. deliver to_send dst'))"

abbreviation as_frames_out :: "AsyncNetworkInterface \<Rightarrow> EthernetFrame list" where
  "as_frames_out ai \<equiv> ni_frames_out (as_interface ai)"

definition as_clear :: "EthernetFrame list \<Rightarrow> AsyncNetworkInterface \<Rightarrow> AsyncNetworkInterface" where
  "as_clear frames ai = ai\<lparr>as_interface := (as_interface ai)\<lparr>ni_frames_out := clear_queues frames (as_frames_out ai)\<rparr>\<rparr>"

definition exchange_frames :: "AsyncNetworkInterface \<Rightarrow> AsyncNetworkInterface \<Rightarrow>
    (cpp_error + AsyncNetworkInterface \<times> AsyncNetworkInterface) option" where
  "exchange_frames x y =
     (let x_frames = as_frames_out x; y_frames = as_frames_out y in
      ret_bind (deliver x_frames y) (\<lambda>y1.
      ret_bind (deliver y_frames x) (\<lambda>x1.
        Some (Inr (as_clear x_frames x1, as_clear y_frames y1)))))"

definition exchange_frames3 :: "AsyncNetworkInterface \<Rightarrow> AsyncNetworkInterface \<Rightarrow> AsyncNetworkInterface \<Rightarrow>
    (cpp_error + AsyncNetworkInterface \<times> AsyncNetworkInterface \<times> AsyncNetworkInterface) option" where
  "exchange_frames3 x y z =
     (let x_frames = as_frames_out x; y_frames = as_frames_out y; z_frames = as_frames_out z in
      ret_bind (deliver x_frames y) (\<lambda>y1.
      ret_bind (deliver x_frames z) (\<lambda>z1.
      ret_bind (deliver y_frames x) (\<lambda>x1.
      ret_bind (deliver y_frames z1) (\<lambda>z2.
      ret_bind (deliver z_frames x1) (\<lambda>x2.
      ret_bind (deliver z_frames y1) (\<lambda>y2.
        Some (Inr (as_clear x_frames x2, as_clear y_frames y2, as_clear z_frames z2)))))))))"

subsection \<open>The network\<close>

record Network =
  nw_router :: Router
  nw_default_id :: nat
  nw_eth0_id :: nat
  nw_eth1_id :: nat
  nw_eth2_id :: nat
  nw_uun3_id :: nat
  nw_hs4_id :: nat
  nw_mit5_id :: nat
  nw_hosts :: "(string \<times> Host) list"

definition nw_host :: "Network \<Rightarrow> string \<Rightarrow> cpp_error + Host" where
  "nw_host nw name =
     (case map_of (nw_hosts nw) name of
        None \<Rightarrow> Inl (RuntimeError (''unknown host: '' @ name))
      | Some h \<Rightarrow> if ho_name h \<noteq> name then Inl (RuntimeError (''invalid host: '' @ name)) else Inr h)"

definition nw_set_host :: "string \<Rightarrow> Host \<Rightarrow> Network \<Rightarrow> Network" where
  "nw_set_host name h nw = nw\<lparr>nw_hosts := map (\<lambda>(k, v). (k, if k = name then h else v)) (nw_hosts nw)\<rparr>"

definition nw_set_interface :: "nat \<Rightarrow> AsyncNetworkInterface \<Rightarrow> Network \<Rightarrow> Network" where
  "nw_set_interface i ai nw = nw\<lparr>nw_router := (nw_router nw)\<lparr>rt_interfaces := (rt_interfaces (nw_router nw))[i := ai]\<rparr>\<rparr>"

text \<open>A link between an interface of the router and one host or two: the calls of \<open>exchange_frames\<close>, on
  references to the interfaces.\<close>

definition nw_link :: "nat \<Rightarrow> string \<Rightarrow> Network \<Rightarrow> (cpp_error + Network) option" where
  "nw_link i name nw =
     ret_bind (Some (rt_interface (nw_router nw) i)) (\<lambda>x.
     ret_bind (Some (nw_host nw name)) (\<lambda>h.
     ret_bind (exchange_frames x (ho_interface h)) (\<lambda>(x', y').
       Some (Inr (nw_set_host name (ho_set_interface y' h) (nw_set_interface i x' nw))))))"

definition nw_link3 :: "nat \<Rightarrow> string \<Rightarrow> string \<Rightarrow> Network \<Rightarrow> (cpp_error + Network) option" where
  "nw_link3 i name name2 nw =
     ret_bind (Some (rt_interface (nw_router nw) i)) (\<lambda>x.
     ret_bind (Some (nw_host nw name)) (\<lambda>h.
     ret_bind (Some (nw_host nw name2)) (\<lambda>h2.
     ret_bind (exchange_frames3 x (ho_interface h) (ho_interface h2)) (\<lambda>(x', y', z').
       Some (Inr (nw_set_host name2 (ho_set_interface z' h2) (nw_set_host name (ho_set_interface y' h)
         (nw_set_interface i x' nw))))))))"

definition simulate_physical_connections :: "Network \<Rightarrow> (cpp_error + Network) option" where
  "simulate_physical_connections nw =
     ret_bind (nw_link (nw_default_id nw) ''default_router'' nw) (\<lambda>nw1.
     ret_bind (nw_link (nw_eth0_id nw1) ''applesauce'' nw1) (\<lambda>nw2.
     ret_bind (nw_link (nw_eth2_id nw2) ''cherrypie'' nw2) (\<lambda>nw3.
     ret_bind (nw_link (nw_hs4_id nw3) ''hs_router'' nw3) (\<lambda>nw4.
       nw_link3 (nw_uun3_id nw4) ''dm42'' ''dm43'' nw4))))"

fun simulate_rounds :: "nat \<Rightarrow> Network \<Rightarrow> (cpp_error + Network) option" where
  "simulate_rounds 0 nw = Some (Inr nw)"
| "simulate_rounds (Suc i) nw =
     ret_bind (simulate_physical_connections (nw\<lparr>nw_router := rt_route (nw_router nw)\<rparr>)) (simulate_rounds i)"

fun check_hosts :: "string list \<Rightarrow> Network \<Rightarrow> cpp_error + Network" where
  "check_hosts [] nw = Inr nw"
| "check_hosts (name # names) nw =
     (case map_of (nw_hosts nw) name of
        None \<Rightarrow> check_hosts names nw
      | Some h \<Rightarrow> throw_bind (ho_check h) (\<lambda>h'. check_hosts names (nw_set_host name h' nw)))"

definition simulate :: "(string list \<Rightarrow> string list) \<Rightarrow> Network \<Rightarrow> (cpp_error + Network) option" where
  "simulate order nw =
     ret_bind (simulate_rounds 256 nw) (\<lambda>nw'. Some (check_hosts (order (map fst (nw_hosts nw'))) nw'))"

subsection \<open>Construction\<close>

definition add_interface :: "Resolver \<Rightarrow> (nat \<Rightarrow> 32 word) \<Rightarrow> string \<Rightarrow> Router \<times> nat \<Rightarrow> cpp_error + nat \<times> Router \<times> nat" where
  "add_interface rs rd str = (\<lambda>(rt, n).
     let (eth, n') = random_router_ethernet_address rd n in
     throw_bind (ad_of_ip rs str 0) (\<lambda>a.
     throw_bind (ni_new rs eth a) (\<lambda>ni.
       let (id, rt') = rt_add_interface rt (as_of_interface ni) in Inr (id, rt', n'))))"

fun insert_hosts :: "Resolver \<Rightarrow> (nat \<Rightarrow> 32 word) \<Rightarrow> nat \<Rightarrow> (string \<times> string \<times> string) list \<Rightarrow> (string \<times> Host) list \<Rightarrow>
    cpp_error + (string \<times> Host) list \<times> nat" where
  "insert_hosts rs rd n [] hosts = Inr (hosts, n)"
| "insert_hosts rs rd n ((name, my, hop) # rest) hosts =
     throw_bind (ad_of_ip rs my 0) (\<lambda>my_address. throw_bind (ad_of_ip rs hop 0) (\<lambda>next_hop.
     throw_bind (ho_new rs rd n name my_address next_hop) (\<lambda>(h, n').
       insert_hosts rs rd n' rest (if map_of hosts name = None then hosts @ [(name, h)] else hosts))))"

datatype place = HostNamed string | Numeric string

fun place_address :: "Resolver \<Rightarrow> Network \<Rightarrow> place \<Rightarrow> cpp_error + Address" where
  "place_address rs nw (HostNamed name) = throw_bind (nw_host nw name) (\<lambda>h. Inr (ho_my_address h))"
| "place_address rs nw (Numeric str) = ad_of_ip rs str 0"

definition add_route :: "Resolver \<Rightarrow> string \<Rightarrow> 8 word \<Rightarrow> place option \<Rightarrow> nat \<Rightarrow> Network \<Rightarrow> cpp_error + Network" where
  "add_route rs prefix len hop i nw =
     throw_bind (ip_of rs prefix) (\<lambda>route_prefix.
     throw_bind (case hop of None \<Rightarrow> Inr None | Some p \<Rightarrow> throw_bind (place_address rs nw p) (\<lambda>a. Inr (Some a))) (\<lambda>next_hop.
     throw_bind (rt_add_route rs (nw_router nw) route_prefix len next_hop i) (\<lambda>(out, rt).
       Inr (nw\<lparr>nw_router := rt\<rparr>))))"

fun add_routes :: "Resolver \<Rightarrow> (string \<times> 8 word \<times> place option \<times> nat) list \<Rightarrow> Network \<Rightarrow> cpp_error + Network" where
  "add_routes rs [] nw = Inr nw"
| "add_routes rs ((prefix, len, hop, i) # routes) nw = throw_bind (add_route rs prefix len hop i nw) (add_routes rs routes)"

definition host_table :: "(string \<times> string \<times> string) list" where
  "host_table =
     [(''applesauce'', ''10.0.0.2'', ''10.0.0.1''),
      (''default_router'', ''171.67.76.1'', ''0''),
      (''cherrypie'', ''192.168.0.2'', ''192.168.0.1''),
      (''hs_router'', ''143.195.0.1'', ''0''),
      (''dm42'', ''198.178.229.42'', ''198.178.229.1''),
      (''dm43'', ''198.178.229.43'', ''198.178.229.1'')]"

definition route_table :: "Network \<Rightarrow> (string \<times> 8 word \<times> place option \<times> nat) list" where
  "route_table nw =
     [(''0.0.0.0'', 0, Some (HostNamed ''default_router''), nw_default_id nw),
      (''10.0.0.0'', 8, None, nw_eth0_id nw),
      (''172.16.0.0'', 16, None, nw_eth1_id nw),
      (''192.168.0.0'', 24, None, nw_eth2_id nw),
      (''198.178.229.0'', 24, None, nw_uun3_id nw),
      (''143.195.0.0'', 17, Some (HostNamed ''hs_router''), nw_hs4_id nw),
      (''143.195.128.0'', 18, Some (HostNamed ''hs_router''), nw_hs4_id nw),
      (''143.195.192.0'', 19, Some (HostNamed ''hs_router''), nw_hs4_id nw),
      (''128.30.76.255'', 16, Some (Numeric ''128.30.0.1''), nw_mit5_id nw)]"

definition nw_new :: "Resolver \<Rightarrow> (nat \<Rightarrow> 32 word) \<Rightarrow> nat \<Rightarrow> cpp_error + Network \<times> nat" where
  "nw_new rs rd n =
     throw_bind (add_interface rs rd ''171.67.76.46'' (\<lparr>rt_interfaces = []\<rparr>, n)) (\<lambda>(default_id, s1).
     throw_bind (add_interface rs rd ''10.0.0.1'' s1) (\<lambda>(eth0_id, s2).
     throw_bind (add_interface rs rd ''172.16.0.1'' s2) (\<lambda>(eth1_id, s3).
     throw_bind (add_interface rs rd ''192.168.0.1'' s3) (\<lambda>(eth2_id, s4).
     throw_bind (add_interface rs rd ''198.178.229.1'' s4) (\<lambda>(uun3_id, s5).
     throw_bind (add_interface rs rd ''143.195.0.2'' s5) (\<lambda>(hs4_id, s6).
     throw_bind (add_interface rs rd ''128.30.76.255'' s6) (\<lambda>(mit5_id, rt, n1).
     throw_bind (insert_hosts rs rd n1 host_table []) (\<lambda>(hosts, n2).
       let nw = \<lparr>nw_router = rt, nw_default_id = default_id, nw_eth0_id = eth0_id, nw_eth1_id = eth1_id,
                 nw_eth2_id = eth2_id, nw_uun3_id = uun3_id, nw_hs4_id = hs4_id, nw_mit5_id = mit5_id, nw_hosts = hosts\<rparr>
       in throw_bind (add_routes rs (route_table nw) nw) (\<lambda>nw'. Inr (nw', n2))))))))))"

subsection \<open>The program\<close>

text \<open>A test sends a datagram from a host; where a receiver is given, it must receive it with its TTL decremented.\<close>

record sim_test =
  st_from :: string
  st_destination :: place
  st_ttl :: "8 word"
  st_receiver :: "string option"

definition hop_decremented :: "IPv4Datagram \<Rightarrow> IPv4Datagram" where
  "hop_decremented d = d\<lparr>id_header := (id_header d)\<lparr>ih_ttl := ih_ttl (id_header d) - 1\<rparr>\<rparr>"

definition sim_send :: "Resolver \<Rightarrow> (nat \<Rightarrow> 32 word) \<Rightarrow> sim_test \<Rightarrow> Network \<times> nat \<Rightarrow> cpp_error + Network \<times> nat" where
  "sim_send rs rd t = (\<lambda>(nw, n).
     throw_bind (place_address rs nw (st_destination t)) (\<lambda>destination.
     throw_bind (nw_host nw (st_from t)) (\<lambda>h.
     throw_bind (ho_send_to rs rd n h destination (st_ttl t)) (\<lambda>(dgram_sent, h', n').
       let nw1 = nw_set_host (st_from t) h' nw in
       case st_receiver t of
         None \<Rightarrow> Inr (nw1, n')
       | Some name \<Rightarrow>
           throw_bind (nw_host nw1 name) (\<lambda>r. Inr (nw_set_host name (ho_expect r (hop_decremented dgram_sent)) nw1, n'))))))"

fun run_tests :: "Resolver \<Rightarrow> (nat \<Rightarrow> 32 word) \<Rightarrow> (string list \<Rightarrow> string list) \<Rightarrow> sim_test list \<Rightarrow> Network \<times> nat \<Rightarrow>
    (cpp_error + Network \<times> nat) option" where
  "run_tests rs rd order [] s = Some (Inr s)"
| "run_tests rs rd order (t # ts) s =
     ret_bind (Some (sim_send rs rd t s)) (\<lambda>(nw, n).
     ret_bind (simulate order nw) (\<lambda>nw'. run_tests rs rd order ts (nw', n)))"

definition simulator_tests :: "sim_test list" where
  "simulator_tests =
     [\<lparr>st_from = ''applesauce'', st_destination = HostNamed ''cherrypie'', st_ttl = 64, st_receiver = Some ''cherrypie''\<rparr>,
      \<lparr>st_from = ''cherrypie'', st_destination = HostNamed ''applesauce'', st_ttl = 64, st_receiver = Some ''applesauce''\<rparr>,
      \<lparr>st_from = ''applesauce'', st_destination = Numeric ''1.2.3.4'', st_ttl = 64, st_receiver = Some ''default_router''\<rparr>,
      \<lparr>st_from = ''applesauce'', st_destination = Numeric ''143.195.131.17'', st_ttl = 64, st_receiver = Some ''hs_router''\<rparr>,
      \<lparr>st_from = ''cherrypie'', st_destination = Numeric ''143.195.193.52'', st_ttl = 64, st_receiver = Some ''hs_router''\<rparr>,
      \<lparr>st_from = ''cherrypie'', st_destination = Numeric ''143.195.223.255'', st_ttl = 64, st_receiver = Some ''hs_router''\<rparr>,
      \<lparr>st_from = ''cherrypie'', st_destination = Numeric ''143.195.224.0'', st_ttl = 64, st_receiver = Some ''default_router''\<rparr>,
      \<lparr>st_from = ''dm42'', st_destination = HostNamed ''dm43'', st_ttl = 64, st_receiver = Some ''dm43''\<rparr>,
      \<lparr>st_from = ''applesauce'', st_destination = Numeric ''1.2.3.4'', st_ttl = 1, st_receiver = None\<rparr>,
      \<lparr>st_from = ''applesauce'', st_destination = Numeric ''1.2.3.4'', st_ttl = 0, st_receiver = None\<rparr>]"

definition network_simulator :: "Resolver \<Rightarrow> (nat \<Rightarrow> 32 word) \<Rightarrow> (string list \<Rightarrow> string list) \<Rightarrow>
    (cpp_error + Network \<times> nat) option" where
  "network_simulator rs rd order = ret_bind (Some (nw_new rs rd 0)) (run_tests rs rd order simulator_tests)"

text \<open>The exit status of the program and the exception it reports.\<close>

definition simulator_main :: "Resolver \<Rightarrow> (nat \<Rightarrow> 32 word) \<Rightarrow> (string list \<Rightarrow> string list) \<Rightarrow> (nat \<times> cpp_error option) option" where
  "simulator_main rs rd order =
     (case network_simulator rs rd order of
        None \<Rightarrow> None
      | Some (Inl e) \<Rightarrow> Some (1, Some e)
      | Some (Inr _) \<Rightarrow> Some (0, None))"

subsection \<open>Links keep quiet\<close>

text \<open>An interface with nothing waiting that has sent only ARP messages, and one that has received no datagram.\<close>

definition calm :: "AsyncNetworkInterface \<Rightarrow> bool" where
  "calm ai \<longleftrightarrow> ni_inv (as_interface ai) \<and> ni_waiting_datagrams (as_interface ai) = [] \<and>
     (\<forall>f \<in> set (as_frames_out ai). eh_type (ef_header f) = TYPE_ARP)"

definition silent :: "AsyncNetworkInterface \<Rightarrow> bool" where
  "silent ai \<longleftrightarrow> ni_inv (as_interface ai) \<and> as_datagrams_out ai = []"

lemma ni_recv_cases:
  assumes "ni_inv ni" "length (ef_payload f) \<le> 1"
  shows "\<exists>d ni'. ni_recv_frame ni f = Some (Inr (d, ni')) \<and> (ni' = ni \<or> (\<exists>own m. ni' = ni_after_arp ni own m)) \<and>
    (eh_type (ef_header f) = TYPE_ARP \<longrightarrow> d = None)"
proof -
  obtain own where own: "ad_ipv4_numeric (ni_ip_address ni) = Inr own" using assms(1) by (auto simp: ni_inv_def)
  obtain b where b: "bl_to_buffer (ef_payload f) = Inr b"
    using assms(2) by (cases "ef_payload f") (auto simp: bl_to_buffer_def)
  have types: "TYPE_ARP \<noteq> TYPE_IPv4" by (simp add: TYPE_ARP_def TYPE_IPv4_def)
  obtain r1 d where d: "id_parse id_new b = (r1, d)" by fastforce
  obtain r2 m where m: "am_parse am_new b = (r2, m)" by fastforce
  obtain ni' where ni': "ni_handle_arp ni m = Some (Inr ni')"
    and arp: "ni' = ni \<or> (\<exists>own m. ni' = ni_after_arp ni own m)"
    using ni_handle_arp_eq[OF assms(1) own, of m] by (cases "arp_concerns ni own m") (simp_all, blast)
  show ?thesis
    using types arp by (simp add: ni_recv_frame_def Let_def b d m ni')
qed

lemma calm_after_arp:
  assumes "ni_waiting_datagrams ni = []" "\<forall>f \<in> set (ni_frames_out ni). eh_type (ef_header f) = TYPE_ARP"
  shows "ni_waiting_datagrams (ni_after_arp ni own m) = []"
    and "\<forall>f \<in> set (ni_frames_out (ni_after_arp ni own m)). eh_type (ef_header f) = TYPE_ARP"
  using assms by (auto simp: ni_after_arp_def released_def arp_frame_def Let_def)

lemma as_recv_quiet:
  assumes "ni_inv (as_interface ai)"
  shows "\<exists>ai'. as_recv_frame ai (flat_frame f) = Some (Inr ai') \<and> ni_inv (as_interface ai') \<and> (calm ai \<longrightarrow> calm ai') \<and>
    (eh_type (ef_header f) = TYPE_ARP \<longrightarrow> as_datagrams_out ai' = as_datagrams_out ai)"
proof -
  have len: "length (ef_payload (flat_frame f)) \<le> 1" by (simp add: flat_frame_def bl_of_string_def)
  have type: "eh_type (ef_header (flat_frame f)) = eh_type (ef_header f)" by (simp add: flat_frame_def)
  obtain d ni' where r: "ni_recv_frame (as_interface ai) (flat_frame f) = Some (Inr (d, ni'))"
    and ni': "ni' = as_interface ai \<or> (\<exists>own m. ni' = ni_after_arp (as_interface ai) own m)"
    and none: "eh_type (ef_header f) = TYPE_ARP \<longrightarrow> d = None"
    using ni_recv_cases[OF assms len] unfolding type by blast
  from ni' assms have inv: "ni_inv ni'" using ni_inv_after_arp by blast
  have calm: "ni_waiting_datagrams ni' = [] \<and> (\<forall>f \<in> set (ni_frames_out ni'). eh_type (ef_header f) = TYPE_ARP)"
    if "calm ai"
    using ni' calm_after_arp[of "as_interface ai"] that unfolding calm_def by blast
  show ?thesis
    using inv none calm by (cases d) (simp_all add: as_recv_frame_def r calm_def)
qed

lemma frame_summary_flat: "\<exists>s. frame_summary (flat_frame f) = Inr s"
  by (simp add: frame_summary_def flat_frame_def bl_of_string_def bl_to_buffer_def Let_def case_prod_beta)

lemma deliver_quiet:
  "ni_inv (as_interface ai) \<Longrightarrow> \<exists>ai'. deliver fs ai = Some (Inr ai') \<and> ni_inv (as_interface ai') \<and> (calm ai \<longrightarrow> calm ai') \<and>
    ((\<forall>f \<in> set fs. eh_type (ef_header f) = TYPE_ARP) \<longrightarrow> as_datagrams_out ai' = as_datagrams_out ai)"
proof (induction fs arbitrary: ai)
  case (Cons f fs)
  obtain s where s: "frame_summary (flat_frame f) = Inr s" using frame_summary_flat by blast
  obtain ai1 where ai1: "as_recv_frame ai (flat_frame f) = Some (Inr ai1)" "ni_inv (as_interface ai1)" "calm ai \<longrightarrow> calm ai1"
    "eh_type (ef_header f) = TYPE_ARP \<longrightarrow> as_datagrams_out ai1 = as_datagrams_out ai"
    using as_recv_quiet[OF Cons.prems, of f] by blast
  show ?case using Cons.IH[OF ai1(2)] ai1 s by auto
qed simp

lemma clear_queues_drop [simp]: "clear_queues q1 q2 = drop (length q1) q2"
  by (induction q1 q2 rule: clear_queues.induct) (simp_all add: drop_Suc)

lemma as_clear_quiet [simp]:
  "ni_inv (as_interface (as_clear fs ai)) = ni_inv (as_interface ai)" "as_datagrams_out (as_clear fs ai) = as_datagrams_out ai"
  "silent (as_clear fs ai) = silent ai" "calm ai \<Longrightarrow> calm (as_clear fs ai)"
  by (auto simp: as_clear_def calm_def silent_def ni_inv_def dest: in_set_dropD)

lemma exchange_quiet:
  assumes "calm x" "silent y"
  shows "\<exists>x' y'. exchange_frames x y = Some (Inr (x', y')) \<and> calm x' \<and> silent y' \<and> (calm y \<longrightarrow> calm y')"
proof -
  obtain y1 where "deliver (as_frames_out x) y = Some (Inr y1)" "silent y1" "calm y \<longrightarrow> calm y1"
    using deliver_quiet[of y "as_frames_out x"] assms by (auto simp: calm_def silent_def)
  moreover obtain x1 where "deliver (as_frames_out y) x = Some (Inr x1)" "calm x1"
    using deliver_quiet[of x "as_frames_out y"] assms(1) by (auto simp: calm_def)
  ultimately show ?thesis by (auto simp: exchange_frames_def)
qed

lemma deliver_calm:
  assumes "calm a" "calm b"
  shows "\<exists>a'. deliver (as_frames_out b) a = Some (Inr a') \<and> calm a' \<and> (silent a \<longrightarrow> silent a')"
  using deliver_quiet[of a "as_frames_out b"] assms by (auto simp: calm_def silent_def)

lemma exchange3_quiet:
  assumes "calm x" "calm y" "silent y" "calm z" "silent z"
  shows "\<exists>x' y' z'. exchange_frames3 x y z = Some (Inr (x', y', z')) \<and> calm x' \<and>
    calm y' \<and> silent y' \<and> calm z' \<and> silent z'"
proof -
  obtain y1 where y1: "deliver (as_frames_out x) y = Some (Inr y1)" "calm y1" "silent y1"
    using deliver_calm[OF assms(2,1)] assms(3) by blast
  obtain z1 where z1: "deliver (as_frames_out x) z = Some (Inr z1)" "calm z1" "silent z1"
    using deliver_calm[OF assms(4,1)] assms(5) by blast
  obtain x1 where x1: "deliver (as_frames_out y) x = Some (Inr x1)" "calm x1"
    using deliver_calm[OF assms(1,2)] by blast
  obtain z2 where z2: "deliver (as_frames_out y) z1 = Some (Inr z2)" "calm z2" "silent z2"
    using deliver_calm[OF z1(2) assms(2)] z1(3) by blast
  obtain x2 where x2: "deliver (as_frames_out z) x1 = Some (Inr x2)" "calm x2"
    using deliver_calm[OF x1(2) assms(4)] by blast
  obtain y2 where y2: "deliver (as_frames_out z) y1 = Some (Inr y2)" "calm y2" "silent y2"
    using deliver_calm[OF y1(2) assms(4)] y1(3) by blast
  show ?thesis
    using y1 z1 x1 z2 x2 y2 by (simp add: exchange_frames3_def)
qed

subsection \<open>The network keeps quiet\<close>

text \<open>The invariant of the network: the interfaces of the router only answer requests, no host has received a
  datagram, and the two hosts that share a link have sent none.\<close>

definition host_names :: "string list" where
  "host_names = [''applesauce'', ''default_router'', ''cherrypie'', ''hs_router'', ''dm42'', ''dm43'']"

definition host_ok :: "string \<times> Host \<Rightarrow> bool" where
  "host_ok p \<longleftrightarrow> ho_name (snd p) = fst p \<and> silent (ho_interface (snd p)) \<and>
     (fst p = ''dm42'' \<or> fst p = ''dm43'' \<longrightarrow> calm (ho_interface (snd p)))"

definition nw_ok :: "Network \<Rightarrow> bool" where
  "nw_ok nw \<longleftrightarrow> map fst (nw_hosts nw) = host_names \<and> (\<forall>p \<in> set (nw_hosts nw). host_ok p) \<and>
     length (rt_interfaces (nw_router nw)) = 7 \<and> (\<forall>ai \<in> set (rt_interfaces (nw_router nw)). calm ai) \<and>
     nw_default_id nw < 7 \<and> nw_eth0_id nw < 7 \<and> nw_eth2_id nw < 7 \<and> nw_hs4_id nw < 7 \<and> nw_uun3_id nw < 7"

definition expects :: "Network \<Rightarrow> string \<Rightarrow> IPv4Datagram list" where
  "expects nw name = (case map_of (nw_hosts nw) name of None \<Rightarrow> [] | Some h \<Rightarrow> ho_expecting_to_receive h)"

lemma map_of_replace: "map_of (map (\<lambda>(k, v). (k, if k = name then h else v)) xs) k =
  (if k = name then map_option (\<lambda>_. h) (map_of xs k) else map_of xs k)"
  by (induction xs) auto

lemma nw_host_ok:
  assumes "nw_ok nw" "name \<in> set host_names"
  obtains h where "nw_host nw name = Inr h" "map_of (nw_hosts nw) name = Some h" "host_ok (name, h)"
proof -
  have "fst ` set (nw_hosts nw) = set host_names" using assms(1) unfolding nw_ok_def by (metis set_map)
  then obtain h where h: "map_of (nw_hosts nw) name = Some h"
    using assms(2) by (metis map_of_eq_None_iff not_None_eq)
  then have "host_ok (name, h)" using assms(1) map_of_SomeD[OF h] by (simp add: nw_ok_def)
  with h that[of h] show ?thesis by (simp add: nw_host_def host_ok_def)
qed

lemma nw_set_host_ok:
  assumes "nw_ok nw" "host_ok (name, h)"
  shows "nw_ok (nw_set_host name h nw)"
proof -
  have "map fst (nw_hosts (nw_set_host name h nw)) = map fst (nw_hosts nw)"
    by (simp add: nw_set_host_def case_prod_beta comp_def)
  moreover have "\<forall>p \<in> set (nw_hosts (nw_set_host name h nw)). host_ok p"
    using assms by (auto simp: nw_ok_def nw_set_host_def)
  ultimately show ?thesis using assms(1) by (simp add: nw_ok_def) (simp add: nw_set_host_def)
qed

lemma nw_set_interface_ok:
  "nw_ok nw \<Longrightarrow> calm ai \<Longrightarrow> nw_ok (nw_set_interface i ai nw)"
  by (auto simp: nw_ok_def nw_set_interface_def dest: in_set_takeD subsetD[OF set_update_subset_insert])

lemma expects_set_interface [simp]: "expects (nw_set_interface i ai nw) = expects nw"
  by (simp add: expects_def nw_set_interface_def fun_eq_iff)

lemma expects_set_host:
  "map_of (nw_hosts nw) name = Some h0 \<Longrightarrow> expects (nw_set_host name h nw) = (expects nw)(name := ho_expecting_to_receive h)"
  by (auto simp: expects_def nw_set_host_def map_of_replace fun_eq_iff)

lemma expects_same: "map_of (nw_hosts nw) name = Some h \<Longrightarrow>
  expects (nw_set_host name (ho_set_interface ai h) nw) = expects nw"
  by (simp add: expects_set_host ho_set_interface_def fun_eq_iff) (simp add: expects_def)

lemma rt_interface_calm:
  assumes "nw_ok nw" "i < 7"
  obtains x where "rt_interface (nw_router nw) i = Inr x" "calm x"
  using assms by (auto simp: nw_ok_def rt_interface_def)

lemma host_ok_set_interface:
  "host_ok (name, h) \<Longrightarrow> silent ai \<Longrightarrow> calm (ho_interface h) \<longrightarrow> calm ai \<Longrightarrow> host_ok (name, ho_set_interface ai h)"
  by (auto simp: host_ok_def ho_set_interface_def)

lemma nw_link_ok:
  assumes "nw_ok nw" "i < 7" "name \<in> set host_names"
  shows "\<exists>nw'. nw_link i name nw = Some (Inr nw') \<and> nw_ok nw' \<and> expects nw' = expects nw"
proof -
  obtain x where x: "rt_interface (nw_router nw) i = Inr x" "calm x" using rt_interface_calm[OF assms(1,2)] .
  obtain h where h: "nw_host nw name = Inr h" "map_of (nw_hosts nw) name = Some h" "host_ok (name, h)"
    using nw_host_ok[OF assms(1,3)] .
  then have "silent (ho_interface h)" by (simp add: host_ok_def)
  then obtain x' y' where e: "exchange_frames x (ho_interface h) = Some (Inr (x', y'))" "calm x'" "silent y'"
    "calm (ho_interface h) \<longrightarrow> calm y'"
    using exchange_quiet[OF x(2)] by blast
  let ?nw = "nw_set_interface i x' nw"
  have "map_of (nw_hosts ?nw) name = Some h" using h(2) by (simp add: nw_set_interface_def)
  then have "expects (nw_set_host name (ho_set_interface y' h) ?nw) = expects nw" by (simp add: expects_same)
  moreover have "nw_ok (nw_set_host name (ho_set_interface y' h) ?nw)"
    by (intro nw_set_host_ok nw_set_interface_ok host_ok_set_interface assms(1) e h(3))
  ultimately show ?thesis using x(1) h(1) e(1) by (simp add: nw_link_def)
qed

lemma nw_link3_ok:
  assumes "nw_ok nw" "i < 7"
  shows "\<exists>nw'. nw_link3 i ''dm42'' ''dm43'' nw = Some (Inr nw') \<and> nw_ok nw' \<and> expects nw' = expects nw"
proof -
  obtain x where x: "rt_interface (nw_router nw) i = Inr x" "calm x" using rt_interface_calm[OF assms] .
  obtain h where h: "nw_host nw ''dm42'' = Inr h" "map_of (nw_hosts nw) ''dm42'' = Some h" "host_ok (''dm42'', h)"
    by (rule nw_host_ok[OF assms(1), of "''dm42''"]) (simp_all add: host_names_def)
  obtain h2 where h2: "nw_host nw ''dm43'' = Inr h2" "map_of (nw_hosts nw) ''dm43'' = Some h2" "host_ok (''dm43'', h2)"
    by (rule nw_host_ok[OF assms(1), of "''dm43''"]) (simp_all add: host_names_def)
  have "calm (ho_interface h)" "silent (ho_interface h)" "calm (ho_interface h2)" "silent (ho_interface h2)"
    using h(3) h2(3) by (simp_all add: host_ok_def)
  then obtain x' y' z' where e: "exchange_frames3 x (ho_interface h) (ho_interface h2) = Some (Inr (x', y', z'))"
    "calm x'" "calm y'" "silent y'" "calm z'" "silent z'"
    using exchange3_quiet[OF x(2)] by metis
  let ?nw1 = "nw_set_interface i x' nw"
  let ?nw2 = "nw_set_host ''dm42'' (ho_set_interface y' h) ?nw1"
  let ?nw3 = "nw_set_host ''dm43'' (ho_set_interface z' h2) ?nw2"
  have "map_of (nw_hosts ?nw1) ''dm42'' = Some h" using h(2) by (simp add: nw_set_interface_def)
  moreover have "map_of (nw_hosts ?nw2) ''dm43'' = Some h2"
    using h2(2) by (simp add: nw_set_interface_def nw_set_host_def map_of_replace)
  ultimately have "expects ?nw3 = expects nw" by (simp add: expects_same)
  moreover have "nw_ok ?nw3"
    by (intro nw_set_host_ok nw_set_interface_ok host_ok_set_interface assms(1) e h(3) h2(3)) (use e in simp_all)
  ultimately show ?thesis using x(1) h(1) h2(1) e(1) by (simp add: nw_link3_def)
qed

lemma physical_ok:
  assumes "nw_ok nw"
  shows "\<exists>nw'. simulate_physical_connections nw = Some (Inr nw') \<and> nw_ok nw' \<and> expects nw' = expects nw"
proof -
  have ids: "nw_default_id nw < 7" "nw_eth0_id nw < 7" "nw_eth2_id nw < 7" "nw_hs4_id nw < 7" "nw_uun3_id nw < 7"
    if "nw_ok nw" for nw
    using that by (simp_all add: nw_ok_def)
  obtain nw1 where 1: "nw_link (nw_default_id nw) ''default_router'' nw = Some (Inr nw1)" "nw_ok nw1" "expects nw1 = expects nw"
    using nw_link_ok[OF assms ids(1)[OF assms], of "''default_router''"] by (auto simp: host_names_def)
  obtain nw2 where 2: "nw_link (nw_eth0_id nw1) ''applesauce'' nw1 = Some (Inr nw2)" "nw_ok nw2" "expects nw2 = expects nw1"
    using nw_link_ok[OF 1(2) ids(2)[OF 1(2)], of "''applesauce''"] by (auto simp: host_names_def)
  obtain nw3 where 3: "nw_link (nw_eth2_id nw2) ''cherrypie'' nw2 = Some (Inr nw3)" "nw_ok nw3" "expects nw3 = expects nw2"
    using nw_link_ok[OF 2(2) ids(3)[OF 2(2)], of "''cherrypie''"] by (auto simp: host_names_def)
  obtain nw4 where 4: "nw_link (nw_hs4_id nw3) ''hs_router'' nw3 = Some (Inr nw4)" "nw_ok nw4" "expects nw4 = expects nw3"
    using nw_link_ok[OF 3(2) ids(4)[OF 3(2)], of "''hs_router''"] by (auto simp: host_names_def)
  show ?thesis
    using nw_link3_ok[OF 4(2) ids(5)[OF 4(2)]] 1 2 3 4 by (simp add: simulate_physical_connections_def)
qed

lemma route_ok:
  assumes "nw_ok nw"
  shows "nw_ok (nw\<lparr>nw_router := rt_route (nw_router nw)\<rparr>)"
proof -
  have "calm (ai\<lparr>as_datagrams_out := []\<rparr>) = calm ai" for ai by (simp add: calm_def)
  then show ?thesis using assms by (auto simp: nw_ok_def router_drops_everything)
qed

lemma rounds_ok:
  "nw_ok nw \<Longrightarrow> \<exists>nw'. simulate_rounds i nw = Some (Inr nw') \<and> nw_ok nw' \<and> expects nw' = expects nw"
proof (induction i arbitrary: nw)
  case (Suc i)
  have "expects (nw\<lparr>nw_router := rt_route (nw_router nw)\<rparr>) = expects nw" by (simp add: expects_def fun_eq_iff)
  with physical_ok[OF route_ok[OF Suc.prems]] obtain nw1 where
    1: "simulate_physical_connections (nw\<lparr>nw_router := rt_route (nw_router nw)\<rparr>) = Some (Inr nw1)"
    "nw_ok nw1" "expects nw1 = expects nw" by auto
  show ?case using Suc.IH[OF 1(2)] 1 by simp
qed simp

abbreviation not_received :: "string \<Rightarrow> IPv4Datagram \<Rightarrow> cpp_error" where
  "not_received name d \<equiv>
     RuntimeError (''Host '' @ name @ '' did NOT receive an expected Internet datagram: '' @ dgram_text d)"

lemma check_silent:
  assumes "host_ok (name, h)"
  shows "ho_check h = (case ho_expecting_to_receive h of [] \<Rightarrow> Inr h | d # _ \<Rightarrow> Inl (not_received name d))"
proof -
  have "as_datagrams_out (ho_interface h) = []" "ho_name h = name" using assms by (simp_all add: host_ok_def silent_def)
  then show ?thesis by (cases "ho_expecting_to_receive h") (simp_all add: ho_check_def)
qed

lemma nw_set_host_same:
  assumes "nw_ok nw" "map_of (nw_hosts nw) name = Some h"
  shows "nw_set_host name h nw = nw"
proof -
  have "distinct (map fst (nw_hosts nw))" using assms(1) by (simp add: nw_ok_def host_names_def)
  then have "\<forall>p \<in> set (nw_hosts nw). fst p = name \<longrightarrow> snd p = h"
    using assms(2) by (metis eq_key_imp_eq_value map_of_SomeD prod.collapse)
  then have "map (\<lambda>(k, v). (k, if k = name then h else v)) (nw_hosts nw) = nw_hosts nw"
    by (intro map_idI) auto
  then show ?thesis by (simp add: nw_set_host_def)
qed

lemma check_hosts_eq:
  assumes "nw_ok nw" "set names \<subseteq> set host_names"
  shows "check_hosts names nw = (case filter (\<lambda>name. expects nw name \<noteq> []) names of
      [] \<Rightarrow> Inr nw
    | name # _ \<Rightarrow> Inl (not_received name (hd (expects nw name))))"
  using assms(2)
proof (induction names)
  case (Cons name names)
  then obtain h where h: "map_of (nw_hosts nw) name = Some h" "host_ok (name, h)"
    using nw_host_ok[OF assms(1), of name] by auto
  then have "expects nw name = ho_expecting_to_receive h" by (simp add: expects_def)
  then show ?case
    using Cons h check_silent[OF h(2)] nw_set_host_same[OF assms(1) h(1)] by (simp split: list.split)
qed simp

text \<open>
  A simulation of the network always ends, and as the router forwards nothing it reports a failure exactly when
  some host expects a datagram: the first such host, in the order in which the map of hosts is walked, is
  named with the first datagram it did not receive. No datagram is received unexpectedly.
\<close>

lemma simulate_outcome:
  assumes "nw_ok nw" "set (order host_names) = set host_names"
  shows "case filter (\<lambda>name. expects nw name \<noteq> []) (order host_names) of
      [] \<Rightarrow> \<exists>nw'. simulate order nw = Some (Inr nw') \<and> nw_ok nw' \<and> expects nw' = expects nw
    | name # _ \<Rightarrow> simulate order nw = Some (Inl (not_received name (hd (expects nw name))))"
proof -
  obtain nw' where r: "simulate_rounds 256 nw = Some (Inr nw')" "nw_ok nw'" "expects nw' = expects nw"
    using rounds_ok[OF assms(1)] by blast
  then have "map fst (nw_hosts nw') = host_names" by (simp add: nw_ok_def)
  with r check_hosts_eq[OF r(2), of "order host_names"] assms(2) show ?thesis
    by (auto simp: simulate_def split: list.split)
qed

subsection \<open>The constructed network\<close>

text \<open>Besides dotted quads, \<open>getaddrinfo\<close> takes the numeric form with one part, which the sources use as \<open>"0"\<close>.\<close>

definition aton_resolver :: "Resolver \<Rightarrow> bool" where
  "aton_resolver rs \<longleftrightarrow> numeric_resolver rs \<and>
     rs_getaddrinfo rs ''0'' ''0'' (make_hints (AI_NUMERICHOST OR AI_NUMERICSERV) AF_INET) = (0, Some (sockaddr_in 0 0))"

lemma quads:
  "inet_ntoa 0xab434c2e = ''171.67.76.46''"
  "inet_ntoa 0x0a000001 = ''10.0.0.1''"
  "inet_ntoa 0xac100001 = ''172.16.0.1''"
  "inet_ntoa 0xc0a80001 = ''192.168.0.1''"
  "inet_ntoa 0xc6b2e501 = ''198.178.229.1''"
  "inet_ntoa 0x8fc30002 = ''143.195.0.2''"
  "inet_ntoa 0x801e4cff = ''128.30.76.255''"
  "inet_ntoa 0x0a000002 = ''10.0.0.2''"
  "inet_ntoa 0xab434c01 = ''171.67.76.1''"
  "inet_ntoa 0xc0a80002 = ''192.168.0.2''"
  "inet_ntoa 0x8fc30001 = ''143.195.0.1''"
  "inet_ntoa 0xc6b2e52a = ''198.178.229.42''"
  "inet_ntoa 0xc6b2e52b = ''198.178.229.43''"
  "inet_ntoa 0x00000000 = ''0.0.0.0''"
  "inet_ntoa 0x0a000000 = ''10.0.0.0''"
  "inet_ntoa 0xac100000 = ''172.16.0.0''"
  "inet_ntoa 0xc0a80000 = ''192.168.0.0''"
  "inet_ntoa 0xc6b2e500 = ''198.178.229.0''"
  "inet_ntoa 0x8fc30000 = ''143.195.0.0''"
  "inet_ntoa 0x8fc38000 = ''143.195.128.0''"
  "inet_ntoa 0x8fc3c000 = ''143.195.192.0''"
  "inet_ntoa 0x801e0001 = ''128.30.0.1''"
  by code_simp+

lemma resolve_zero: "aton_resolver rs \<Longrightarrow> ad_of_ip rs ''0'' 0 = Inr (inet_address 0 0)"
proof -
  have "dec_string 0 = ''0''" by code_simp
  then show "aton_resolver rs \<Longrightarrow> ad_of_ip rs ''0'' 0 = Inr (inet_address 0 0)"
    by (simp add: aton_resolver_def ad_of_ip_def ad_resolve_def ad_of_sockaddr_in)
qed

lemma resolve_quad: "inet_ntoa ip = s \<Longrightarrow> aton_resolver rs \<Longrightarrow> ad_of_ip rs s 0 = Inr (inet_address ip 0)"
  by (auto simp: aton_resolver_def)

lemmas resolve_quads = quads[THEN resolve_quad]

lemma calm_new [simp]: "calm (as_of_interface (ni_initial eth (inet_address ip 0)))"
  "silent (as_of_interface (ni_initial eth (inet_address ip 0)))"
  using ni_inv_new[of "inet_address ip 0" ip eth] by (simp_all add: calm_def silent_def as_of_interface_def ni_initial_def)

lemma random_address_taken [simp]:
  "snd (random_router_ethernet_address rd n) = n + 6" "snd (random_host_ethernet_address rd n) = n + 6"
  by (simp_all add: random_router_ethernet_address_def random_host_ethernet_address_def split: EthernetAddress.split)

lemma add_interface_eq:
  assumes "ad_of_ip rs str 0 = Inr (inet_address ip 0)" "aton_resolver rs"
  shows "add_interface rs rd str (\<lparr>rt_interfaces = is\<rparr>, n) = Inr (length is,
    \<lparr>rt_interfaces = is @ [as_of_interface (ni_initial (fst (random_router_ethernet_address rd n)) (inet_address ip 0))]\<rparr>, n + 6)"
  using assms by (simp add: add_interface_def rt_add_interface_def Let_def case_prod_beta ni_new_numeric aton_resolver_def)

definition new_host :: "(nat \<Rightarrow> 32 word) \<Rightarrow> nat \<Rightarrow> string \<Rightarrow> 32 word \<Rightarrow> 32 word \<Rightarrow> Host" where
  "new_host rd n name my hop = \<lparr>ho_name = name, ho_my_address = inet_address my 0,
     ho_interface = as_of_interface (ni_initial (fst (random_host_ethernet_address rd n)) (inet_address my 0)),
     ho_next_hop = inet_address hop 0, ho_expecting_to_receive = []\<rparr>"

lemma ho_new_eq:
  "aton_resolver rs \<Longrightarrow> ho_new rs rd n name (inet_address my 0) (inet_address hop 0) = Inr (new_host rd n name my hop, n + 6)"
  by (simp add: ho_new_def new_host_def case_prod_beta ni_new_numeric aton_resolver_def)

lemma new_host_fields [simp]:
  "ho_name (new_host rd n name my hop) = name" "ho_my_address (new_host rd n name my hop) = inet_address my 0"
  "ho_next_hop (new_host rd n name my hop) = inet_address hop 0" "ho_expecting_to_receive (new_host rd n name my hop) = []"
  "host_ok (name, new_host rd n name my hop)"
  by (simp_all add: new_host_def host_ok_def)

lemma add_route_eq:
  assumes "aton_resolver rs" "ad_of_ip rs prefix 0 = Inr (inet_address ip 0)"
    and "case hop of None \<Rightarrow> True | Some p \<Rightarrow> \<exists>a. place_address rs nw p = Inr (inet_address a 0)"
  shows "add_route rs prefix len hop i nw = Inr nw"
proof -
  have rs: "numeric_resolver rs" using assms(1) by (simp add: aton_resolver_def)
  then show ?thesis
    using assms(2,3)
    by (auto simp: add_route_def ip_of_def rt_add_route_def from_ipv4_numeric_def ad_of_sockaddr_in ad_ip_def split: option.splits)
qed

lemma insert_hosts_eq:
  assumes "aton_resolver rs"
  shows "insert_hosts rs rd n host_table [] =
    Inr ([(''applesauce'', new_host rd n ''applesauce'' 0x0a000002 0x0a000001),
          (''default_router'', new_host rd (n + 6) ''default_router'' 0xab434c01 0),
          (''cherrypie'', new_host rd (n + 12) ''cherrypie'' 0xc0a80002 0xc0a80001),
          (''hs_router'', new_host rd (n + 18) ''hs_router'' 0x8fc30001 0),
          (''dm42'', new_host rd (n + 24) ''dm42'' 0xc6b2e52a 0xc6b2e501),
          (''dm43'', new_host rd (n + 30) ''dm43'' 0xc6b2e52b 0xc6b2e501)], n + 36)"
  by (simp add: host_table_def resolve_quads[OF assms] resolve_zero[OF assms] ho_new_eq[OF assms] add.commute[of _ n])

lemma is_inet_address: "\<exists>a'. inet_address a 0 = inet_address a' 0"
  by blast

lemma add_routes_eq:
  assumes "aton_resolver rs" "nw_host nw ''default_router'' = Inr h" "ho_my_address h = inet_address a 0"
    and "nw_host nw ''hs_router'' = Inr g" "ho_my_address g = inet_address b 0"
  shows "add_routes rs (route_table nw') nw = Inr nw"
  using assms(2-) by (simp add: route_table_def resolve_quads[OF assms(1), THEN add_route_eq[OF assms(1)]] resolve_quads[OF assms(1)]
      is_inet_address)

lemma nw_new_ok:
  assumes "aton_resolver rs"
  shows "\<exists>nw. nw_new rs rd 0 = Inr (nw, 78) \<and> nw_ok nw \<and> expects nw = (\<lambda>_. []) \<and>
    nw_host nw ''applesauce'' = Inr (new_host rd 42 ''applesauce'' 0x0a000002 0x0a000001) \<and>
    nw_host nw ''cherrypie'' = Inr (new_host rd 54 ''cherrypie'' 0xc0a80002 0xc0a80001)"
  by (simp add: nw_new_def resolve_quads[OF assms, THEN add_interface_eq[OF _ assms]] insert_hosts_eq[OF assms] add_routes_eq[OF assms]
      nw_host_def nw_ok_def host_names_def expects_def fun_eq_iff Let_def)

subsection \<open>What the program reports\<close>

lemma dec_string_length: "k < 10 ^ Suc m \<Longrightarrow> length (dec_string k) \<le> Suc m"
proof (induction m arbitrary: k)
  case (Suc m)
  then have "k div 10 < 10 ^ Suc m" by simp
  from Suc.IH[OF this] show ?case by (simp add: to_base.simps[of 10 k])
qed (simp add: to_base.simps)

lemma make_dgram_sendable: "sendable (make_dgram src dst ttl r)"
proof -
  let ?p = "bytes_of_string (''random payload: {'' @ dec_string (unat r) @ ''}'')"
  have "unat r < 10 ^ Suc 9" using unsigned_less[of r, where 'a = nat] by simp
  from dec_string_length[OF this] have "length ?p < 100" by (simp add: bytes_of_string_def)
  then have "unat (word_of_nat (length ?p) :: 16 word) = length ?p" by (simp add: unat_of_nat)
  then have "bl_size (id_payload (make_dgram src dst ttl r)) = unat (ih_payload_length (id_header (make_dgram src dst ttl r)))"
    by (simp add: make_dgram_def Let_def ih_payload_length_def bl_size_concatenate ih_new_def)
  then show ?thesis
    by (simp add: sendable_def id_serialize_def ih_serialize_def make_dgram_def Let_def ih_new_def IPv4Header_LENGTH_def)
qed

text \<open>
  C35. Whatever the random numbers are, the network simulator exits with failure at its first test: it reports that
  cherrypie did not receive the datagram that applesauce sent to it, as the router drops every datagram.
\<close>

theorem simulator_fails:
  assumes "aton_resolver rs" "set (order host_names) = set host_names"
  shows "simulator_main rs rd order =
    Some (1, Some (not_received ''cherrypie'' (hop_decremented (make_dgram 0x0a000002 0xc0a80002 64 (rd 78)))))"
proof -
  let ?d = "make_dgram 0x0a000002 0xc0a80002 64 (rd 78)"
  obtain nw where nw: "nw_new rs rd 0 = Inr (nw, 78)" "nw_ok nw" "expects nw = (\<lambda>_. [])"
    and apple: "nw_host nw ''applesauce'' = Inr (new_host rd 42 ''applesauce'' 0x0a000002 0x0a000001)"
    and cherry: "nw_host nw ''cherrypie'' = Inr (new_host rd 54 ''cherrypie'' 0xc0a80002 0xc0a80001)"
    using nw_new_ok[OF assms(1)] by blast
  let ?h = "new_host rd 42 ''applesauce'' 0x0a000002 0x0a000001"
  let ?c = "new_host rd 54 ''cherrypie'' 0xc0a80002 0xc0a80001"
  have "ni_inv (as_interface (ho_interface ?h))" using new_host_fields(5) by (simp add: host_ok_def silent_def)
  then obtain ni where ni: "ni_send_datagram (as_interface (ho_interface ?h)) ?d (inet_address 0x0a000001 0) = Inr ni" "ni_inv ni"
    using ni_inv_send[OF _ make_dgram_sendable inet_address_numeric] by blast
  let ?h' = "ho_set_interface ((ho_interface ?h)\<lparr>as_interface := ni\<rparr>) ?h"
  have "ad_ip rs (inet_address 0x0a000001 0) = Inr (inet_ntoa 0x0a000001)"
    using assms(1) by (simp add: ad_ip_def aton_resolver_def)
  then have send: "ho_send_to rs rd 78 ?h (inet_address 0xc0a80002 0) 64 = Inr (?d, ?h', 79)"
    using ni(1) by (simp add: ho_send_to_def)
  let ?nw1 = "nw_set_host ''applesauce'' ?h' nw" and ?c' = "ho_expect ?c (hop_decremented ?d)"
  let ?nw2 = "nw_set_host ''cherrypie'' ?c' ?nw1"
  have maps: "map_of (nw_hosts nw) ''applesauce'' = Some ?h" "map_of (nw_hosts nw) ''cherrypie'' = Some ?c"
    using apple cherry by (simp_all add: nw_host_def split: option.splits if_splits)
  then have map1: "map_of (nw_hosts ?nw1) ''cherrypie'' = Some ?c"
    by (simp add: nw_set_host_def map_of_replace)
  then have cherry1: "nw_host ?nw1 ''cherrypie'' = Inr ?c" by (simp add: nw_host_def)
  have "host_ok (''applesauce'', ?h')" "host_ok (''cherrypie'', ?c')"
    using ni(2) new_host_fields(5) by (simp_all add: host_ok_def ho_set_interface_def ho_expect_def silent_def)
  then have ok: "nw_ok ?nw2" by (intro nw_set_host_ok nw(2))
  have ex: "expects ?nw2 = (\<lambda>_. [])(''cherrypie'' := [hop_decremented ?d])"
    by (simp add: expects_set_host[OF map1] expects_same[OF maps(1)] nw(3) ho_expect_def)
  obtain names where "filter (\<lambda>name. expects ?nw2 name \<noteq> []) (order host_names) = ''cherrypie'' # names"
  proof (cases "filter (\<lambda>name. expects ?nw2 name \<noteq> []) (order host_names)")
    case Nil
    then have "''cherrypie'' \<notin> set (order host_names)" by (auto simp: ex filter_empty_conv)
    then show ?thesis using assms(2) by (simp add: host_names_def)
  next
    case (Cons name names)
    then have "name \<in> set (filter (\<lambda>name. expects ?nw2 name \<noteq> []) (order host_names))" by simp
    then have "name = ''cherrypie''" by (simp add: ex split: if_splits)
    with Cons that show ?thesis by blast
  qed
  with simulate_outcome[OF ok, where order = order] assms(2)
  have sim: "simulate order ?nw2 = Some (Inl (not_received ''cherrypie'' (hop_decremented ?d)))" by (simp add: ex)
  have "sim_send rs rd (hd simulator_tests) (nw, 78) = Inr (?nw2, 79)"
    using cherry apple send cherry1 by (simp add: sim_send_def simulator_tests_def)
  then show ?thesis
    using nw(1) sim by (simp add: simulator_main_def network_simulator_def simulator_tests_def)
qed

text \<open>The resolver of dotted quads, extended by the numeric form with one part.\<close>

definition numeric_or_zero :: Resolver where
  "numeric_or_zero = numeric_only\<lparr>rs_getaddrinfo := (\<lambda>node service hints.
     if node = ''0'' then (0, Some (sockaddr_in 0 0)) else rs_getaddrinfo numeric_only node service hints)\<rparr>"

lemma numeric_or_zero_resolves: "aton_resolver numeric_or_zero"
proof -
  have "CHR ''.'' \<in> set (inet_ntoa ip)" for ip by (simp add: inet_ntoa_def)
  moreover have "CHR ''.'' \<notin> set ''0''" by simp
  ultimately have "inet_ntoa ip \<noteq> ''0''" for ip by (metis (no_types))
  then show ?thesis
    using numeric_only_resolves by (simp add: aton_resolver_def numeric_resolver_def numeric_or_zero_def)
qed

theorem simulator_fails_witness:
  "simulator_main numeric_or_zero (\<lambda>n. word_of_nat n) rev =
    Some (1, Some (not_received ''cherrypie'' (hop_decremented (make_dgram 0x0a000002 0xc0a80002 64 78))))"
  using simulator_fails[OF numeric_or_zero_resolves, of rev "\<lambda>n. word_of_nat n"] by simp

end
