(* ===== verification/Descriptors.thy ===== *)
theory Descriptors
  imports Net_Buffer Net_Address
begin

unbundle bit_operations_syntax

text \<open>
  File descriptors and sockets (\<open>util/file_descriptor.cc\<close>, \<open>util/socket.cc\<close>).

  The kernel is a parameter: what a system call returned, the value of \<open>errno\<close> after it and the
  bytes it stored are arguments of the operations that make the call. What is modelled is what the
  wrappers make of them: the exceptions, the flags and the counts of a descriptor, the loop that
  writes until everything is written, and the data returned.
\<close>

subsection \<open>System calls\<close>

text \<open>The return value of a system call as \<open>SystemCall\<close> takes it, an \<open>int\<close>, and \<open>errno\<close> after it.\<close>

type_synonym sysret = "32 word \<times> int"

definition SystemCall :: "string \<Rightarrow> sysret \<Rightarrow> int \<Rightarrow> cpp_error + 32 word" where
  "SystemCall attempt r errno_mask =
    (if 0 \<le> sint (fst r) \<or> snd r = errno_mask then Inr (fst r)
     else Inl (TaggedError ''unix_error'' attempt (snd r)))"

text \<open>The conversion of such a value to \<open>size_t\<close>.\<close>

definition to_size :: "32 word \<Rightarrow> u64" where
  "to_size r = unat (scast r :: 64 word)"

lemma to_size_int: "int (to_size r) = sint r mod 18446744073709551616"
  using uint_word_of_int[of "sint r", where 'a = 64] unfolding to_size_def scast_eq of_nat_unat by simp

lemma sint32_bounds: "- 2147483648 \<le> sint (r :: 32 word)" "sint (r :: 32 word) < 2147483648"
  using sint_ge[of r] sint_lt[of r] by simp_all

lemma to_size_nonneg: "0 \<le> sint r \<Longrightarrow> to_size r = nat (sint r)"
  using to_size_int[of r] sint32_bounds[of r] by (simp add: mod_pos_pos_trivial)

lemma to_size_0_iff: "to_size r = 0 \<longleftrightarrow> r = 0"
proof
  assume "to_size r = 0"
  then have "sint r mod 18446744073709551616 = 0" using to_size_int[of r] by simp
  then obtain k where "sint r = 18446744073709551616 * k" by (auto simp: mod_eq_0_iff_dvd)
  moreover from this have "k = 0" using sint32_bounds[of r] by linarith
  ultimately have "sint r = 0" by simp
  then show "r = 0" by (metis signed_word_eqI sint_0)
qed (simp add: to_size_def)

subsection \<open>FDWrapper\<close>

record FDWrapper =
  fw_fd :: int
  fw_eof :: bool
  fw_closed :: bool
  fw_read_count :: "32 word"
  fw_write_count :: "32 word"

definition fw_new :: "int \<Rightarrow> cpp_error + FDWrapper" where
  "fw_new fd =
    (if fd < 0 then Inl (RuntimeError (''invalid fd number:-'' @ dec_string (nat (- fd))))
     else Inr \<lparr>fw_fd = fd, fw_eof = False, fw_closed = False, fw_read_count = 0, fw_write_count = 0\<rparr>)"

definition fw_close :: "FDWrapper \<Rightarrow> sysret \<Rightarrow> cpp_error + FDWrapper" where
  "fw_close w sys = throw_bind (SystemCall ''close'' sys 0) (\<lambda>_. Inr (w\<lparr>fw_eof := True, fw_closed := True\<rparr>))"

text \<open>The destructor closes what is open; an exception is printed and not passed on.\<close>

definition fw_destroy :: "FDWrapper \<Rightarrow> sysret \<Rightarrow> FDWrapper" where
  "fw_destroy w sys = (if fw_closed w then w else (case fw_close w sys of Inl e \<Rightarrow> w | Inr w' \<Rightarrow> w'))"

definition register_read :: "FDWrapper \<Rightarrow> FDWrapper" where
  "register_read w = w\<lparr>fw_read_count := fw_read_count w + 1\<rparr>"

definition register_write :: "FDWrapper \<Rightarrow> FDWrapper" where
  "register_write w = w\<lparr>fw_write_count := fw_write_count w + 1\<rparr>"

subsection \<open>Reading and writing\<close>

definition BUFFER_SIZE :: u64 where
  "BUFFER_SIZE = 1024 * 1024"

definition fd_size_to_read :: "u64 \<Rightarrow> u64" where
  "fd_size_to_read limit = min BUFFER_SIZE limit"

text \<open>\<open>stored\<close>: what \<open>read(2)\<close> put at the start of the buffer; the rest of it keeps its zeros.\<close>

definition fd_read :: "FDWrapper \<Rightarrow> u64 \<Rightarrow> sysret \<Rightarrow> bytes \<Rightarrow> cpp_error + bytes \<times> FDWrapper" where
  "fd_read w limit sys stored =
    (let size_to_read = fd_size_to_read limit;
         str = stored @ drop (length stored) (replicate size_to_read 0) in
     throw_bind (SystemCall ''read'' sys 0) (\<lambda>bytes_read.
       let w' = (if 0 < limit \<and> bytes_read = 0 then w\<lparr>fw_eof := True\<rparr> else w) in
       if int size_to_read < sint bytes_read then Inl (RuntimeError ''read() read more than requested'')
       else Inr (str_resize str (to_size bytes_read), register_read w')))"

text \<open>
  \<open>writev\<close> at the \<open>n\<close>-th call, offered \<open>k\<close> bytes, is \<open>writev n k\<close>. Besides the number returned
  and the descriptor, the loop yields the bytes that the kernel has taken.
\<close>

lemma throw_bind_cong [fundef_cong]:
  "x = y \<Longrightarrow> (\<And>a. y = Inr a \<Longrightarrow> f a = g a) \<Longrightarrow> throw_bind x f = throw_bind y g"
  by (auto simp: throw_bind_def split: sum.splits)

function fd_write_loop ::
  "(nat \<Rightarrow> nat \<Rightarrow> sysret) \<Rightarrow> nat \<Rightarrow> FDWrapper \<Rightarrow> bytes \<Rightarrow> u64 \<Rightarrow> BufferViewList \<Rightarrow> bool \<Rightarrow> cpp_error + u64 \<times> FDWrapper \<times> bytes" where
  "fd_write_loop writev n w taken total_bytes_written buffer write_all =
    throw_bind (SystemCall ''writev'' (writev n (bvl_size buffer)) 0) (\<lambda>bytes_written.
      if bytes_written = 0 \<and> bvl_size buffer \<noteq> 0 then
        Inl (RuntimeError ''write returned 0 given non-empty input buffer'')
      else if int (bvl_size buffer) < sint bytes_written then
        Inl (RuntimeError ''write wrote more than length of input buffer'')
      else throw_bind (bvl_remove_prefix buffer (to_size bytes_written)) (\<lambda>buffer'.
        let w' = register_write w;
            total = u64_add total_bytes_written (to_size bytes_written);
            taken' = taken @ take (to_size bytes_written) (concat buffer) in
        if write_all \<and> bvl_size buffer' \<noteq> 0 then fd_write_loop writev (Suc n) w' taken' total buffer' write_all
        else Inr (total, w', taken')))"
  by pat_completeness auto
termination
proof (relation "measure (\<lambda>(_, _, _, _, _, buffer, _). bvl_size buffer)", simp, goal_cases)
  case (1 writev n w taken total buffer write_all r buffer' w' tot taken')
  have "concat buffer' = drop (to_size r) (concat buffer)"
    using bvl_remove_prefix_concat[of buffer "to_size r"] 1 by simp
  then have less: "to_size r < bvl_size buffer" using 1 by (simp add: bvl_size_concat)
  then have "0 < to_size r" using 1 to_size_0_iff[of r] by simp
  then show ?case using less \<open>concat buffer' = _\<close> by (simp add: bvl_size_concat)
qed

declare fd_write_loop.simps [simp del]

definition fd_write :: "(nat \<Rightarrow> nat \<Rightarrow> sysret) \<Rightarrow> FDWrapper \<Rightarrow> BufferViewList \<Rightarrow> bool \<Rightarrow> cpp_error + u64 \<times> FDWrapper \<times> bytes" where
  "fd_write writev w buffer write_all = fd_write_loop writev 0 w [] 0 buffer write_all"

definition O_NONBLOCK :: "32 word" where
  "O_NONBLOCK = 0x800"

text \<open>The flags passed to \<open>F_SETFL\<close>, given the result of \<open>F_GETFL\<close>.\<close>

definition fd_set_blocking :: "sysret \<Rightarrow> sysret \<Rightarrow> bool \<Rightarrow> cpp_error + 32 word" where
  "fd_set_blocking getfl setfl blocking_state =
    throw_bind (SystemCall ''fcntl'' getfl 0) (\<lambda>flags.
      let flags' = (if blocking_state then flags XOR (flags AND O_NONBLOCK) else flags OR O_NONBLOCK) in
      throw_bind (SystemCall ''fcntl'' setfl 0) (\<lambda>_. Inr flags'))"

subsection \<open>Sockets\<close>

definition so_new :: "sysret \<Rightarrow> cpp_error + FDWrapper" where
  "so_new sys = throw_bind (SystemCall ''socket'' sys 0) (\<lambda>fd. fw_new (sint fd))"

text \<open>One check of the constructor from a descriptor: the result of \<open>getsockopt\<close>, the value and the
  length it stored, and the value wanted.\<close>

definition so_verify :: "string \<Rightarrow> sysret \<Rightarrow> int \<Rightarrow> nat \<Rightarrow> int \<Rightarrow> cpp_error + unit" where
  "so_verify mismatch sys actual_value len wanted =
    throw_bind (SystemCall ''getsockopt'' sys 0) (\<lambda>_.
      if len \<noteq> 4 \<or> actual_value \<noteq> wanted then Inl (RuntimeError mismatch) else Inr ())"

definition so_of_fd ::
  "FDWrapper \<Rightarrow> int \<Rightarrow> int \<Rightarrow> sysret \<times> int \<times> nat \<Rightarrow> sysret \<times> int \<times> nat \<Rightarrow> cpp_error + FDWrapper" where
  "so_of_fd fd domain type so_domain so_type =
    throw_bind (so_verify ''socket domain mismatch'' (fst so_domain) (fst (snd so_domain)) (snd (snd so_domain)) domain) (\<lambda>_.
    throw_bind (so_verify ''socket type mismatch'' (fst so_type) (fst (snd so_type)) (snd (snd so_type)) type) (\<lambda>_.
      Inr fd))"

text \<open>\<open>stored\<close>: the socket address of the length that the function left in \<open>size\<close>.\<close>

definition so_get_address :: "string \<Rightarrow> sysret \<Rightarrow> bytes \<Rightarrow> cpp_error + Address" where
  "so_get_address name_of_function sys stored =
    throw_bind (SystemCall name_of_function sys 0) (\<lambda>_. ad_of_sockaddr stored)"

definition so_local_address :: "sysret \<Rightarrow> bytes \<Rightarrow> cpp_error + Address" where
  "so_local_address = so_get_address ''getsockname''"

definition so_peer_address :: "sysret \<Rightarrow> bytes \<Rightarrow> cpp_error + Address" where
  "so_peer_address = so_get_address ''getpeername''"

definition SHUT_RD :: int where "SHUT_RD = 0"
definition SHUT_WR :: int where "SHUT_WR = 1"
definition SHUT_RDWR :: int where "SHUT_RDWR = 2"

definition so_shutdown :: "FDWrapper \<Rightarrow> int \<Rightarrow> sysret \<Rightarrow> cpp_error + FDWrapper" where
  "so_shutdown w how sys =
    throw_bind (SystemCall ''shutdown'' sys 0) (\<lambda>_.
      if how = SHUT_RD then Inr (register_read w)
      else if how = SHUT_WR then Inr (register_write w)
      else if how = SHUT_RDWR then Inr (register_write (register_read w))
      else Inl (RuntimeError ''Socket::shutdown() called with invalid `how`''))"

record received_datagram =
  rd_source_address :: Address
  rd_payload :: bytes

text \<open>
  With \<open>MSG_TRUNC\<close> the kernel returns the length of the datagram, which may be more than was
  stored; \<open>source\<close> and \<open>stored\<close> are the source address and the bytes it stored.
\<close>

definition us_recv :: "FDWrapper \<Rightarrow> u64 \<Rightarrow> sysret \<Rightarrow> bytes \<Rightarrow> bytes \<Rightarrow> cpp_error + received_datagram \<times> FDWrapper" where
  "us_recv w mtu sys source stored =
    (let payload = stored @ drop (length stored) (replicate mtu 0) in
     throw_bind (SystemCall ''recvfrom'' sys 0) (\<lambda>recv_len.
       if int mtu < sint recv_len then Inl (RuntimeError ''recvfrom (oversized datagram)'')
       else throw_bind (ad_of_sockaddr source) (\<lambda>source_address.
         Inr (\<lparr>rd_source_address = source_address, rd_payload = str_resize payload (to_size recv_len)\<rparr>, register_read w))))"

definition sendmsg_helper :: "BufferViewList \<Rightarrow> sysret \<Rightarrow> cpp_error + unit" where
  "sendmsg_helper payload sys =
    throw_bind (SystemCall ''sendmsg'' sys 0) (\<lambda>bytes_sent.
      if to_size bytes_sent \<noteq> bvl_size payload then Inl (RuntimeError ''datagram payload too big for sendmsg()'')
      else Inr ())"

definition us_sendto :: "FDWrapper \<Rightarrow> Address \<Rightarrow> BufferViewList \<Rightarrow> sysret \<Rightarrow> cpp_error + FDWrapper" where
  "us_sendto w destination payload sys = throw_bind (sendmsg_helper payload sys) (\<lambda>_. Inr (register_write w))"

definition us_send :: "FDWrapper \<Rightarrow> BufferViewList \<Rightarrow> sysret \<Rightarrow> cpp_error + FDWrapper" where
  "us_send w payload sys = throw_bind (sendmsg_helper payload sys) (\<lambda>_. Inr (register_write w))"

definition AF_INET_domain :: int where "AF_INET_domain = 2"
definition SOCK_STREAM :: int where "SOCK_STREAM = 1"

definition ts_accept ::
  "FDWrapper \<Rightarrow> sysret \<Rightarrow> sysret \<times> int \<times> nat \<Rightarrow> sysret \<times> int \<times> nat \<Rightarrow> FDWrapper \<times> (cpp_error + FDWrapper)" where
  "ts_accept w sys so_domain so_type =
    (register_read w,
     throw_bind (SystemCall ''accept'' sys 0) (\<lambda>n.
     throw_bind (fw_new (sint n)) (\<lambda>fd. so_of_fd fd AF_INET_domain SOCK_STREAM so_domain so_type)))"

subsection \<open>What a kernel that keeps to its documentation makes of them\<close>

text \<open>
  \<open>writev(2)\<close> of a descriptor that can be written: it takes at least one of the bytes offered and
  at most all of them.
\<close>

definition writev_ok :: "(nat \<Rightarrow> nat \<Rightarrow> sysret) \<Rightarrow> bool" where
  "writev_ok writev \<longleftrightarrow> (\<forall>n k. 0 \<le> sint (fst (writev n k)) \<and> nat (sint (fst (writev n k))) \<le> k \<and>
     (0 < k \<longrightarrow> 0 < sint (fst (writev n k))))"

lemma bvl_remove_prefix_within:
  assumes "n \<le> length (concat vs)"
  obtains vs' where "bvl_remove_prefix vs n = Inr vs'" "concat vs' = drop n (concat vs)"
  using assms bvl_remove_prefix_concat[of vs n] by (cases "bvl_remove_prefix vs n") auto

lemma fd_write_loop_ok:
  assumes "writev_ok writev" "tot + length (concat buffer) < two64"
  shows "\<exists>k c. fd_write_loop writev n w taken tot buffer write_all =
      Inr (tot + k, w\<lparr>fw_write_count := fw_write_count w + word_of_nat c\<rparr>, taken @ take k (concat buffer)) \<and>
    k \<le> length (concat buffer) \<and> (write_all \<longrightarrow> k = length (concat buffer)) \<and>
    (concat buffer \<noteq> [] \<longrightarrow> 0 < k) \<and> 0 < c \<and> c \<le> max 1 k"
  using assms
proof (induction writev n w taken tot buffer write_all rule: fd_write_loop.induct)
  case (1 writev n w taken tot buffer write_all)
  define r where "r = fst (writev n (length (concat buffer)))"
  define k where "k = to_size r"
  have r: "0 \<le> sint r" "nat (sint r) \<le> length (concat buffer)" "concat buffer \<noteq> [] \<Longrightarrow> 0 < sint r"
    using 1(2) unfolding writev_ok_def r_def length_greater_0_conv[symmetric] by blast+
  have call: "SystemCall ''writev'' (writev n (bvl_size buffer)) 0 = Inr r"
    using r(1) by (simp add: SystemCall_def bvl_size_concat r_def)
  have k: "k \<le> length (concat buffer)" "concat buffer \<noteq> [] \<Longrightarrow> 0 < k"
    using r by (simp_all add: k_def to_size_nonneg)
  obtain buffer' where rest: "bvl_remove_prefix buffer k = Inr buffer'" "concat buffer' = drop k (concat buffer)"
    using bvl_remove_prefix_within[OF k(1)] .
  have no_zero: "\<not> (r = 0 \<and> bvl_size buffer \<noteq> 0)"
    using r(3) by (metis bvl_size_concat less_irrefl list.size(3) sint_0)
  have no_more: "\<not> int (bvl_size buffer) < sint r"
    using r(2) by (simp add: bvl_size_concat nat_le_iff)
  have tot: "u64_add tot k = tot + k" using k(1) 1(3) by (simp add: u64_add_exact)
  let ?loop = "fd_write_loop writev n w taken tot buffer write_all"
  have step: "?loop = (if write_all \<and> bvl_size buffer' \<noteq> 0
      then fd_write_loop writev (Suc n) (register_write w) (taken @ take k (concat buffer)) (tot + k) buffer' write_all
      else Inr (tot + k, register_write w, taken @ take k (concat buffer)))"
    by (subst fd_write_loop.simps)
      (simp only: call throw_bind_simps if_not_P[OF no_zero] if_not_P[OF no_more] k_def[symmetric] rest(1) tot Let_def)
  show ?case
  proof (cases "write_all \<and> bvl_size buffer' \<noteq> 0")
    case True
    have "\<exists>k' c. fd_write_loop writev (Suc n) (register_write w) (taken @ take k (concat buffer)) (tot + k) buffer' write_all =
        Inr (tot + k + k', (register_write w)\<lparr>fw_write_count := fw_write_count (register_write w) + word_of_nat c\<rparr>,
          (taken @ take k (concat buffer)) @ take k' (concat buffer')) \<and>
      k' \<le> length (concat buffer') \<and> (write_all \<longrightarrow> k' = length (concat buffer')) \<and>
      (concat buffer' \<noteq> [] \<longrightarrow> 0 < k') \<and> 0 < c \<and> c \<le> max 1 k'"
      using 1(1)[OF call no_zero no_more rest(1)[unfolded k_def] refl refl refl True 1(2)] rest(2) 1(3) k(1) tot
      unfolding k_def[symmetric] by simp
    then obtain k' c where IH: "fd_write_loop writev (Suc n) (register_write w) (taken @ take k (concat buffer)) (tot + k) buffer' write_all =
        Inr (tot + k + k', (register_write w)\<lparr>fw_write_count := fw_write_count (register_write w) + word_of_nat c\<rparr>,
          (taken @ take k (concat buffer)) @ take k' (concat buffer'))"
      "k' = length (concat buffer')" "0 < c" "c \<le> max 1 k'"
      using True by blast
    have "0 < length (concat buffer')" using True by (simp add: bvl_size_concat)
    moreover have "k' = length (concat buffer) - k" using IH(2) rest(2) by simp
    moreover have "concat buffer \<noteq> []" using calculation by (metis diff_is_0_eq' le0 less_irrefl list.size(3) rest(2) length_drop)
    ultimately show ?thesis
      using step True IH k rest(2)
      by - (rule exI[of _ "length (concat buffer)"], rule exI[of _ "Suc c"],
        simp add: register_write_def del: concat_eq_Nil_conv)
  next
    case False
    then show ?thesis using step k rest(2) 
      by - (rule exI[of _ k], rule exI[of _ 1], auto simp: register_write_def bvl_size_concat)
  qed
qed

text \<open>
  C24. \<open>FileDescriptor::write\<close> returns and writes what it says: with a kernel whose \<open>writev\<close> takes at
  least one of the bytes offered and at most all, no exception is thrown, the kernel has taken
  the first bytes of the buffer, as many as the result says and at least one unless the buffer is
  empty, all of them when everything was to be written; the descriptor differs in its write count only,
  which has grown by the number of calls.
\<close>

theorem fd_write_delivers:
  assumes "writev_ok writev" "length (concat buffer) < two64"
  shows "\<exists>k c. fd_write writev w buffer write_all =
      Inr (k, w\<lparr>fw_write_count := fw_write_count w + word_of_nat c\<rparr>, take k (concat buffer)) \<and>
    k \<le> length (concat buffer) \<and> (write_all \<longrightarrow> k = length (concat buffer)) \<and>
    (concat buffer \<noteq> [] \<longrightarrow> 0 < k) \<and> 0 < c \<and> c \<le> max 1 k"
  using fd_write_loop_ok[OF assms(1), of 0 buffer 0 w "[]" write_all] assms(2) by (simp add: fd_write_def)

text \<open>A kernel that takes at most two bytes at a time.\<close>

definition slow_writev :: "nat \<Rightarrow> nat \<Rightarrow> sysret" where
  "slow_writev n k = (word_of_nat (min 2 k), 0)"

lemma slow_writev_ok: "writev_ok slow_writev"
proof -
  have "sint (word_of_nat (min 2 k) :: 32 word) = int (min 2 k)" for k
    by (subst signed_of_nat) (simp add: signed_take_bit_int_eq_self min_def)
  then show ?thesis by (simp add: writev_ok_def slow_writev_def)
qed

theorem fd_write_delivers_witness:
  "\<exists>w'. fd_write slow_writev \<lparr>fw_fd = 3, fw_eof = False, fw_closed = False, fw_read_count = 0, fw_write_count = 0\<rparr>
     [[1, 2, 3], [], [4, 5]] True = Inr (5, w', [1, 2, 3, 4, 5])"
  using fd_write_delivers[OF slow_writev_ok, of "[[1, 2, 3], [], [4, 5]]"
    "\<lparr>fw_fd = 3, fw_eof = False, fw_closed = False, fw_read_count = 0, fw_write_count = 0\<rparr>" True]
  by (auto simp: two64_def)

text \<open>With a \<open>read(2)\<close> that returns the number of bytes it stored, at most as many as asked for.\<close>

lemma fd_read_eq:
  assumes "sint (fst sys) = int (length stored)" "length stored \<le> fd_size_to_read limit"
  shows "fd_read w limit sys stored =
    Inr (stored, register_read (w\<lparr>fw_eof := fw_eof w \<or> 0 < limit \<and> stored = []\<rparr>))"
proof -
  have "to_size (fst sys) = length stored" using assms(1) by (simp add: to_size_nonneg)
  moreover have "fst sys = 0 \<longleftrightarrow> stored = []"
    using assms(1) by (metis length_0_conv of_nat_eq_0_iff signed_word_eqI sint_0)
  moreover have "SystemCall ''read'' sys 0 = Inr (fst sys)" using assms(1) by (simp add: SystemCall_def)
  ultimately show ?thesis
    using assms by (simp add: fd_read_def Let_def str_resize_def)
qed

text \<open>\<open>set_blocking\<close> changes the flag \<open>O_NONBLOCK\<close> and no other.\<close>

lemma fd_set_blocking_bits:
  assumes "fd_set_blocking getfl setfl b = Inr flags" "i < 32"
  shows "bit flags i = (if i = 11 then \<not> b else bit (fst getfl) i)"
proof -
  have flag: "O_NONBLOCK = push_bit 11 1" by (simp add: O_NONBLOCK_def push_bit_eq_mult)
  have "bit O_NONBLOCK i = (i = 11)" using assms(2) unfolding flag bit_push_bit_iff bit_1_iff by auto
  then show ?thesis
    using assms by (auto simp: fd_set_blocking_def Let_def SystemCall_def throw_bind_def bit_simps
      split: if_splits sum.splits)
qed

subsection \<open>A kernel\<close>

text \<open>
  The calls of a program over time: what the \<open>n\<close>-th call returns when it reads \<open>k\<close> bytes from a
  descriptor (and the bytes it stores), writes \<open>k\<close> bytes to it, or does anything else with it.
\<close>

record Kernel =
  kn_read :: "nat \<Rightarrow> int \<Rightarrow> nat \<Rightarrow> sysret \<times> bytes"
  kn_writev :: "nat \<Rightarrow> int \<Rightarrow> nat \<Rightarrow> sysret"
  kn_call :: "nat \<Rightarrow> int \<Rightarrow> sysret"

text \<open>
  A kernel whose calls succeed: reading stores at most the bytes asked for and returns their
  number, writing is as in \<open>writev_ok\<close>, the other calls return no error.
\<close>

definition kernel_ok :: "Kernel \<Rightarrow> bool" where
  "kernel_ok K \<longleftrightarrow>
    (\<forall>n fd k. sint (fst (fst (kn_read K n fd k))) = int (length (snd (kn_read K n fd k))) \<and>
      length (snd (kn_read K n fd k)) \<le> k) \<and>
    (\<forall>m fd. writev_ok (\<lambda>n. kn_writev K (m + n) fd)) \<and>
    (\<forall>n fd. 0 \<le> sint (fst (kn_call K n fd)))"

lemma kernel_call: "kernel_ok K \<Longrightarrow> SystemCall name (kn_call K n fd) msk = Inr (fst (kn_call K n fd))"
  by (simp add: kernel_ok_def SystemCall_def)

lemma kernel_read:
  fixes n :: nat and fd :: int and limit :: nat and K :: Kernel
  assumes "kernel_ok K"
  defines "d \<equiv> snd (kn_read K n fd (fd_size_to_read limit))"
  shows "fd_read w limit (fst (kn_read K n fd (fd_size_to_read limit))) d =
      Inr (d, register_read (w\<lparr>fw_eof := fw_eof w \<or> 0 < limit \<and> d = []\<rparr>))"
    and "length d \<le> limit"
proof -
  have "sint (fst (fst (kn_read K n fd (fd_size_to_read limit)))) = int (length d)" "length d \<le> fd_size_to_read limit"
    using assms(1) unfolding kernel_ok_def d_def by blast+
  then show "fd_read w limit (fst (kn_read K n fd (fd_size_to_read limit))) d =
      Inr (d, register_read (w\<lparr>fw_eof := fw_eof w \<or> 0 < limit \<and> d = []\<rparr>))" "length d \<le> limit"
    by (simp_all add: fd_read_eq fd_size_to_read_def)
qed

text \<open>A partial write is one call.\<close>

lemma kernel_write:
  assumes "kernel_ok K" "length (concat buffer) < two64"
  obtains k where "fd_write (\<lambda>n. kn_writev K (m + n) fd) w buffer False = Inr (k, register_write w, take k (concat buffer))"
    "k \<le> length (concat buffer)"
proof -
  let ?w = "\<lambda>n. kn_writev K (m + n) fd"
  define r where "r = fst (?w 0 (length (concat buffer)))"
  have r: "0 \<le> sint r" "nat (sint r) \<le> length (concat buffer)" "0 < length (concat buffer) \<Longrightarrow> 0 < sint r"
    using assms(1) unfolding kernel_ok_def writev_ok_def r_def by blast+
  have size: "to_size r \<le> length (concat buffer)" using r by (simp add: to_size_nonneg)
  obtain buffer' where rest: "bvl_remove_prefix buffer (to_size r) = Inr buffer'"
    using bvl_remove_prefix_within[OF size] .
  have call: "SystemCall ''writev'' (?w 0 (bvl_size buffer)) 0 = Inr r"
    using r(1) by (simp add: SystemCall_def bvl_size_concat r_def)
  have no_zero: "\<not> (r = 0 \<and> bvl_size buffer \<noteq> 0)" using r(3) by (metis bvl_size_concat gr0I less_irrefl sint_0)
  have no_more: "\<not> int (bvl_size buffer) < sint r" using r(2) by (simp add: bvl_size_concat nat_le_iff)
  have "u64_add 0 (to_size r) = to_size r" using size assms(2) by (simp add: u64_add_exact)
  then have "fd_write ?w w buffer False = Inr (to_size r, register_write w, take (to_size r) (concat buffer))"
    unfolding fd_write_def
    by (subst fd_write_loop.simps)
      (simp only: call throw_bind_simps if_not_P[OF no_zero] if_not_P[OF no_more] rest Let_def simp_thms if_False append_Nil)
  then show ?thesis using that size by blast
qed

text \<open>A kernel in which every file is at its end and at most two bytes are taken at a time.\<close>

definition empty_kernel :: Kernel where
  "empty_kernel = \<lparr>kn_read = \<lambda>_ _ _. ((0, 0), []), kn_writev = \<lambda>n _ k. slow_writev n k, kn_call = \<lambda>_ _. (0, 0)\<rparr>"

lemma empty_kernel_ok: "kernel_ok empty_kernel"
  using slow_writev_ok by (simp add: kernel_ok_def empty_kernel_def writev_ok_def slow_writev_def)

end
