(* ===== verification/Event_Loop.thy ===== *)
theory Event_Loop
  imports Descriptors "HOL-Library.Sublist"
begin

unbundle bit_operations_syntax

text \<open>
  The event loop (\<open>util/eventloop.cc\<close>).

  The model is polymorphic in the state \<open>'w\<close> of the program that uses the loop: callbacks and
  cancellations are state transformers that may throw or not return, and \<open>fds\<close> gives the
  descriptors that the state holds, by the number a rule refers to. The outcome of \<open>poll(2)\<close> is an
  argument. The locale \<open>event_rules\<close> is the contract between the loop and a program.
\<close>

subsection \<open>Rules\<close>

datatype Direction = In | Out

definition POLLIN :: "16 word" where "POLLIN = 0x1"
definition POLLOUT :: "16 word" where "POLLOUT = 0x4"
definition POLLERR :: "16 word" where "POLLERR = 0x8"
definition POLLHUP :: "16 word" where "POLLHUP = 0x10"
definition POLLNVAL :: "16 word" where "POLLNVAL = 0x20"
definition EINTR :: int where "EINTR = 4"

fun direction_events :: "Direction \<Rightarrow> 16 word" where
  "direction_events In = POLLIN"
| "direction_events Out = POLLOUT"

type_synonym 'w action = "'w \<Rightarrow> (cpp_error + 'w) option"

record 'w Rule =
  ru_fd :: nat
  ru_direction :: Direction
  ru_callback :: "'w action"
  ru_interest :: "'w \<Rightarrow> bool"
  ru_cancel :: "'w action"

datatype Result = Success | Timeout | Exit

definition service_count :: "('w \<Rightarrow> nat \<Rightarrow> FDWrapper) \<Rightarrow> 'w Rule \<Rightarrow> 'w \<Rightarrow> 32 word" where
  "service_count fds r w =
    (if ru_direction r = In then fw_read_count (fds w (ru_fd r)) else fw_write_count (fds w (ru_fd r)))"

definition el_add_rule :: "'w Rule list \<Rightarrow> nat \<Rightarrow> Direction \<Rightarrow> 'w action \<Rightarrow> ('w \<Rightarrow> bool) \<Rightarrow> 'w action \<Rightarrow> 'w Rule list" where
  "el_add_rule rules fd direction callback interest cancel =
    rules @ [\<lparr>ru_fd = fd, ru_direction = direction, ru_callback = callback, ru_interest = interest, ru_cancel = cancel\<rparr>]"

subsection \<open>\<open>wait_next_event\<close>\<close>

record pollfd =
  pf_fd :: int
  pf_events :: "16 word"
  pf_revents :: "16 word"

text \<open>The set-up loop: the rules kept, their \<open>pollfd\<close>s, \<open>something_to_poll\<close> and the state.\<close>

fun el_setup :: "('w \<Rightarrow> nat \<Rightarrow> FDWrapper) \<Rightarrow> 'w Rule list \<Rightarrow> 'w \<Rightarrow>
    (cpp_error + 'w Rule list \<times> pollfd list \<times> bool \<times> 'w) option" where
  "el_setup fds [] w = Some (Inr ([], [], False, w))"
| "el_setup fds (r # rs) w =
    (if ru_direction r = In \<and> fw_eof (fds w (ru_fd r)) then
       ret_bind (ru_cancel r w) (\<lambda>w'. el_setup fds rs w')
     else if fw_closed (fds w (ru_fd r)) then
       ret_bind (ru_cancel r w) (\<lambda>w'. el_setup fds rs w')
     else
       let interested = ru_interest r w;
           pfd = \<lparr>pf_fd = fw_fd (fds w (ru_fd r)),
             pf_events = (if interested then direction_events (ru_direction r) else 0), pf_revents = 0\<rparr> in
       ret_bind (el_setup fds rs w) (\<lambda>(kept, pfds, something, w').
         Some (Inr (r # kept, pfd # pfds, interested \<or> something, w'))))"

text \<open>The loop over the results: the rules kept and the state.\<close>

fun el_service :: "('w \<Rightarrow> nat \<Rightarrow> FDWrapper) \<Rightarrow> ('w Rule \<times> pollfd) list \<Rightarrow> 'w \<Rightarrow>
    (cpp_error + 'w Rule list \<times> 'w) option" where
  "el_service fds [] w = Some (Inr ([], w))"
| "el_service fds ((r, pfd) # rest) w =
    (if pf_revents pfd AND (POLLERR OR POLLNVAL) \<noteq> 0 then
       Some (Inl (RuntimeError ''EventLoop: error on polled file descriptor''))
     else
       let poll_ready = (pf_revents pfd AND pf_events pfd \<noteq> 0);
           poll_hup = (pf_revents pfd AND POLLHUP \<noteq> 0) in
       if poll_hup \<and> pf_events pfd \<noteq> 0 \<and> \<not> poll_ready then
         ret_bind (ru_cancel r w) (\<lambda>w'. el_service fds rest w')
       else
         ret_bind
           (if poll_ready then
              let count_before = service_count fds r w in
              ret_bind (ru_callback r w) (\<lambda>w'.
                if count_before = service_count fds r w' \<and> ru_interest r w' then
                  Some (Inl (RuntimeError
                    ''EventLoop: busy wait detected: callback did not read/write fd and is still interested''))
                else Some (Inr w'))
            else Some (Inr w))
           (\<lambda>w'. ret_bind (el_service fds rest w') (\<lambda>(kept, w''). Some (Inr (r # kept, w'')))))"

text \<open>
  \<open>poll\<close>: what \<open>poll(2)\<close> returns for an array and a timeout, and the events it stores in it, by
  index. An exception of \<open>SystemCall\<close> is caught; only \<open>EINTR\<close> is looked at.
\<close>

definition wait_next_event ::
  "(pollfd list \<Rightarrow> int \<Rightarrow> sysret \<times> (nat \<Rightarrow> 16 word)) \<Rightarrow> ('w \<Rightarrow> nat \<Rightarrow> FDWrapper) \<Rightarrow> 'w Rule list \<Rightarrow> int \<Rightarrow> 'w \<Rightarrow>
    (cpp_error + Result \<times> 'w Rule list \<times> 'w) option" where
  "wait_next_event poll fds rules timeout_ms w =
    ret_bind (el_setup fds rules w) (\<lambda>(kept, pollfds, something_to_poll, w').
      if \<not> something_to_poll then Some (Inr (Exit, kept, w'))
      else
        let (sys, revents) = poll pollfds timeout_ms;
            pollfds' = map (\<lambda>i. (pollfds ! i)\<lparr>pf_revents := revents i\<rparr>) [0..<length pollfds];
            service = ret_bind (el_service fds (zip kept pollfds') w') (\<lambda>(kept', w''). Some (Inr (Success, kept', w''))) in
        case SystemCall ''poll'' sys 0 of
          Inr n \<Rightarrow> if n = 0 then Some (Inr (Timeout, kept, w')) else service
        | Inl (TaggedError category attempt code) \<Rightarrow> if code = EINTR then Some (Inr (Exit, kept, w')) else service
        | Inl e \<Rightarrow> Some (Inl e))"

subsection \<open>Programs that keep to the contract\<close>

text \<open>
  How the loop over the results may end: with an exception only when \<open>poll\<close> has reported an error
  on a descriptor; otherwise in a state that satisfies the invariant, with some of the rules gone.
\<close>

definition service_end :: "('w \<Rightarrow> bool) \<Rightarrow> ('w Rule \<times> pollfd) list \<Rightarrow> cpp_error + 'w Rule list \<times> 'w \<Rightarrow> bool" where
  "service_end good rps x \<longleftrightarrow> (case x of
      Inl e \<Rightarrow> e = RuntimeError ''EventLoop: error on polled file descriptor'' \<and>
        (\<exists>rp\<in>set rps. pf_revents (snd rp) AND (POLLERR OR POLLNVAL) \<noteq> 0)
    | Inr (kept, w) \<Rightarrow> good w \<and> subseq kept (map fst rps))"

lemma service_end_keep:
  assumes "service_end good rps x"
  shows "\<exists>y. ret_bind (Some x) (\<lambda>(kept, w). Some (Inr (r # kept, w))) = Some y \<and> service_end good ((r, p) # rps) y"
  using assms by (cases x) (auto simp: service_end_def)

lemma service_end_drop: "service_end good rps x \<Longrightarrow> service_end good ((r, p) # rps) x"
  by (auto simp: service_end_def split: sum.splits)

text \<open>
  The contract: started in a state that satisfies the invariant, a callback returns, keeps the
  invariant, and has served the descriptor or is no longer interested; a cancellation returns and
  keeps the invariant.
\<close>

locale event_rules =
  fixes fds :: "'w \<Rightarrow> nat \<Rightarrow> FDWrapper"
    and rules :: "'w Rule list"
    and good :: "'w \<Rightarrow> bool"
  assumes callback: "r \<in> set rules \<Longrightarrow> good w \<Longrightarrow>
      \<exists>w'. ru_callback r w = Some (Inr w') \<and> good w' \<and> (service_count fds r w' = service_count fds r w \<longrightarrow> \<not> ru_interest r w')"
    and cancel: "r \<in> set rules \<Longrightarrow> good w \<Longrightarrow> \<exists>w'. ru_cancel r w = Some (Inr w') \<and> good w'"
begin

lemma setup_ok:
  assumes "set rs \<subseteq> set rules" "good w"
  shows "\<exists>kept pfds ask w'. el_setup fds rs w = Some (Inr (kept, pfds, ask, w')) \<and> good w' \<and>
    subseq kept rs \<and> length pfds = length kept"
  using assms
proof (induction rs arbitrary: w)
  case (Cons r rs)
  obtain wc where wc: "ru_cancel r w = Some (Inr wc)" "good wc" using cancel[of r w] Cons.prems by auto
  have kept: "\<exists>kept pfds ask w'. el_setup fds rs w0 = Some (Inr (kept, pfds, ask, w')) \<and> good w' \<and>
      subseq kept rs \<and> length pfds = length kept" if "good w0" for w0
    using Cons.IH[OF _ that] Cons.prems(1) by simp
  show ?case
  proof (cases "ru_direction r = In \<and> fw_eof (fds w (ru_fd r)) \<or> fw_closed (fds w (ru_fd r))")
    case True
    then have "el_setup fds (r # rs) w = el_setup fds rs wc" using wc(1) by auto
    then show ?thesis using kept[OF wc(2)] by (metis list_emb_Cons)
  next
    case False
    obtain kept pfds ask w' where *: "el_setup fds rs w = Some (Inr (kept, pfds, ask, w'))" "good w'"
      "subseq kept rs" "length pfds = length kept"
      using kept[OF Cons.prems(2)] by blast
    have "\<exists>pfd ask'. el_setup fds (r # rs) w = Some (Inr (r # kept, pfd # pfds, ask', w'))"
      using False *(1) by (auto simp: Let_def)
    then show ?thesis using * by fastforce
  qed
qed auto

lemma service_ok:
  assumes "set (map fst rps) \<subseteq> set rules" "good w"
  shows "\<exists>x. el_service fds rps w = Some x \<and> service_end good rps x"
  using assms
proof (induction rps arbitrary: w)
  case Nil
  then show ?case by (simp add: service_end_def)
next
  case (Cons rp rps)
  obtain r p where rp: "rp = (r, p)" by fastforce
  obtain wc where wc: "ru_cancel r w = Some (Inr wc)" "good wc" using cancel[of r w] Cons.prems rp by auto
  obtain wb where wb: "ru_callback r w = Some (Inr wb)" "good wb"
    "service_count fds r w = service_count fds r wb \<longrightarrow> \<not> ru_interest r wb"
    using callback[of r w] Cons.prems rp by fastforce
  have IH: "\<exists>x. el_service fds rps w0 = Some x \<and> service_end good rps x" if "good w0" for w0
    using Cons.IH[OF _ that] Cons.prems(1) by simp
  have keep: "\<exists>x. ret_bind (el_service fds rps w0) (\<lambda>(kept, w). Some (Inr (r # kept, w))) = Some x \<and>
      service_end good ((r, p) # rps) x" if "good w0" for w0
    using IH[OF that] service_end_keep by metis
  have drop: "\<exists>x. el_service fds rps w0 = Some x \<and> service_end good ((r, p) # rps) x" if "good w0" for w0
    using IH[OF that] service_end_drop by metis
  consider "pf_revents p AND (POLLERR OR POLLNVAL) \<noteq> 0"
    | "pf_revents p AND (POLLERR OR POLLNVAL) = 0" "pf_revents p AND POLLHUP \<noteq> 0 \<and> pf_events p \<noteq> 0 \<and> pf_revents p AND pf_events p = 0"
    | "pf_revents p AND (POLLERR OR POLLNVAL) = 0" "pf_revents p AND pf_events p \<noteq> 0"
    | "pf_revents p AND (POLLERR OR POLLNVAL) = 0" "pf_revents p AND pf_events p = 0"
        "\<not> (pf_revents p AND POLLHUP \<noteq> 0 \<and> pf_events p \<noteq> 0)"
    by blast
  then show ?case
  proof cases
    case 1
    then show ?thesis by (simp add: rp service_end_def)
  next
    case 2
    then show ?thesis using drop[OF wc(2)] wc(1) by (simp add: rp)
  next
    case 3
    then show ?thesis using keep[OF wb(2)] wb(1,3)
      by (cases "service_count fds r w = service_count fds r wb") (simp_all add: rp Let_def)
  next
    case 4
    then show ?thesis using keep[OF Cons.prems(2)] by (cases "pf_events p = 0") (simp_all add: rp)
  qed
qed

lemma wait_ok:
  assumes "set rs \<subseteq> set rules" "good w"
  shows "\<exists>x. wait_next_event poll fds rs timeout w = Some x \<and>
    (case x of Inl e \<Rightarrow> e = RuntimeError ''EventLoop: error on polled file descriptor''
     | Inr (res, rs', w') \<Rightarrow> good w' \<and> subseq rs' rs)"
proof -
  obtain kept pfds ask w1 where s: "el_setup fds rs w = Some (Inr (kept, pfds, ask, w1))" "good w1"
    "subseq kept rs" "length pfds = length kept"
    using setup_ok[OF assms] by blast
  obtain sys revents where p: "poll pfds timeout = (sys, revents)" by fastforce
  let ?pfds = "map (\<lambda>i. (pfds ! i)\<lparr>pf_revents := revents i\<rparr>) [0..<length pfds]"
  have fst: "map fst (zip kept ?pfds) = kept" using s(4) by simp
  have "set kept \<subseteq> set rules" using s(3) assms(1) by (auto dest: list_emb_set)
  then have "set (map fst (zip kept ?pfds)) \<subseteq> set rules" unfolding fst .
  then obtain x where x: "el_service fds (zip kept ?pfds) w1 = Some x" "service_end good (zip kept ?pfds) x"
    using service_ok[OF _ s(2)] by blast
  have "\<exists>y. ret_bind (Some x) (\<lambda>(kept', w''). Some (Inr (Success, kept', w''))) = Some y \<and>
    (case y of Inl e \<Rightarrow> e = RuntimeError ''EventLoop: error on polled file descriptor''
     | Inr (res, rs', w') \<Rightarrow> good w' \<and> subseq rs' rs)"
    using x(2) fst s(3) by (cases x) (auto simp: service_end_def intro: subseq_order.order_trans)
  then obtain y where y: "ret_bind (Some x) (\<lambda>(kept', w''). Some (Inr (Success, kept', w''))) = Some y"
    "case y of Inl e \<Rightarrow> e = RuntimeError ''EventLoop: error on polled file descriptor''
     | Inr (res, rs', w') \<Rightarrow> good w' \<and> subseq rs' rs" by blast
  have "wait_next_event poll fds rs timeout w \<in> {Some y, Some (Inr (Exit, kept, w1)), Some (Inr (Timeout, kept, w1))}"
    unfolding wait_next_event_def s(1) using p x(1) y(1) by (simp add: Let_def SystemCall_def)
  then show ?thesis using y(2) s(2,3) by auto
qed

end

text \<open>
  A weaker contract, for programs whose callbacks may also throw or never return: those that return
  keep the invariant.
\<close>

locale keeping_rules =
  fixes rules :: "'w Rule list"
    and good :: "'w \<Rightarrow> bool"
  assumes callback_keeps: "r \<in> set rules \<Longrightarrow> good w \<Longrightarrow> ru_callback r w = Some (Inr w') \<Longrightarrow> good w'"
    and cancel_keeps: "r \<in> set rules \<Longrightarrow> good w \<Longrightarrow> ru_cancel r w = Some (Inr w') \<Longrightarrow> good w'"
begin

lemma setup_keeps:
  assumes "set rs \<subseteq> set rules" "good w" "el_setup fds rs w = Some (Inr (kept, pfds, ask, w'))"
  shows "good w' \<and> set kept \<subseteq> set rs"
  using assms
proof (induction rs arbitrary: w kept pfds ask)
  case (Cons r rs)
  have IH: "good w' \<and> set ks \<subseteq> set rs" if "good w1" "el_setup fds rs w1 = Some (Inr (ks, ps, a, w'))" for w1 ks ps a
    using Cons.IH[OF _ that] Cons.prems(1) by simp
  show ?case
  proof (cases "ru_direction r = In \<and> fw_eof (fds w (ru_fd r)) \<or> fw_closed (fds w (ru_fd r))")
    case True
    then have "ret_bind (ru_cancel r w) (el_setup fds rs) = Some (Inr (kept, pfds, ask, w'))"
      using Cons.prems(3) by (auto split: if_splits)
    then obtain w1 where "ru_cancel r w = Some (Inr w1)" "el_setup fds rs w1 = Some (Inr (kept, pfds, ask, w'))"
      by (auto simp: ret_bind_def split: option.splits sum.splits)
    then show ?thesis using IH[of w1] cancel_keeps[of r w w1] Cons.prems by auto
  next
    case False
    then obtain ks ps a where "el_setup fds rs w = Some (Inr (ks, ps, a, w'))" "kept = r # ks"
      using Cons.prems(3) by (auto simp: Let_def ret_bind_def split: option.splits sum.splits prod.splits)
    then show ?thesis using IH[OF Cons.prems(2)] by auto
  qed
qed simp

lemma service_keeps:
  assumes "fst ` set rps \<subseteq> set rules" "good w" "el_service fds rps w = Some (Inr (kept, w'))"
  shows "good w' \<and> set kept \<subseteq> fst ` set rps"
  using assms
proof (induction rps arbitrary: w kept)
  case (Cons rp rps)
  obtain r p where rp: "rp = (r, p)" by fastforce
  have IH: "good w' \<and> set ks \<subseteq> fst ` set rps" if "good w1" "el_service fds rps w1 = Some (Inr (ks, w'))" for w1 ks
    using Cons.IH[OF _ that] Cons.prems(1) by simp
  have r: "r \<in> set rules" using Cons.prems(1) rp by auto
  consider (cancelled) w1 where "ru_cancel r w = Some (Inr w1)" "el_service fds rps w1 = Some (Inr (kept, w'))"
    | (served) w1 ks where "ru_callback r w = Some (Inr w1)" "el_service fds rps w1 = Some (Inr (ks, w'))" "kept = r # ks"
    | (idle) ks where "el_service fds rps w = Some (Inr (ks, w'))" "kept = r # ks"
    using Cons.prems(3) unfolding rp el_service.simps Let_def ret_bind_def
    by (auto split: if_splits option.splits sum.splits prod.splits)
  then show ?case
  proof cases
    case cancelled
    then show ?thesis using IH[of w1] cancel_keeps[OF r Cons.prems(2)] by auto
  next
    case served
    then show ?thesis using IH[of w1 ks] callback_keeps[OF r Cons.prems(2)] rp by auto
  next
    case idle
    then show ?thesis using IH[of w ks] Cons.prems(2) rp by auto
  qed
qed simp

lemma wait_keeps:
  assumes "set rs \<subseteq> set rules" "good w" "wait_next_event poll fds rs timeout w = Some (Inr (res, rs', w'))"
  shows "good w' \<and> set rs' \<subseteq> set rs"
proof -
  obtain kept pfds ask w1 where s: "el_setup fds rs w = Some (Inr (kept, pfds, ask, w1))"
    using assms(3) by (auto simp: wait_next_event_def ret_bind_def split: option.splits sum.splits)
  have kept: "good w1" "set kept \<subseteq> set rs" using setup_keeps[OF assms(1,2) s] by auto
  obtain sys revents where p: "poll pfds timeout = (sys, revents)" by fastforce
  let ?rps = "zip kept (map (\<lambda>i. (pfds ! i)\<lparr>pf_revents := revents i\<rparr>) [0..<length pfds])"
  have rps: "fst ` set ?rps \<subseteq> set kept" by (auto dest: set_zip_leftD)
  have "(rs' = kept \<and> w' = w1) \<or> el_service fds ?rps w1 = Some (Inr (rs', w'))"
    using assms(3) by (auto simp: wait_next_event_def s p Let_def SystemCall_def ret_bind_def
      split: if_splits option.splits sum.splits)
  then show ?thesis using kept service_keeps[of ?rps w1 fds rs' w'] rps assms(1) by auto
qed

end

sublocale event_rules \<subseteq> keeping: keeping_rules rules good
proof (unfold_locales, goal_cases)
  case (1 r w w')
  then show ?case using callback[of r w] by auto
next
  case (2 r w w')
  then show ?case using cancel[of r w] by auto
qed

subsection \<open>What the loop does\<close>

text \<open>The effect of a callback that returns.\<close>

definition ru_act :: "'w Rule \<Rightarrow> 'w \<Rightarrow> 'w" where
  "ru_act r w = (case ru_callback r w of Some (Inr w') \<Rightarrow> w' | _ \<Rightarrow> w)"

text \<open>Callbacks that always return, having served their descriptor or lost interest.\<close>

definition ru_diligent :: "('w \<Rightarrow> nat \<Rightarrow> FDWrapper) \<Rightarrow> 'w Rule \<Rightarrow> bool" where
  "ru_diligent fds r \<longleftrightarrow> (\<forall>w. ru_callback r w = Some (Inr (ru_act r w)) \<and>
     (service_count fds r (ru_act r w) = service_count fds r w \<longrightarrow> \<not> ru_interest r (ru_act r w)))"

text \<open>A rule that the set-up loop keeps.\<close>

definition ru_live :: "('w \<Rightarrow> nat \<Rightarrow> FDWrapper) \<Rightarrow> 'w \<Rightarrow> 'w Rule \<Rightarrow> bool" where
  "ru_live fds w r \<longleftrightarrow> \<not> fw_closed (fds w (ru_fd r)) \<and> \<not> (ru_direction r = In \<and> fw_eof (fds w (ru_fd r)))"

definition el_pollfd :: "('w \<Rightarrow> nat \<Rightarrow> FDWrapper) \<Rightarrow> 'w \<Rightarrow> 'w Rule \<Rightarrow> pollfd" where
  "el_pollfd fds w r = \<lparr>pf_fd = fw_fd (fds w (ru_fd r)),
     pf_events = (if ru_interest r w then direction_events (ru_direction r) else 0), pf_revents = 0\<rparr>"

lemma el_setup_live:
  assumes "list_all (ru_live fds w) rs"
  shows "el_setup fds rs w = Some (Inr (rs, map (el_pollfd fds w) rs, list_ex (\<lambda>r. ru_interest r w) rs, w))"
  using assms by (induction rs) (auto simp: ru_live_def el_pollfd_def Let_def)

text \<open>\<open>rev i\<close>: the events reported for the \<open>i\<close>-th descriptor.\<close>

definition el_ready :: "'w \<Rightarrow> 'w Rule \<Rightarrow> 16 word \<Rightarrow> bool" where
  "el_ready w r revents \<longleftrightarrow> ru_interest r w \<and> revents AND direction_events (ru_direction r) \<noteq> 0"

lemma el_service_quiet:
  assumes "list_all (ru_diligent fds) rs" "length revs = length rs"
    "list_all (\<lambda>e. e AND (POLLERR OR POLLNVAL) = 0 \<and> e AND POLLHUP = 0) revs"
  shows "el_service fds (zip rs (map (\<lambda>(r, e). (el_pollfd fds w0 r)\<lparr>pf_revents := e\<rparr>) (zip rs revs))) w =
    Some (Inr (rs, fold (\<lambda>(r, e). if el_ready w0 r e then ru_act r else id) (zip rs revs) w))"
  using assms
proof (induction rs arbitrary: revs w)
  case (Cons r rs)
  obtain e es where revs: "revs = e # es" using Cons.prems(2) by (cases revs) auto
  have r: "ru_callback r w = Some (Inr (ru_act r w))"
    "service_count fds r w = service_count fds r (ru_act r w) \<longrightarrow> \<not> ru_interest r (ru_act r w)"
    using Cons.prems(1) by (auto simp: ru_diligent_def)
  have e: "e AND (POLLERR OR POLLNVAL) = 0" "e AND POLLHUP = 0" using Cons.prems(3) revs by auto
  have IH: "el_service fds (zip rs (map (\<lambda>(r, e). (el_pollfd fds w0 r)\<lparr>pf_revents := e\<rparr>) (zip rs es))) w1 =
    Some (Inr (rs, fold (\<lambda>(r, e). if el_ready w0 r e then ru_act r else id) (zip rs es) w1))" for w1
    using Cons.IH[of es w1] Cons.prems revs by simp
  show ?case
  proof (cases "el_ready w0 r e")
    case True
    then show ?thesis
      using r e IH[of "ru_act r w"] by (cases "service_count fds r w = service_count fds r (ru_act r w)")
        (simp_all add: revs el_pollfd_def el_ready_def Let_def)
  next
    case False
    then show ?thesis
      using e IH[of w] by (cases "ru_interest r w0") (simp_all add: revs el_pollfd_def el_ready_def Let_def)
  qed
qed simp

lemma pollfds_zip:
  "map (\<lambda>i. (map f rs ! i)\<lparr>pf_revents := revents i\<rparr>) [0..<length (map f rs)] =
    map (\<lambda>(r, e). (f r)\<lparr>pf_revents := e\<rparr>) (zip rs (map revents [0..<length rs]))"
  by (rule nth_equalityI) auto

text \<open>
  C9. Dispatch: when no descriptor has ended or is closed, some rule is interested, every callback is
  diligent and \<open>poll\<close> reports neither errors nor hangups, \<open>wait_next_event\<close> returns \<open>Success\<close>, keeps
  all rules, and its effect is that of the callbacks of those rules that were interested at the start and
  whose direction was reported ready, each once, in the order in which the rules were added.
\<close>

theorem event_loop_dispatch:
  assumes "list_all (ru_live fds w) rules" "list_ex (\<lambda>r. ru_interest r w) rules" "list_all (ru_diligent fds) rules"
    and "0 < sint n" "length revs = length rules"
    and "list_all (\<lambda>e. e AND (POLLERR OR POLLNVAL) = 0 \<and> e AND POLLHUP = 0) revs"
  shows "wait_next_event (\<lambda>_ _. ((n, errno), \<lambda>i. revs ! i)) fds rules timeout_ms w =
    Some (Inr (Success, rules, fold (\<lambda>(r, e). if el_ready w r e then ru_act r else id) (zip rules revs) w))"
proof -
  have revs: "map (\<lambda>i. revs ! i) [0..<length rules] = revs" using assms(5) map_nth by metis
  have n: "n \<noteq> 0" using assms(4) by auto
  show ?thesis
    unfolding wait_next_event_def el_setup_live[OF assms(1)] using assms(2,4) n
    by (simp add: SystemCall_def Let_def pollfds_zip[simplified] revs el_service_quiet[OF assms(3,5,6)])
qed

definition example_rule :: "Direction \<Rightarrow> nat \<Rightarrow> nat Rule" where
  "example_rule d k = \<lparr>ru_fd = 0, ru_direction = d, ru_callback = (\<lambda>w. Some (Inr (10 * w + k))),
     ru_interest = (\<lambda>w. w < 10), ru_cancel = (\<lambda>w. Some (Inr w))\<rparr>"

definition example_fds :: "nat \<Rightarrow> nat \<Rightarrow> FDWrapper" where
  "example_fds w d = \<lparr>fw_fd = 3, fw_eof = False, fw_closed = False,
     fw_read_count = word_of_nat w, fw_write_count = word_of_nat w\<rparr>"

lemma example_rule_diligent:
  assumes "0 < k" "k < 10"
  shows "ru_diligent example_fds (example_rule d k)"
proof -
  have "(word_of_nat (10 * w + k) :: 32 word) \<noteq> word_of_nat w" if "10 * w + k < 10" for w
  proof -
    have "w = 0" using that by simp
    then show ?thesis using assms by (auto simp: word_of_nat_eq_0_iff dest: nat_dvd_not_less)
  qed
  then show ?thesis
    by (auto simp: ru_diligent_def ru_act_def example_rule_def example_fds_def service_count_def)
qed

theorem event_loop_dispatch_witness:
  "wait_next_event (\<lambda>_ _. ((2, 0), \<lambda>i. [POLLIN, 0, POLLOUT] ! i)) example_fds
     [example_rule In 7, example_rule In 8, example_rule Out 9] 10 1 =
   Some (Inr (Success, [example_rule In 7, example_rule In 8, example_rule Out 9], 179))"
proof -
  have "list_all (ru_live example_fds 1) [example_rule In 7, example_rule In 8, example_rule Out 9]"
    by (simp add: ru_live_def example_fds_def)
  moreover have "list_ex (\<lambda>r. ru_interest r 1) [example_rule In 7, example_rule In 8, example_rule Out 9]"
    by (simp add: example_rule_def)
  moreover have "list_all (ru_diligent example_fds) [example_rule In 7, example_rule In 8, example_rule Out 9]"
    by (simp add: example_rule_diligent)
  ultimately show ?thesis
    using event_loop_dispatch[of example_fds 1 "[example_rule In 7, example_rule In 8, example_rule Out 9]" 2
      "[POLLIN, 0, POLLOUT]" 0 10]
    by (simp add: POLLIN_def POLLOUT_def POLLERR_def POLLHUP_def POLLNVAL_def example_rule_def el_ready_def ru_act_def)
qed

text \<open>
  A failure of \<open>poll\<close> other than an interruption is not reported: the exception of \<open>SystemCall\<close> is
  caught and dropped, and with an array that \<open>poll\<close> has left alone \<open>wait_next_event\<close> returns
  \<open>Success\<close> without having called anything.
\<close>

theorem poll_failure_dropped:
  assumes "list_all (ru_live fds w) rules" "list_ex (\<lambda>r. ru_interest r w) rules"
    and "sint n < 0" "errno \<noteq> 0" "errno \<noteq> EINTR"
  shows "wait_next_event (\<lambda>_ _. ((n, errno), \<lambda>_. 0)) fds rules timeout_ms w = Some (Inr (Success, rules, w))"
proof -
  have "el_service fds (zip rs (map (\<lambda>r. (el_pollfd fds w r)\<lparr>pf_revents := 0\<rparr>) rs)) w = Some (Inr (rs, w))" for rs
    by (induction rs) (simp_all add: el_pollfd_def)
  moreover have "map (\<lambda>i. (map (el_pollfd fds w) rules ! i)\<lparr>pf_revents := 0\<rparr>) [0..<length (map (el_pollfd fds w) rules)] =
      map (\<lambda>r. (el_pollfd fds w r)\<lparr>pf_revents := 0\<rparr>) rules" by (rule nth_equalityI) auto
  ultimately show ?thesis
    unfolding wait_next_event_def el_setup_live[OF assms(1)] using assms(2-)
    by (simp add: SystemCall_def Let_def)
qed

text \<open>
  When there is nothing to poll, each rule that is kept was not interested, in a state that differs from
  the first only in what cancellations change.
\<close>

lemma el_setup_uninterested:
  assumes "el_setup fds rs w = Some (Inr (kept, pfds, False, w'))"
    and "\<And>r w w'. r \<in> set rs \<Longrightarrow> ru_cancel r w = Some (Inr w') \<Longrightarrow> f w' = f w"
  shows "f w' = f w \<and> (\<forall>r\<in>set kept. \<exists>w1. f w1 = f w \<and> \<not> ru_interest r w1)"
  using assms
proof (induction rs arbitrary: w kept pfds)
  case (Cons r rs)
  have IH: "f w' = f w1 \<and> (\<forall>r\<in>set ks. \<exists>w2. f w2 = f w1 \<and> \<not> ru_interest r w2)"
    if "el_setup fds rs w1 = Some (Inr (ks, ps, False, w'))" for w1 ks ps
    by (rule Cons.IH[OF that Cons.prems(2)]) simp_all
  show ?case
  proof (cases "ru_direction r = In \<and> fw_eof (fds w (ru_fd r)) \<or> fw_closed (fds w (ru_fd r))")
    case True
    then have "ret_bind (ru_cancel r w) (el_setup fds rs) = Some (Inr (kept, pfds, False, w'))"
      using Cons.prems(1) by (auto split: if_splits)
    then obtain w1 where w1: "ru_cancel r w = Some (Inr w1)" "el_setup fds rs w1 = Some (Inr (kept, pfds, False, w'))"
      by (auto simp: ret_bind_def split: option.splits sum.splits)
    then show ?thesis using IH[OF w1(2)] Cons.prems(2)[of r w w1] by simp
  next
    case False
    then obtain ks ps where ks: "el_setup fds rs w = Some (Inr (ks, ps, False, w'))" "kept = r # ks" "\<not> ru_interest r w"
      using Cons.prems(1) by (auto simp: Let_def ret_bind_def split: option.splits sum.splits prod.splits)
    then show ?thesis using IH[OF ks(1)] by auto
  qed
qed simp

lemma wait_exit_uninterested:
  assumes "wait_next_event poll fds rules timeout_ms w = Some (Inr (Exit, kept, w'))"
    and "\<And>ps t. 0 \<le> sint (fst (fst (poll ps t)))"
    and "\<And>r w w'. r \<in> set rules \<Longrightarrow> ru_cancel r w = Some (Inr w') \<Longrightarrow> f w' = f w"
  shows "f w' = f w \<and> (\<forall>r\<in>set kept. \<exists>w1. f w1 = f w \<and> \<not> ru_interest r w1)"
proof -
  obtain kept' pfds ask w1 where s: "el_setup fds rules w = Some (Inr (kept', pfds, ask, w1))"
    using assms(1) by (auto simp: wait_next_event_def ret_bind_def split: option.splits sum.splits)
  have "\<not> ask" "kept' = kept" "w1 = w'"
    using assms(1) assms(2)[of pfds timeout_ms]
    by (auto simp: wait_next_event_def s SystemCall_def Let_def case_prod_beta ret_bind_def
      split: if_splits option.splits sum.splits)
  then show ?thesis using el_setup_uninterested[of fds rules w kept pfds w' f] s assms(3) by simp
qed

end
