(* ===== verification/Stream_Copy.thy ===== *)
theory Stream_Copy
  imports Byte_Stream Event_Loop
begin

text \<open>
  \<open>bidirectional_stream_copy\<close> (\<open>apps/bidirectional_stream_copy.cc\<close>), the loop of the client
  programs: it copies the standard input to a socket and the socket to the standard output, through
  one byte stream for each direction, with four rules of an event loop.

  The state holds the three descriptors, the two streams and the two flags, and for the statements
  the number of system calls so far and all the bytes read from and written to the descriptors.
\<close>

subsection \<open>State\<close>

record CopyState =
  cp_socket :: FDWrapper
  cp_input :: FDWrapper
  cp_output :: FDWrapper
  cp_outbound :: ByteStream
  cp_inbound :: ByteStream
  cp_outbound_shutdown :: bool
  cp_inbound_shutdown :: bool
  cp_calls :: nat
  cp_from_input :: bytes
  cp_to_socket :: bytes
  cp_from_socket :: bytes
  cp_to_output :: bytes

definition max_copy_length :: u64 where "max_copy_length = 65536"

definition copy_buffer_size :: u64 where "copy_buffer_size = 1048576"

definition STDIN_FILENO :: nat where "STDIN_FILENO = 0"
definition STDOUT_FILENO :: nat where "STDOUT_FILENO = 1"

text \<open>The descriptors by the names that rules use; any other number is the socket.\<close>

definition cp_fds :: "CopyState \<Rightarrow> nat \<Rightarrow> FDWrapper" where
  "cp_fds w d = (if d = STDIN_FILENO then cp_input w else if d = STDOUT_FILENO then cp_output w else cp_socket w)"

definition the_socket :: nat where "the_socket = 3"

subsection \<open>Rules\<close>

text \<open>
  What rules 1 and 3 do: read as much as fits into the stream, and end it at the end of the file.
  The result is the descriptor, the stream and the bytes read.
\<close>

definition fill_stream :: "Kernel \<Rightarrow> nat \<Rightarrow> FDWrapper \<Rightarrow> ByteStream \<Rightarrow> cpp_error + FDWrapper \<times> ByteStream \<times> bytes" where
  "fill_stream K n fd stream =
    (let limit = bs_remaining_capacity stream;
         (sys, stored) = kn_read K n (fw_fd fd) (fd_size_to_read limit) in
     throw_bind (fd_read fd limit sys stored) (\<lambda>(data, fd').
       let stream' = snd (bs_write stream data) in
       Inr (fd', if fw_eof fd' then bs_end_input stream' else stream', data)))"

text \<open>What rules 2 and 4 begin with: write from the stream, and take out what was written.\<close>

definition drain_stream :: "Kernel \<Rightarrow> nat \<Rightarrow> FDWrapper \<Rightarrow> ByteStream \<Rightarrow> cpp_error + FDWrapper \<times> ByteStream \<times> bytes" where
  "drain_stream K n fd stream =
    (let bytes_to_write = min max_copy_length (bs_buffer_size stream) in
     throw_bind (fd_write (\<lambda>i. kn_writev K (n + i) (fw_fd fd)) fd [bs_peek_output stream bytes_to_write] False)
       (\<lambda>(bytes_written, fd', taken). Inr (fd', bs_pop_output stream bytes_written, taken)))"

definition read_input :: "Kernel \<Rightarrow> CopyState \<Rightarrow> cpp_error + CopyState" where
  "read_input K w =
    throw_bind (fill_stream K (cp_calls w) (cp_input w) (cp_outbound w)) (\<lambda>(input, outbound, data).
      Inr (w\<lparr>cp_input := input, cp_outbound := outbound, cp_calls := Suc (cp_calls w),
        cp_from_input := cp_from_input w @ data\<rparr>))"

definition input_interest :: "CopyState \<Rightarrow> bool" where
  "input_interest w \<longleftrightarrow> \<not> bs_error (cp_outbound w) \<and> 0 < bs_remaining_capacity (cp_outbound w) \<and> \<not> bs_error (cp_inbound w)"

definition write_socket :: "Kernel \<Rightarrow> CopyState \<Rightarrow> cpp_error + CopyState" where
  "write_socket K w =
    throw_bind (drain_stream K (cp_calls w) (cp_socket w) (cp_outbound w)) (\<lambda>(socket, outbound, taken).
      let w' = w\<lparr>cp_socket := socket, cp_outbound := outbound, cp_calls := Suc (cp_calls w),
            cp_to_socket := cp_to_socket w @ taken\<rparr> in
      if bs_eof outbound then
        throw_bind (so_shutdown socket SHUT_WR (kn_call K (cp_calls w') (fw_fd socket))) (\<lambda>socket'.
          Inr (w'\<lparr>cp_socket := socket', cp_calls := Suc (cp_calls w'), cp_outbound_shutdown := True\<rparr>))
      else Inr w')"

definition socket_out_interest :: "CopyState \<Rightarrow> bool" where
  "socket_out_interest w \<longleftrightarrow>
    \<not> bs_buffer_empty (cp_outbound w) \<or> bs_eof (cp_outbound w) \<and> \<not> cp_outbound_shutdown w"

definition read_socket :: "Kernel \<Rightarrow> CopyState \<Rightarrow> cpp_error + CopyState" where
  "read_socket K w =
    throw_bind (fill_stream K (cp_calls w) (cp_socket w) (cp_inbound w)) (\<lambda>(socket, inbound, data).
      Inr (w\<lparr>cp_socket := socket, cp_inbound := inbound, cp_calls := Suc (cp_calls w),
        cp_from_socket := cp_from_socket w @ data\<rparr>))"

definition socket_in_interest :: "CopyState \<Rightarrow> bool" where
  "socket_in_interest w \<longleftrightarrow> \<not> bs_error (cp_inbound w) \<and> 0 < bs_remaining_capacity (cp_inbound w) \<and> \<not> bs_error (cp_outbound w)"

definition write_output :: "Kernel \<Rightarrow> CopyState \<Rightarrow> cpp_error + CopyState" where
  "write_output K w =
    throw_bind (drain_stream K (cp_calls w) (cp_output w) (cp_inbound w)) (\<lambda>(out, inbound, taken).
      let w' = w\<lparr>cp_output := out, cp_inbound := inbound, cp_calls := Suc (cp_calls w),
            cp_to_output := cp_to_output w @ taken\<rparr> in
      if bs_eof inbound then
        throw_bind (fw_close out (kn_call K (cp_calls w') (fw_fd out))) (\<lambda>out'.
          Inr (w'\<lparr>cp_output := out', cp_calls := Suc (cp_calls w'), cp_inbound_shutdown := True\<rparr>))
      else Inr w')"

definition output_interest :: "CopyState \<Rightarrow> bool" where
  "output_interest w \<longleftrightarrow>
    \<not> bs_buffer_empty (cp_inbound w) \<or> bs_eof (cp_inbound w) \<and> \<not> cp_inbound_shutdown w"

definition end_outbound :: "CopyState \<Rightarrow> cpp_error + CopyState" where
  "end_outbound w = Inr (w\<lparr>cp_outbound := bs_end_input (cp_outbound w)\<rparr>)"

definition end_inbound :: "CopyState \<Rightarrow> cpp_error + CopyState" where
  "end_inbound w = Inr (w\<lparr>cp_inbound := bs_end_input (cp_inbound w)\<rparr>)"

text \<open>The four rules; none of these callbacks can fail to return.\<close>

definition copy_rules :: "Kernel \<Rightarrow> CopyState Rule list" where
  "copy_rules K =
    (let rules1 = el_add_rule [] STDIN_FILENO In (\<lambda>w. Some (read_input K w)) input_interest (\<lambda>w. Some (end_outbound w));
         rules2 = el_add_rule rules1 the_socket Out (\<lambda>w. Some (write_socket K w)) socket_out_interest (\<lambda>w. Some (end_outbound w));
         rules3 = el_add_rule rules2 the_socket In (\<lambda>w. Some (read_socket K w)) socket_in_interest (\<lambda>w. Some (end_inbound w))
     in el_add_rule rules3 STDOUT_FILENO Out (\<lambda>w. Some (write_output K w)) output_interest (\<lambda>w. Some (end_inbound w)))"

subsection \<open>The program\<close>

type_synonym poller = "pollfd list \<Rightarrow> int \<Rightarrow> sysret \<times> (nat \<Rightarrow> 16 word)"

partial_function (option) copy_loop ::
  "(nat \<Rightarrow> poller) \<Rightarrow> nat \<Rightarrow> CopyState Rule list \<Rightarrow> CopyState \<Rightarrow> (cpp_error + CopyState) option" where
  "copy_loop poll i rules w =
    ret_bind (wait_next_event (poll i) cp_fds rules (-1) w) (\<lambda>x. case x of (res, rules', w') \<Rightarrow>
      if res = Exit then Some (Inr w') else copy_loop poll (Suc i) rules' w')"

definition copy_start :: "FDWrapper \<Rightarrow> cpp_error + CopyState" where
  "copy_start socket =
    throw_bind (fw_new (int STDIN_FILENO)) (\<lambda>input.
    throw_bind (fw_new (int STDOUT_FILENO)) (\<lambda>out.
      Inr \<lparr>cp_socket = socket, cp_input = input, cp_output = out,
        cp_outbound = bs_new copy_buffer_size, cp_inbound = bs_new copy_buffer_size,
        cp_outbound_shutdown = False, cp_inbound_shutdown = False,
        cp_calls = 0, cp_from_input = [], cp_to_socket = [], cp_from_socket = [], cp_to_output = []\<rparr>))"

text \<open>\<open>set_blocking(false)\<close>: two calls.\<close>

definition set_nonblocking :: "Kernel \<Rightarrow> FDWrapper \<Rightarrow> CopyState \<Rightarrow> cpp_error + CopyState" where
  "set_nonblocking K fd w =
    throw_bind (fd_set_blocking (kn_call K (cp_calls w) (fw_fd fd)) (kn_call K (cp_calls w + 1) (fw_fd fd)) False)
      (\<lambda>_. Inr (w\<lparr>cp_calls := cp_calls w + 2\<rparr>))"

definition copy_init :: "Kernel \<Rightarrow> FDWrapper \<Rightarrow> cpp_error + CopyState" where
  "copy_init K socket =
    throw_bind (copy_start socket) (\<lambda>w.
    throw_bind (set_nonblocking K (cp_socket w) w) (\<lambda>w.
    throw_bind (set_nonblocking K (cp_input w) w) (\<lambda>w.
      set_nonblocking K (cp_output w) w)))"

definition bidirectional_stream_copy :: "Kernel \<Rightarrow> (nat \<Rightarrow> poller) \<Rightarrow> FDWrapper \<Rightarrow> (cpp_error + CopyState) option" where
  "bidirectional_stream_copy K poll socket =
    ret_bind (Some (copy_init K socket)) (copy_loop poll 0 (copy_rules K))"

subsection \<open>Nothing is lost or made up\<close>

text \<open>
  The invariant: for each direction, what was read is what was written followed by what the stream
  holds.
\<close>

definition cp_ok :: "CopyState \<Rightarrow> bool" where
  "cp_ok w \<longleftrightarrow> bs_inv (cp_outbound w) \<and> bs_inv (cp_inbound w) \<and>
    cp_to_socket w @ bs_stream (cp_outbound w) = cp_from_input w \<and>
    cp_to_output w @ bs_stream (cp_inbound w) = cp_from_socket w"

lemma fill_stream_ok:
  assumes "kernel_ok K" "bs_inv stream"
  obtains fd' stream' data where "fill_stream K n fd stream = Inr (fd', stream', data)" "bs_inv stream'"
    "bs_stream stream' = bs_stream stream @ data" "fw_read_count fd' = fw_read_count fd + 1"
proof -
  define limit where "limit = bs_remaining_capacity stream"
  define data where "data = snd (kn_read K n (fw_fd fd) (fd_size_to_read limit))"
  define fd' where "fd' = register_read (fd\<lparr>fw_eof := fw_eof fd \<or> 0 < limit \<and> data = []\<rparr>)"
  define stream' where "stream' = snd (bs_write stream data)"
  have "fd_read fd limit (fst (kn_read K n (fw_fd fd) (fd_size_to_read limit))) data = Inr (data, fd')"
    "length data \<le> limit"
    using kernel_read(1)[OF assms(1), where w = fd and limit = limit and n = n and fd = "fw_fd fd"]
      kernel_read(2)[OF assms(1), where limit = limit and n = n and fd = "fw_fd fd"] by (simp_all add: data_def fd'_def)
  then have "fill_stream K n fd stream = Inr (fd', if fw_eof fd' then bs_end_input stream' else stream', data)"
    unfolding fill_stream_def Let_def case_prod_beta limit_def[symmetric] data_def[symmetric] by (simp add: stream'_def)
  moreover have "bs_stream stream' = bs_stream stream @ data" "bs_inv stream'"
    using bs.put_fits(2)[OF assms(2)] bs.put_invar[OF assms(2)] \<open>length data \<le> limit\<close> by (simp_all add: stream'_def limit_def)
  moreover have "fw_read_count fd' = fw_read_count fd + 1" by (simp add: fd'_def register_read_def)
  ultimately show ?thesis
    using that[of fd' "if fw_eof fd' then bs_end_input stream' else stream'" data]
    by (cases "fw_eof fd'") (simp_all add: bs_end_input_def bs_inv_def)
qed

lemma drain_stream_ok:
  assumes "kernel_ok K" "bs_inv stream"
  obtains k where "drain_stream K n fd stream = Inr (register_write fd, bs_pop_output stream k, take k (bs_stream stream))"
proof -
  let ?data = "bs_peek_output stream (min max_copy_length (bs_buffer_size stream))"
  have data: "?data = take (min max_copy_length (bs_buffer_size stream)) (bs_stream stream)"
    using assms(2) by (rule bs.peek_contents)
  then have "length (concat [?data]) < two64" using assms(2) by (auto simp: bs_inv_def)
  then obtain k where k: "fd_write (\<lambda>i. kn_writev K (n + i) (fw_fd fd)) fd [?data] False = Inr (k, register_write fd, take k ?data)"
    "k \<le> length ?data"
    using kernel_write[OF assms(1), of "[?data]" n "fw_fd fd" fd] by auto
  have "take k (take m xs) = take k xs" if "k \<le> length (take m xs)" for m and xs :: bytes
    using that by (simp add: min.absorb1)
  then have "take k ?data = take k (bs_stream stream)" using k(2) unfolding data by blast
  then show ?thesis using that k(1) by (simp add: drain_stream_def Let_def)
qed

lemma copy_rules_eq:
  "copy_rules K =
    [\<lparr>ru_fd = STDIN_FILENO, ru_direction = In, ru_callback = \<lambda>w. Some (read_input K w),
       ru_interest = input_interest, ru_cancel = \<lambda>w. Some (end_outbound w)\<rparr>,
     \<lparr>ru_fd = the_socket, ru_direction = Out, ru_callback = \<lambda>w. Some (write_socket K w),
       ru_interest = socket_out_interest, ru_cancel = \<lambda>w. Some (end_outbound w)\<rparr>,
     \<lparr>ru_fd = the_socket, ru_direction = In, ru_callback = \<lambda>w. Some (read_socket K w),
       ru_interest = socket_in_interest, ru_cancel = \<lambda>w. Some (end_inbound w)\<rparr>,
     \<lparr>ru_fd = STDOUT_FILENO, ru_direction = Out, ru_callback = \<lambda>w. Some (write_output K w),
       ru_interest = output_interest, ru_cancel = \<lambda>w. Some (end_inbound w)\<rparr>]"
  by (simp add: copy_rules_def el_add_rule_def)

lemmas cp_fds_simps = cp_fds_def STDIN_FILENO_def STDOUT_FILENO_def the_socket_def

lemma read_input_ok:
  assumes "kernel_ok K" "cp_ok w"
  shows "\<exists>w'. read_input K w = Inr w' \<and> cp_ok w' \<and> fw_read_count (cp_input w') \<noteq> fw_read_count (cp_input w)"
proof -
  have out: "bs_inv (cp_outbound w)" using assms(2) by (simp add: cp_ok_def)
  obtain fd' stream' data where "fill_stream K (cp_calls w) (cp_input w) (cp_outbound w) = Inr (fd', stream', data)"
    "bs_inv stream'" "bs_stream stream' = bs_stream (cp_outbound w) @ data" "fw_read_count fd' = fw_read_count (cp_input w) + 1"
    using fill_stream_ok[OF assms(1) out] .
  then show ?thesis using assms(2) by (simp add: read_input_def cp_ok_def flip: append_assoc)
qed

lemma read_socket_ok:
  assumes "kernel_ok K" "cp_ok w"
  shows "\<exists>w'. read_socket K w = Inr w' \<and> cp_ok w' \<and> fw_read_count (cp_socket w') \<noteq> fw_read_count (cp_socket w)"
proof -
  have inb: "bs_inv (cp_inbound w)" using assms(2) by (simp add: cp_ok_def)
  obtain fd' stream' data where "fill_stream K (cp_calls w) (cp_socket w) (cp_inbound w) = Inr (fd', stream', data)"
    "bs_inv stream'" "bs_stream stream' = bs_stream (cp_inbound w) @ data" "fw_read_count fd' = fw_read_count (cp_socket w) + 1"
    using fill_stream_ok[OF assms(1) inb] .
  then show ?thesis using assms(2) by (simp add: read_socket_def cp_ok_def flip: append_assoc)
qed

lemma two_more [simp]: "(c :: 32 word) + 1 + 1 \<noteq> c"
proof -
  have "(2 :: 32 word) \<noteq> 0" by simp
  then show ?thesis by (simp add: add.assoc)
qed

lemma write_socket_ok:
  assumes "kernel_ok K" "cp_ok w"
  shows "\<exists>w'. write_socket K w = Inr w' \<and> cp_ok w' \<and> fw_write_count (cp_socket w') \<noteq> fw_write_count (cp_socket w)"
proof -
  have out: "bs_inv (cp_outbound w)" using assms(2) by (simp add: cp_ok_def)
  obtain k where "drain_stream K (cp_calls w) (cp_socket w) (cp_outbound w) =
      Inr (register_write (cp_socket w), bs_pop_output (cp_outbound w) k, take k (bs_stream (cp_outbound w)))"
    using drain_stream_ok[OF assms(1) out] .
  then show ?thesis
    using assms(2) bs.pop_contents[OF out] bs.pop_invar[OF out]
    by (simp add: write_socket_def so_shutdown_def kernel_call[OF assms(1)] cp_ok_def Let_def register_write_def
      SHUT_RD_def SHUT_WR_def)
qed

lemma write_output_ok:
  assumes "kernel_ok K" "cp_ok w"
  shows "\<exists>w'. write_output K w = Inr w' \<and> cp_ok w' \<and> fw_write_count (cp_output w') \<noteq> fw_write_count (cp_output w)"
proof -
  have inb: "bs_inv (cp_inbound w)" using assms(2) by (simp add: cp_ok_def)
  obtain k where "drain_stream K (cp_calls w) (cp_output w) (cp_inbound w) =
      Inr (register_write (cp_output w), bs_pop_output (cp_inbound w) k, take k (bs_stream (cp_inbound w)))"
    using drain_stream_ok[OF assms(1) inb] .
  then show ?thesis
    using assms(2) bs.pop_contents[OF inb] bs.pop_invar[OF inb]
    by (simp add: write_output_def fw_close_def kernel_call[OF assms(1)] cp_ok_def Let_def register_write_def)
qed

lemma cp_ok_end:
  "cp_ok w \<Longrightarrow> \<exists>w'. end_outbound w = Inr w' \<and> cp_ok w'"
  "cp_ok w \<Longrightarrow> \<exists>w'. end_inbound w = Inr w' \<and> cp_ok w'"
  by (simp_all add: end_outbound_def end_inbound_def cp_ok_def bs_end_input_def[abs_def] bs_inv_def)

interpretation copy: event_rules cp_fds "copy_rules K" "\<lambda>w. kernel_ok K \<and> cp_ok w" for K
proof (unfold_locales, goal_cases)
  case (1 r w)
  then show ?case
    using read_input_ok[of K w] write_socket_ok[of K w] read_socket_ok[of K w] write_output_ok[of K w]
    by (auto simp: copy_rules_eq service_count_def cp_fds_simps)
next
  case (2 r w)
  then show ?case using cp_ok_end[of w] by (auto simp: copy_rules_eq)
qed

text \<open>The states between two calls of \<open>wait_next_event\<close>, with any outcomes of \<open>poll\<close>.\<close>

inductive copy_reach :: "Kernel \<Rightarrow> FDWrapper \<Rightarrow> CopyState Rule list \<Rightarrow> CopyState \<Rightarrow> bool" for K socket where
  copy_started: "copy_init K socket = Inr w \<Longrightarrow> copy_reach K socket (copy_rules K) w"
| copy_round: "copy_reach K socket rules w \<Longrightarrow>
    wait_next_event poll cp_fds rules (-1) w = Some (Inr (res, rules', w')) \<Longrightarrow> copy_reach K socket rules' w'"

lemma cp_ok_init:
  assumes "copy_init K socket = Inr w"
  shows "cp_ok w"
proof -
  have "set_nonblocking K fd w = Inr w' \<Longrightarrow> w' = w\<lparr>cp_calls := cp_calls w'\<rparr>" for fd w w'
    by (auto simp: set_nonblocking_def throw_bind_def split: sum.splits)
  then have calls: "set_nonblocking K fd w = Inr w' \<Longrightarrow> cp_ok w \<Longrightarrow> cp_ok w'" for fd w w'
    by (metis (no_types, lifting) CopyState.select_convs CopyState.surjective CopyState.update_convs(8) cp_ok_def)
  have "copy_start socket = Inr w \<Longrightarrow> cp_ok w" for w
    by (auto simp: copy_start_def throw_bind_def cp_ok_def bs_inv_def bs_new_def copy_buffer_size_def two64_def
      split: sum.splits)
  then show ?thesis
    using assms calls by (auto simp: copy_init_def throw_bind_def split: sum.splits)
qed

lemma copy_reach_ok:
  assumes "copy_reach K socket rules w" "kernel_ok K"
  shows "cp_ok w \<and> set rules \<subseteq> set (copy_rules K)"
  using assms
proof (induction rule: copy_reach.induct)
  case (copy_started w)
  then show ?case by (simp add: cp_ok_init)
next
  case (copy_round rules w poll res rules' w')
  then show ?case using copy.wait_ok[of rules K w poll "-1"] by (auto dest: list_emb_set)
qed

text \<open>What the program returns is such a state, so the statements below hold of it.\<close>

lemma copy_loop_reach:
  assumes "copy_loop poll i rules w = Some r" "copy_reach K socket rules w"
  shows "case r of Inl _ \<Rightarrow> True | Inr w' \<Rightarrow> \<exists>rules'. copy_reach K socket rules' w'"
  using assms(2)
proof (induction rule: copy_loop.raw_induct[OF _ assms(1), consumes 0])
  case (1 copy_loop poll i rules w r)
  obtain x where x: "wait_next_event (poll i) cp_fds rules (-1) w = Some x"
    using 1(2) by (cases "wait_next_event (poll i) cp_fds rules (-1) w") auto
  show ?case
  proof (cases x)
    case (Inr y)
    obtain res rules' w' where y: "y = (res, rules', w')" by (cases y)
    then have "copy_reach K socket rules' w'" using copy_round[OF 1(3)] x Inr by blast
    then show ?thesis using 1(1,2) x Inr y by (auto split: if_splits)
  qed (use 1(2) x in auto)
qed

corollary stream_copy_reach:
  assumes "bidirectional_stream_copy K poll socket = Some (Inr w)"
  shows "\<exists>rules. copy_reach K socket rules w"
proof -
  obtain w0 where w0: "copy_init K socket = Inr w0" "copy_loop poll 0 (copy_rules K) w0 = Some (Inr w)"
    using assms by (cases "copy_init K socket") (auto simp: bidirectional_stream_copy_def)
  show ?thesis using copy_loop_reach[OF w0(2) copy_started[OF w0(1)]] by simp
qed

text \<open>
  C15. The copying loop is safe: in every state reached by any number of rounds, with any outcomes of
  \<open>poll\<close> and a kernel whose reads and writes succeed, what was written to the socket is a prefix of
  what was read from the standard input, and what was written to the standard output is a prefix of what
  was read from the socket; and the next round returns, the only exception being the one for an
  error that \<open>poll\<close> reports: the event loop never finds a rule that is busy waiting.
\<close>

theorem stream_copy_safe:
  assumes "kernel_ok K" "copy_reach K socket rules w"
  shows "prefix (cp_to_socket w) (cp_from_input w) \<and> prefix (cp_to_output w) (cp_from_socket w) \<and>
    (\<exists>x. wait_next_event poll cp_fds rules (-1) w = Some x \<and>
      (case x of Inl e \<Rightarrow> e = RuntimeError ''EventLoop: error on polled file descriptor'' | Inr _ \<Rightarrow> True))"
proof -
  have ok: "cp_ok w" "set rules \<subseteq> set (copy_rules K)" using copy_reach_ok[OF assms(2,1)] by auto
  then have "prefix (cp_to_socket w) (cp_from_input w)" "prefix (cp_to_output w) (cp_from_socket w)"
    unfolding cp_ok_def by (metis prefixI)+
  then show ?thesis
    using copy.wait_ok[of rules K w poll "-1"] ok assms(1) by (fastforce split: sum.splits)
qed

text \<open>
  A run with two empty files: in the first round both are read, in the second the socket is shut down and
  the output closed, and in the third nothing is left to do.
\<close>

lemma empty_kernel_fill:
  assumes "0 < bs_remaining_capacity stream"
  shows "fill_stream empty_kernel n fd stream = Inr (register_read (fd\<lparr>fw_eof := True\<rparr>), bs_end_input stream, [])"
proof -
  have "fd_read fd (bs_remaining_capacity stream) (0, 0) [] = Inr ([], register_read (fd\<lparr>fw_eof := True\<rparr>))"
    using fd_read_eq[of "(0, 0)" "[]" "bs_remaining_capacity stream" fd] assms by simp
  then show ?thesis by (simp add: fill_stream_def empty_kernel_def register_read_def bs_write_def)
qed

lemma empty_kernel_drain:
  assumes "bs_stream stream = []" "bs_buffer_size stream = 0"
  shows "drain_stream empty_kernel n fd stream = Inr (register_write fd, bs_pop_output stream 0, [])"
  using assms by (simp add: drain_stream_def empty_kernel_def slow_writev_def bs_peek_output_def fd_write_def
    fd_write_loop.simps SystemCall_def to_size_def u64_add_def)

definition example_socket :: FDWrapper where
  "example_socket = \<lparr>fw_fd = 3, fw_eof = False, fw_closed = False, fw_read_count = 0, fw_write_count = 0\<rparr>"

definition example_stage :: "nat \<Rightarrow> CopyState" where
  "example_stage k =
    (let stream = (bs_new copy_buffer_size)\<lparr>bs_input_ended := 0 < k\<rparr> in
     \<lparr>cp_socket = \<lparr>fw_fd = 3, fw_eof = 0 < k, fw_closed = False, fw_read_count = of_bool (0 < k), fw_write_count = 2 * of_bool (1 < k)\<rparr>,
      cp_input = \<lparr>fw_fd = 0, fw_eof = 0 < k, fw_closed = False, fw_read_count = of_bool (0 < k), fw_write_count = 0\<rparr>,
      cp_output = \<lparr>fw_fd = 1, fw_eof = 1 < k, fw_closed = 1 < k, fw_read_count = 0, fw_write_count = of_bool (1 < k)\<rparr>,
      cp_outbound = stream, cp_inbound = stream, cp_outbound_shutdown = 1 < k, cp_inbound_shutdown = 1 < k,
      cp_calls = [6, 8, 12] ! k, cp_from_input = [], cp_to_socket = [], cp_from_socket = [], cp_to_output = []\<rparr>)"

lemmas example_simps = example_stage_def example_socket_def copy_rules_eq wait_next_event_def cp_fds_simps SystemCall_def
  service_count_def input_interest_def socket_in_interest_def socket_out_interest_def output_interest_def
  bs_new_def bs_remaining_capacity_def bs_eof_def bs_buffer_empty_def bs_end_input_def bs_pop_output_def copy_buffer_size_def
  u64_sub_def u64_add_def two64_def register_read_def register_write_def Let_def
  POLLIN_def POLLOUT_def POLLERR_def POLLHUP_def POLLNVAL_def

lemma example_init: "copy_init empty_kernel example_socket = Inr (example_stage 0)"
  by (simp add: copy_init_def copy_start_def set_nonblocking_def fd_set_blocking_def fw_new_def example_simps empty_kernel_def)

lemma example_round_1:
  "wait_next_event (\<lambda>_ _. ((2, 0), \<lambda>i. [POLLIN, 0, POLLIN, 0] ! i)) cp_fds (copy_rules empty_kernel) (-1) (example_stage 0) =
     Some (Inr (Success, copy_rules empty_kernel, example_stage 1))"
  by (simp add: example_simps read_input_def read_socket_def empty_kernel_fill)

lemma example_round_2:
  "wait_next_event (\<lambda>_ _. ((2, 0), \<lambda>i. [POLLOUT, POLLOUT] ! i)) cp_fds (copy_rules empty_kernel) (-1) (example_stage 1) =
     Some (Inr (Success, [copy_rules empty_kernel ! 1, copy_rules empty_kernel ! 3], example_stage 2))"
  by (simp add: example_simps end_outbound_def end_inbound_def write_socket_def write_output_def empty_kernel_drain
    so_shutdown_def fw_close_def SHUT_RD_def SHUT_WR_def) (simp add: empty_kernel_def)

lemma example_round_3:
  "wait_next_event (\<lambda>_ _. ((0, 0), \<lambda>i. 0)) cp_fds [copy_rules empty_kernel ! 1, copy_rules empty_kernel ! 3] (-1) (example_stage 2) =
     Some (Inr (Exit, [copy_rules empty_kernel ! 1], example_stage 2))"
  by (simp add: example_simps end_inbound_def)

lemma example_copy:
  "bidirectional_stream_copy empty_kernel
     (\<lambda>i _ _. ((2, 0), \<lambda>k. ([[POLLIN, 0, POLLIN, 0], [POLLOUT, POLLOUT]] ! i) ! k)) example_socket = Some (Inr (example_stage 2))"
proof -
  have "wait_next_event p cp_fds [copy_rules empty_kernel ! 1, copy_rules empty_kernel ! 3] (-1) (example_stage 2) =
     Some (Inr (Exit, [copy_rules empty_kernel ! 1], example_stage 2))" for p
    by (simp add: example_simps end_inbound_def)
  then show ?thesis
    unfolding bidirectional_stream_copy_def example_init
    by (simp add: copy_loop.simps[of _ 0] copy_loop.simps[of _ 1] copy_loop.simps[of _ "Suc (Suc 0)"]
      copy_loop.simps[of _ "Suc 0"] example_round_1 example_round_2[unfolded One_nat_def])
qed

lemma example_reach_2:
  "copy_reach empty_kernel example_socket [copy_rules empty_kernel ! 1, copy_rules empty_kernel ! 3] (example_stage 2)"
  using copy_round[OF copy_round[OF copy_started[OF example_init] example_round_1] example_round_2] .

theorem stream_copy_safe_witness:
  "prefix (cp_to_socket (example_stage 2)) (cp_from_input (example_stage 2)) \<and>
   (\<exists>x. wait_next_event (\<lambda>_ _. ((-1, 9), \<lambda>i. POLLERR)) cp_fds
      [copy_rules empty_kernel ! 1, copy_rules empty_kernel ! 3] (-1) (example_stage 2) = Some x)"
  using stream_copy_safe[OF empty_kernel_ok example_reach_2] by blast

text \<open>
  C19. The copying loop is complete: when it ends because nothing is left to poll (not because of a signal),
  and the rule that writes to the socket was not cancelled, everything that was read from the
  standard input has been written to the socket; and if the rule that writes to the standard output
  was not cancelled, everything that was read from the socket has been written there.
\<close>

theorem stream_copy_complete:
  assumes "kernel_ok K" "copy_reach K socket rules w" "\<And>ps t. 0 \<le> sint (fst (fst (poll ps t)))"
    and "wait_next_event poll cp_fds rules (-1) w = Some (Inr (Exit, rules', w'))"
  shows "(copy_rules K ! 1 \<in> set rules' \<longrightarrow> cp_to_socket w' = cp_from_input w') \<and>
    (copy_rules K ! 3 \<in> set rules' \<longrightarrow> cp_to_output w' = cp_from_socket w')"
proof -
  let ?f = "\<lambda>w. (bs_stream (cp_outbound w), bs_stream (cp_inbound w))"
  have rules: "set rules \<subseteq> set (copy_rules K)" using copy_reach_ok[OF assms(2,1)] by blast
  have "copy_reach K socket rules' w'" using copy_round[OF assms(2,4)] .
  then have ok: "cp_ok w'" using copy_reach_ok assms(1) by blast
  have cancel: "?f w2 = ?f w1" if "r \<in> set rules" "ru_cancel r w1 = Some (Inr w2)" for r w1 w2
    using subsetD[OF rules that(1)] that(2)
    by (auto simp: copy_rules_eq end_outbound_def end_inbound_def bs_end_input_def)
  have left: "\<exists>w1. ?f w1 = ?f w' \<and> \<not> ru_interest r w1" if "r \<in> set rules'" for r
    using wait_exit_uninterested[of poll cp_fds rules "-1" w rules' w' ?f, OF assms(4,3) cancel] that by simp
  have "bs_stream (cp_outbound w') = []" if "copy_rules K ! 1 \<in> set rules'"
    using left[OF that] by (auto simp: copy_rules_eq socket_out_interest_def bs_buffer_empty_def)
  moreover have "bs_stream (cp_inbound w') = []" if "copy_rules K ! 3 \<in> set rules'"
    using left[OF that] by (auto simp: copy_rules_eq output_interest_def bs_buffer_empty_def)
  ultimately show ?thesis using ok by (auto simp: cp_ok_def)
qed

theorem stream_copy_complete_witness:
  "copy_rules empty_kernel ! 1 \<in> set [copy_rules empty_kernel ! 1] \<and>
   cp_to_socket (example_stage 2) = cp_from_input (example_stage 2)"
  using stream_copy_complete[OF empty_kernel_ok example_reach_2 _ example_round_3] by simp

end
