(* ===== verification/Sponge_Socket.thy ===== *)
theory Sponge_Socket
  imports TCP_Connection Sender_Correct Tap_Adapter Event_Loop
begin

unbundle bit_operations_syntax

text \<open>
  The socket on top of a connection (\<open>tcp_helpers/tcp_sponge_socket.cc\<close>): the four rules by which
  the event loop moves bytes between the owner of the socket, the \<open>TCPConnection\<close> and the adapter below,
  the loop that runs it and measures time, and the calls that open a connection.

  The class is a template over the adapter; so is the model, which gets the methods of the adapter as
  a record \<open>AdapterOps\<close>. The adapter over a TUN device is one instance, given here. The two threads
  share the pair of connected descriptors and the flag \<open>_abort\<close>; what the owner does is what the
  kernel returns for \<open>_thread_data\<close> and the values of the flag. The text of the messages is left out, but
  not the conversion of the destination to a string that some of them contain, which may throw. The rules of
  the event loop are a member of the socket that outlives a connection; they are an argument of the calls
  that open one.
\<close>

subsection \<open>Adapters\<close>

record 'a AdapterOps =
  ao_read :: "'a \<Rightarrow> (cpp_error + TCPSegment option \<times> 'a) option"
  ao_write :: "'a \<Rightarrow> TCPSegment \<Rightarrow> cpp_error + 'a"
  ao_tick :: "'a \<Rightarrow> u64 \<Rightarrow> (cpp_error + 'a) option"
  ao_config :: "'a \<Rightarrow> FdAdapterConfig"
  ao_set_config :: "'a \<Rightarrow> FdAdapterConfig \<Rightarrow> 'a"
  ao_set_listening :: "'a \<Rightarrow> bool \<Rightarrow> 'a"
  ao_fd :: "'a \<Rightarrow> FDWrapper"

text \<open>\<open>TCPOverIPv4OverTunFdAdapter\<close>, with the number of system calls so far and the datagrams written.\<close>

record TunAdapter =
  ta_base :: FdAdapterBase
  ta_tun :: FDWrapper
  ta_calls :: nat
  ta_written :: "bytes list"

definition size_max :: u64 where
  "size_max = two64 - 1"

definition ta_read :: "Resolver \<Rightarrow> Kernel \<Rightarrow> TunAdapter \<Rightarrow> cpp_error + TCPSegment option \<times> TunAdapter" where
  "ta_read rs K ta =
    (let (sys, stored) = kn_read K (ta_calls ta) (fw_fd (ta_tun ta)) (fd_size_to_read size_max) in
     throw_bind (fd_read (ta_tun ta) size_max sys stored) (\<lambda>(received, tun).
     throw_bind (tun_read rs (ta_base ta) received) (\<lambda>(seg, base).
       Inr (seg, ta\<lparr>ta_base := base, ta_tun := tun, ta_calls := Suc (ta_calls ta)\<rparr>))))"

definition ta_write :: "Resolver \<Rightarrow> Kernel \<Rightarrow> TunAdapter \<Rightarrow> TCPSegment \<Rightarrow> cpp_error + TunAdapter" where
  "ta_write rs K ta seg =
    throw_bind (tun_write rs (ta_base ta) seg) (\<lambda>(seg', data).
    throw_bind (fd_write (\<lambda>i. kn_writev K (ta_calls ta + i) (fw_fd (ta_tun ta))) (ta_tun ta) [data] True)
      (\<lambda>(total_bytes_written, tun, taken).
        Inr (ta\<lparr>ta_tun := tun, ta_calls := ta_calls ta + Suc total_bytes_written, ta_written := ta_written ta @ [taken]\<rparr>)))"

definition tun_ops :: "Resolver \<Rightarrow> Kernel \<Rightarrow> TunAdapter AdapterOps" where
  "tun_ops rs K =
    \<lparr>ao_read = \<lambda>ta. Some (ta_read rs K ta), ao_write = ta_write rs K, ao_tick = \<lambda>ta _. Some (Inr ta),
     ao_config = \<lambda>ta. ab_cfg (ta_base ta), ao_set_config = \<lambda>ta cfg. ta\<lparr>ta_base := (ta_base ta)\<lparr>ab_cfg := cfg\<rparr>\<rparr>,
     ao_set_listening = \<lambda>ta l. ta\<lparr>ta_base := ab_set_listening (ta_base ta) l\<rparr>, ao_fd = ta_tun\<rparr>"

subsection \<open>State\<close>

record 'a TCPSpongeSocket =
  sp_socket :: FDWrapper
  sp_thread_data :: FDWrapper
  sp_datagram_adapter :: 'a
  sp_tcp :: "TCPConnection option"
  sp_inbound_shutdown :: bool
  sp_outbound_shutdown :: bool
  sp_fully_acked :: bool
  sp_calls :: nat
  sp_from_owner :: bytes
  sp_to_owner :: bytes

definition TCP_TICK_MS :: int where "TCP_TICK_MS = 10"

definition adapter_id :: nat where "adapter_id = 0"
definition thread_data_id :: nat where "thread_data_id = 1"

definition sp_fds :: "'a AdapterOps \<Rightarrow> 'a TCPSpongeSocket \<Rightarrow> nat \<Rightarrow> FDWrapper" where
  "sp_fds ops w d = (if d = adapter_id then ao_fd ops (sp_datagram_adapter w) else sp_thread_data w)"

definition sp_new :: "FDWrapper \<Rightarrow> FDWrapper \<Rightarrow> 'a \<Rightarrow> 'a TCPSpongeSocket" where
  "sp_new first second datagram_interface =
    \<lparr>sp_socket = first, sp_thread_data = second, sp_datagram_adapter = datagram_interface, sp_tcp = None,
     sp_inbound_shutdown = False, sp_outbound_shutdown = False, sp_fully_acked = False,
     sp_calls = 0, sp_from_owner = [], sp_to_owner = []\<rparr>"

text \<open>Using \<open>_tcp\<close> while it is empty: \<open>value()\<close> throws.\<close>

definition with_tcp :: "'a TCPSpongeSocket \<Rightarrow> (TCPConnection \<Rightarrow> (cpp_error + 'b) option) \<Rightarrow> (cpp_error + 'b) option" where
  "with_tcp w f = (case sp_tcp w of None \<Rightarrow> Some (Inl (RuntimeError ''bad optional access'')) | Some tc \<Rightarrow> f tc)"

text \<open>The result of a method of the connection, \<open>None\<close> when it does not return.\<close>

definition returning :: "'b option \<Rightarrow> (cpp_error + 'b) option" where
  "returning x = map_option Inr x"

definition tc_inbound_stream :: "TCPConnection \<Rightarrow> ByteStream" where
  "tc_inbound_stream tc = tr_stream_out (tc_receiver tc)"

definition tc_set_inbound :: "TCPConnection \<Rightarrow> ByteStream \<Rightarrow> TCPConnection" where
  "tc_set_inbound tc s = tc\<lparr>tc_receiver := (tc_receiver tc)\<lparr>tr_reassembler :=
     (tr_reassembler (tc_receiver tc))\<lparr>sr_output := s\<rparr>\<rparr>\<rparr>"

subsection \<open>The four rules\<close>

text \<open>The address of the peer in a message.\<close>

definition show_destination :: "Resolver \<Rightarrow> 'a AdapterOps \<Rightarrow> 'a \<Rightarrow> (cpp_error + string) option" where
  "show_destination rs ops adapter = Some (ad_to_string rs (fa_destination (ao_config ops adapter)))"

text \<open>Rule 1: a datagram has arrived.\<close>

definition sp_receive :: "Resolver \<Rightarrow> 'a AdapterOps \<Rightarrow> 'a TCPSpongeSocket \<Rightarrow> (cpp_error + 'a TCPSpongeSocket) option" where
  "sp_receive rs ops w =
    ret_bind (ao_read ops (sp_datagram_adapter w)) (\<lambda>(seg, adapter).
    with_tcp w (\<lambda>tc.
    ret_bind (case seg of None \<Rightarrow> Some (Inr tc) | Some s \<Rightarrow> returning (tc_segment_received tc s)) (\<lambda>tc'.
      let w' = w\<lparr>sp_datagram_adapter := adapter, sp_tcp := Some tc'\<rparr> in
      if fw_eof (sp_thread_data w) \<and> tc_bytes_in_flight tc' = 0 \<and> \<not> sp_fully_acked w then
        ret_bind (show_destination rs ops adapter) (\<lambda>_. Some (Inr (w'\<lparr>sp_fully_acked := True\<rparr>)))
      else Some (Inr w'))))"

definition receive_interest :: "'a TCPSpongeSocket \<Rightarrow> bool" where
  "receive_interest w \<longleftrightarrow> (case sp_tcp w of None \<Rightarrow> False | Some tc \<Rightarrow> tc_active tc)"

text \<open>Rule 2: the owner has written.\<close>

definition sp_accept_data :: "Resolver \<Rightarrow> 'a AdapterOps \<Rightarrow> Kernel \<Rightarrow> 'a TCPSpongeSocket \<Rightarrow> (cpp_error + 'a TCPSpongeSocket) option" where
  "sp_accept_data rs ops K w =
    with_tcp w (\<lambda>tc.
      let limit = tc_remaining_outbound_capacity tc;
          (sys, stored) = kn_read K (sp_calls w) (fw_fd (sp_thread_data w)) (fd_size_to_read limit) in
      ret_bind (Some (fd_read (sp_thread_data w) limit sys stored)) (\<lambda>(data, thread_data).
      ret_bind (returning (tc_write tc data)) (\<lambda>(amount_written, tc').
        if amount_written \<noteq> length data then
          Some (Inl (RuntimeError ''TCPConnection::write() accepted less than advertised length''))
        else
          let w' = w\<lparr>sp_thread_data := thread_data, sp_tcp := Some tc', sp_calls := Suc (sp_calls w),
                sp_from_owner := sp_from_owner w @ data\<rparr> in
          if fw_eof thread_data then
            ret_bind (returning (tc_end_input_stream tc')) (\<lambda>tc''.
            ret_bind (show_destination rs ops (sp_datagram_adapter w)) (\<lambda>_.
              Some (Inr (w'\<lparr>sp_tcp := Some tc'', sp_outbound_shutdown := True\<rparr>))))
          else Some (Inr w'))))"

definition accept_interest :: "'a TCPSpongeSocket \<Rightarrow> bool" where
  "accept_interest w \<longleftrightarrow> (case sp_tcp w of None \<Rightarrow> False
     | Some tc \<Rightarrow> tc_active tc \<and> \<not> sp_outbound_shutdown w \<and> 0 < tc_remaining_outbound_capacity tc)"

definition accept_cancel :: "'a TCPSpongeSocket \<Rightarrow> (cpp_error + 'a TCPSpongeSocket) option" where
  "accept_cancel w =
    with_tcp w (\<lambda>tc. ret_bind (returning (tc_end_input_stream tc)) (\<lambda>tc'.
      Some (Inr (w\<lparr>sp_tcp := Some tc', sp_outbound_shutdown := True\<rparr>))))"

text \<open>Rule 3: bytes for the owner have been reassembled.\<close>

definition sp_deliver :: "Resolver \<Rightarrow> 'a AdapterOps \<Rightarrow> Kernel \<Rightarrow> 'a TCPSpongeSocket \<Rightarrow> (cpp_error + 'a TCPSpongeSocket) option" where
  "sp_deliver rs ops K w =
    with_tcp w (\<lambda>tc.
      let inbound = tc_inbound_stream tc;
          amount_to_write = min 65536 (bs_buffer_size inbound);
          buffer = bs_peek_output inbound amount_to_write in
      ret_bind (Some (fd_write (\<lambda>i. kn_writev K (sp_calls w + i) (fw_fd (sp_thread_data w))) (sp_thread_data w) [buffer] False))
        (\<lambda>(bytes_written, thread_data, taken).
        let inbound' = bs_pop_output inbound bytes_written;
            w' = w\<lparr>sp_thread_data := thread_data, sp_tcp := Some (tc_set_inbound tc inbound'),
              sp_calls := Suc (sp_calls w), sp_to_owner := sp_to_owner w @ taken\<rparr> in
        if bs_eof inbound' \<or> bs_error inbound' then
          ret_bind (Some (so_shutdown thread_data SHUT_WR (kn_call K (sp_calls w') (fw_fd thread_data)))) (\<lambda>thread_data'.
          ret_bind (show_destination rs ops (sp_datagram_adapter w)) (\<lambda>_.
            Some (Inr (w'\<lparr>sp_thread_data := thread_data', sp_calls := Suc (sp_calls w'), sp_inbound_shutdown := True\<rparr>))))
        else Some (Inr w')))"

definition deliver_interest :: "'a TCPSpongeSocket \<Rightarrow> bool" where
  "deliver_interest w \<longleftrightarrow> (case sp_tcp w of None \<Rightarrow> False
     | Some tc \<Rightarrow> \<not> bs_buffer_empty (tc_inbound_stream tc) \<or>
         (bs_eof (tc_inbound_stream tc) \<or> bs_error (tc_inbound_stream tc)) \<and> \<not> sp_inbound_shutdown w)"

text \<open>Rule 4: the connection has segments to send.\<close>

fun send_all :: "'a AdapterOps \<Rightarrow> 'a \<Rightarrow> TCPSegment list \<Rightarrow> cpp_error + 'a" where
  "send_all ops adapter [] = Inr adapter"
| "send_all ops adapter (seg # segs) = throw_bind (ao_write ops adapter seg) (\<lambda>a. send_all ops a segs)"

definition sp_send :: "'a AdapterOps \<Rightarrow> 'a TCPSpongeSocket \<Rightarrow> (cpp_error + 'a TCPSpongeSocket) option" where
  "sp_send ops w =
    with_tcp w (\<lambda>tc. ret_bind (Some (send_all ops (sp_datagram_adapter w) (tc_segments_out tc))) (\<lambda>adapter.
      Some (Inr (w\<lparr>sp_datagram_adapter := adapter, sp_tcp := Some (tc\<lparr>tc_segments_out := []\<rparr>)\<rparr>))))"

definition send_interest :: "'a TCPSpongeSocket \<Rightarrow> bool" where
  "send_interest w \<longleftrightarrow> (case sp_tcp w of None \<Rightarrow> False | Some tc \<Rightarrow> tc_segments_out tc \<noteq> [])"

definition no_cancel :: "'w \<Rightarrow> (cpp_error + 'w) option" where
  "no_cancel w = Some (Inr w)"

definition sp_rules :: "Resolver \<Rightarrow> 'a AdapterOps \<Rightarrow> Kernel \<Rightarrow> 'a TCPSpongeSocket Rule list \<Rightarrow> 'a TCPSpongeSocket Rule list" where
  "sp_rules rs ops K rules =
    (let rules1 = el_add_rule rules adapter_id In (sp_receive rs ops) receive_interest no_cancel;
         rules2 = el_add_rule rules1 thread_data_id In (sp_accept_data rs ops K) accept_interest accept_cancel;
         rules3 = el_add_rule rules2 thread_data_id Out (sp_deliver rs ops K) deliver_interest no_cancel
     in el_add_rule rules3 adapter_id Out (sp_send ops) send_interest no_cancel)"

definition sp_initialize_TCP ::
  "Resolver \<Rightarrow> 'a AdapterOps \<Rightarrow> Kernel \<Rightarrow> 32 word \<Rightarrow> TCPConfig \<Rightarrow> 'a TCPSpongeSocket Rule list \<Rightarrow> 'a TCPSpongeSocket \<Rightarrow>
    'a TCPSpongeSocket Rule list \<times> 'a TCPSpongeSocket" where
  "sp_initialize_TCP rs ops K random config rules w = (sp_rules rs ops K rules, w\<lparr>sp_tcp := Some (tc_new random config)\<rparr>)"

subsection \<open>The loop and its callers\<close>

text \<open>
  What the loop gets from outside, by round: the outcome of \<open>poll\<close>, the time in milliseconds and
  whether the owner has set \<open>_abort\<close>.
\<close>

record Outside =
  os_poll :: "nat \<Rightarrow> pollfd list \<Rightarrow> int \<Rightarrow> sysret \<times> (nat \<Rightarrow> 16 word)"
  os_clock :: "nat \<Rightarrow> u64"
  os_abort :: "nat \<Rightarrow> bool"

definition sp_tick :: "'a AdapterOps \<Rightarrow> u64 \<Rightarrow> 'a TCPSpongeSocket \<Rightarrow> (cpp_error + 'a TCPSpongeSocket) option" where
  "sp_tick ops ms w =
    with_tcp w (\<lambda>tc. ret_bind (returning (tc_tick tc ms)) (\<lambda>tc'.
      ret_bind (ao_tick ops (sp_datagram_adapter w) ms) (\<lambda>adapter.
        Some (Inr (w\<lparr>sp_tcp := Some tc', sp_datagram_adapter := adapter\<rparr>)))))"

partial_function (option) sp_tcp_loop ::
  "'a AdapterOps \<Rightarrow> Outside \<Rightarrow> ('a TCPSpongeSocket \<Rightarrow> bool) \<Rightarrow> nat \<Rightarrow> u64 \<Rightarrow> 'a TCPSpongeSocket Rule list \<Rightarrow>
    'a TCPSpongeSocket \<Rightarrow> (cpp_error + nat \<times> 'a TCPSpongeSocket Rule list \<times> 'a TCPSpongeSocket) option" where
  "sp_tcp_loop ops os condition i base_time rules w =
    (if \<not> condition w then Some (Inr (i, rules, w))
     else ret_bind (wait_next_event (os_poll os i) (sp_fds ops) rules TCP_TICK_MS w) (\<lambda>x. case x of (ret, rules', w') \<Rightarrow>
       if ret = Exit \<or> os_abort os i then Some (Inr (Suc i, rules', w'))
       else ret_bind (with_tcp w' (\<lambda>tc. Some (Inr (tc_active tc)))) (\<lambda>active.
         if active then
           ret_bind (sp_tick ops (u64_sub (os_clock os i) base_time) w') (\<lambda>w''.
             sp_tcp_loop ops os condition (Suc i) (os_clock os i) rules' w'')
         else sp_tcp_loop ops os condition (Suc i) base_time rules' w')))"

definition in_state :: "State list \<Rightarrow> 'a TCPSpongeSocket \<Rightarrow> bool" where
  "in_state ss w \<longleftrightarrow> (case sp_tcp w of None \<Rightarrow> False
     | Some tc \<Rightarrow> list_ex (\<lambda>s. st_equal (tc_state tc) (st_of_state s)) ss)"

text \<open>\<open>rules\<close> are those that the event loop already holds, from an earlier connection of the socket.\<close>

definition sp_connect ::
  "Resolver \<Rightarrow> 'a AdapterOps \<Rightarrow> Kernel \<Rightarrow> Outside \<Rightarrow> 32 word \<Rightarrow> u64 \<Rightarrow> TCPConfig \<Rightarrow> FdAdapterConfig \<Rightarrow>
    'a TCPSpongeSocket Rule list \<Rightarrow> 'a TCPSpongeSocket \<Rightarrow>
    (cpp_error + nat \<times> 'a TCPSpongeSocket Rule list \<times> 'a TCPSpongeSocket) option" where
  "sp_connect rs ops K os random base_time c_tcp c_ad rules w =
    (if sp_tcp w \<noteq> None then Some (Inl (RuntimeError ''connect() with TCPConnection already initialized''))
     else
       let (rules1, w1) = sp_initialize_TCP rs ops K random c_tcp rules w;
           w2 = w1\<lparr>sp_datagram_adapter := ao_set_config ops (sp_datagram_adapter w1) c_ad\<rparr> in
       ret_bind (Some (ad_to_string rs (fa_destination c_ad))) (\<lambda>_.
       with_tcp w2 (\<lambda>tc. ret_bind (returning (tc_connect tc)) (\<lambda>tc'.
         if \<not> st_equal (tc_state tc') (st_of_state SYN_SENT) then
           Some (Inl (RuntimeError (''After TCPConnection::connect(), state was '' @ st_name (tc_state tc') @
             '' but expected '' @ st_name (st_of_state SYN_SENT))))
         else
           ret_bind (sp_tcp_loop ops os (in_state [SYN_SENT]) 0 base_time rules1 (w2\<lparr>sp_tcp := Some tc'\<rparr>)) (\<lambda>result.
           ret_bind (Some (ad_to_string rs (fa_destination c_ad))) (\<lambda>_. Some (Inr result)))))))"

definition sp_listen_and_accept ::
  "Resolver \<Rightarrow> 'a AdapterOps \<Rightarrow> Kernel \<Rightarrow> Outside \<Rightarrow> 32 word \<Rightarrow> u64 \<Rightarrow> TCPConfig \<Rightarrow> FdAdapterConfig \<Rightarrow>
    'a TCPSpongeSocket Rule list \<Rightarrow> 'a TCPSpongeSocket \<Rightarrow>
    (cpp_error + nat \<times> 'a TCPSpongeSocket Rule list \<times> 'a TCPSpongeSocket) option" where
  "sp_listen_and_accept rs ops K os random base_time c_tcp c_ad rules w =
    (if sp_tcp w \<noteq> None then Some (Inl (RuntimeError ''listen_and_accept() with TCPConnection already initialized''))
     else
       let (rules1, w1) = sp_initialize_TCP rs ops K random c_tcp rules w;
           adapter = ao_set_listening ops (ao_set_config ops (sp_datagram_adapter w1) c_ad) True in
       ret_bind (sp_tcp_loop ops os (in_state [LISTEN, SYN_RCVD, SYN_SENT]) 0 base_time rules1
           (w1\<lparr>sp_datagram_adapter := adapter\<rparr>)) (\<lambda>(i, rules2, w2).
       ret_bind (show_destination rs ops (sp_datagram_adapter w2)) (\<lambda>_. Some (Inr (i, rules2, w2)))))"

text \<open>
  The thread of the connection: the loop until it ends, then the owner's end is shut down and the
  connection destroyed. The rules stay in the event loop.
\<close>

definition sp_tcp_main ::
  "'a AdapterOps \<Rightarrow> Kernel \<Rightarrow> Outside \<Rightarrow> nat \<Rightarrow> u64 \<Rightarrow> 'a TCPSpongeSocket Rule list \<Rightarrow> 'a TCPSpongeSocket \<Rightarrow>
    (cpp_error + 'a TCPSpongeSocket Rule list \<times> 'a TCPSpongeSocket) option" where
  "sp_tcp_main ops K os i base_time rules w =
    (if sp_tcp w = None then Some (Inl (RuntimeError ''no TCP''))
     else ret_bind (sp_tcp_loop ops os (\<lambda>_. True) i base_time rules w) (\<lambda>(i', rules', w1).
       ret_bind (Some (so_shutdown (sp_socket w1) SHUT_RDWR (kn_call K (sp_calls w1) (fw_fd (sp_socket w1))))) (\<lambda>socket.
       with_tcp w1 (\<lambda>tc. ret_bind (returning (tc_destroy tc)) (\<lambda>_.
         Some (Inr (rules', w1\<lparr>sp_socket := socket, sp_calls := Suc (sp_calls w1), sp_tcp := None\<rparr>)))))))"

subsection \<open>Addresses of the stacks\<close>

text \<open>\<open>random_device\<close>: the six numbers it yields.\<close>

definition random_private_ethernet_address :: "32 word list \<Rightarrow> bytes" where
  "random_private_ethernet_address random =
    (let addr = map ucast (take 6 random); addr1 = addr[0 := addr ! 0 OR 0x02] in addr1[0 := addr1 ! 0 AND 0xfe])"

definition LOCAL_TAP_IP_ADDRESS :: string where
  "LOCAL_TAP_IP_ADDRESS = ''169.254.10.9''"

definition LOCAL_TAP_NEXT_HOP_ADDRESS :: string where
  "LOCAL_TAP_NEXT_HOP_ADDRESS = ''169.254.10.1''"

text \<open>\<open>connect\<close> of the two classes for applications: a short timeout, a fixed source address and a random port.\<close>

definition connect_from ::
  "string \<Rightarrow> Resolver \<Rightarrow> 'a AdapterOps \<Rightarrow> Kernel \<Rightarrow> Outside \<Rightarrow> 32 word \<Rightarrow> 32 word \<Rightarrow> u64 \<Rightarrow> Address \<Rightarrow>
    'a TCPSpongeSocket Rule list \<Rightarrow> 'a TCPSpongeSocket \<Rightarrow>
    (cpp_error + nat \<times> 'a TCPSpongeSocket Rule list \<times> 'a TCPSpongeSocket) option" where
  "connect_from host rs ops K os port random base_time address rules w =
    ret_bind (Some (ab_new rs)) (\<lambda>base.
    ret_bind (Some (ad_of_host rs host (dec_string (unat (ucast port :: 16 word))))) (\<lambda>source.
      sp_connect rs ops K os random base_time (cfg_default\<lparr>cfg_rt_timeout := 100\<rparr>)
        ((ab_cfg base)\<lparr>fa_source := source, fa_destination := address\<rparr>) rules w))"

definition cs144_connect ::
  "Resolver \<Rightarrow> TunAdapter AdapterOps \<Rightarrow> Kernel \<Rightarrow> Outside \<Rightarrow> 32 word \<Rightarrow> 32 word \<Rightarrow> u64 \<Rightarrow> Address \<Rightarrow>
    TunAdapter TCPSpongeSocket Rule list \<Rightarrow> TunAdapter TCPSpongeSocket \<Rightarrow>
    (cpp_error + nat \<times> TunAdapter TCPSpongeSocket Rule list \<times> TunAdapter TCPSpongeSocket) option" where
  "cs144_connect = connect_from ''169.254.144.9''"

definition full_stack_connect ::
  "Resolver \<Rightarrow> TapAdapter AdapterOps \<Rightarrow> Kernel \<Rightarrow> Outside \<Rightarrow> 32 word \<Rightarrow> 32 word \<Rightarrow> u64 \<Rightarrow> Address \<Rightarrow>
    TapAdapter TCPSpongeSocket Rule list \<Rightarrow> TapAdapter TCPSpongeSocket \<Rightarrow>
    (cpp_error + nat \<times> TapAdapter TCPSpongeSocket Rule list \<times> TapAdapter TCPSpongeSocket) option" where
  "full_stack_connect = connect_from LOCAL_TAP_IP_ADDRESS"

subsection \<open>The bytes a connection has accepted\<close>

text \<open>\<open>w\<close> is what was written to the stream of the connection's sender, in a state it can reach.\<close>

definition tc_accepted :: "bytes \<Rightarrow> TCPConnection \<Rightarrow> bool" where
  "tc_accepted w tc \<longleftrightarrow> (\<exists>L j. tx_good w L j (tc_sender tc))"

lemma tc_accepted_sender: "tc_sender tc' = tc_sender tc \<Longrightarrow> tc_accepted w tc' = tc_accepted w tc"
  by (simp add: tc_accepted_def)

lemma tc_accepted_new: "cfg_send_capacity cfg < two64 \<Longrightarrow> tc_accepted [] (tc_new rnd cfg)"
  by (auto simp: tc_accepted_def tc_new_def intro: tx_good_new)

lemma tx_good_emptied: "tx_good w L j tx \<Longrightarrow> tx_good w L j (tx\<lparr>tx_segments_out := []\<rparr>)"
  by (simp add: tx_good_def tx_queue_def tx_settled_def tx_contents_def)

lemma tx_good_error: "tx_good w L j tx \<Longrightarrow> tx_good w L j (tx\<lparr>tx_stream := bs_set_error (tx_stream tx)\<rparr>)"
  by (simp add: tx_good_def tx_queue_def tx_settled_def tx_contents_def bs_set_error_def bs_inv_def)

lemma tc_accepted_emptied:
  assumes "tx_good w L j tx"
  shows "tc_accepted w (snd (tc_send_segments_out (tc\<lparr>tc_sender := tx\<rparr>)))"
  using tx_good_emptied[OF assms] unfolding tc_accepted_def tc_send_eq by auto

lemma tc_accepted_fill:
  assumes "tc_accepted w tc" "length w < 2 ^ 62"
  obtains b tc' where "tc_fill_and_send tc = Some (b, tc')" "tc_accepted w tc'"
proof -
  obtain L j where good: "tx_good w L j (tc_sender tc)" using assms(1) by (auto simp: tc_accepted_def)
  obtain tx' M where "tx_fill_window (tc_sender tc) = Some tx'" "tx_good w (L @ M) j tx'"
    using tx_fill_window_good[OF good assms(2)] by blast
  then show ?thesis
    using that[of "fst (tc_send_segments_out (tc\<lparr>tc_sender := tx'\<rparr>))" "snd (tc_send_segments_out (tc\<lparr>tc_sender := tx'\<rparr>))"]
      tc_accepted_emptied by (simp add: tc_fill_and_send_def)
qed

lemma tc_accepted_write:
  assumes "tc_accepted w tc" "length (w @ d) < 2 ^ 62" "length d \<le> tc_remaining_outbound_capacity tc"
  obtains tc' where "tc_write tc d = Some (length d, tc')" "tc_accepted (w @ d) tc'"
proof (cases "d = []")
  case True
  then show ?thesis using that[of tc] assms(1) by (simp add: tc_write_def)
next
  case False
  obtain L j where good: "tx_good w L j (tc_sender tc)" using assms(1) by (auto simp: tc_accepted_def)
  then have inv: "bs_inv (tx_stream (tc_sender tc))" by (simp add: tx_good_def tx_contents_def)
  obtain n s' where ws: "bs_write (tx_stream (tc_sender tc)) d = (n, s')" by (metis prod.exhaust)
  then have n: "n = length d"
    using bs.put_fits(1)[OF inv, of d] assms(3) by (simp add: tc_remaining_outbound_capacity_def)
  let ?tc = "tc\<lparr>tc_sender := (tc_sender tc)\<lparr>tx_stream := s'\<rparr>\<rparr>"
  have "tc_accepted (w @ d) ?tc" using tx_write_good(1)[OF good ws] n by (auto simp: tc_accepted_def)
  then obtain b tc' where "tc_fill_and_send ?tc = Some (b, tc')" "tc_accepted (w @ d) tc'"
    using assms(2) by (rule tc_accepted_fill)
  then show ?thesis using that ws n False by (simp add: tc_write_def)
qed

lemma tc_accepted_end:
  assumes "tc_accepted w tc" "length w < 2 ^ 62"
  obtains tc' where "tc_end_input_stream tc = Some tc'" "tc_accepted w tc'"
proof -
  let ?tc = "tc\<lparr>tc_sender := (tc_sender tc)\<lparr>tx_stream := bs_end_input (tx_stream (tc_sender tc))\<rparr>\<rparr>"
  have "tc_accepted w ?tc" using assms(1) by (auto simp: tc_accepted_def dest: tx_end_good)
  then obtain b tc' where "tc_fill_and_send ?tc = Some (b, tc')" "tc_accepted w tc'"
    using assms(2) by (rule tc_accepted_fill)
  then show ?thesis using that by (simp add: tc_end_input_stream_def)
qed

lemma tc_accepted_ack:
  assumes "tc_accepted w tc" "length w < 2 ^ 62" "tc_handle_ack tc seg = Some tc'"
  shows "tc_accepted w tc'"
proof (cases "th_ack (ts_header seg)")
  case True
  obtain L j where good: "tx_good w L j (tc_sender tc)" using assms(1) by (auto simp: tc_accepted_def)
  obtain tx' M j' where "tx_ack_received (tc_sender tc) (th_ackno (ts_header seg)) (th_win (ts_header seg)) = Some tx'"
    "tx_good w (L @ M) j' tx'"
    using tx_ack_received_good[OF good assms(2)] by blast
  then show ?thesis using assms(3) True tc_accepted_emptied by (auto simp: tc_handle_ack_def)
qed (use assms in \<open>simp add: tc_handle_ack_def\<close>)

lemma tc_accepted_reply:
  assumes "tc_accepted w tc" "length w < 2 ^ 62" "tc_reply tc seg = Some tc'"
  shows "tc_accepted w tc'"
proof (cases "0 < ts_length_in_sequence_space seg")
  case True
  obtain b tc1 where f: "tc_fill_and_send tc = Some (b, tc1)" "tc_accepted w tc1"
    using assms(1,2) by (rule tc_accepted_fill)
  obtain L j where "tx_good w L j (tc_sender tc1)" using f(2) by (auto simp: tc_accepted_def)
  then have "tc_accepted w (snd (tc_send_segments_out (tc1\<lparr>tc_sender := tx_send_empty_segment (tc_sender tc1)\<rparr>)))"
    by (intro tc_accepted_emptied tx_empty_good)
  then show ?thesis using assms(3) True f by (auto simp: tc_reply_def split: if_splits)
qed (use assms in \<open>simp add: tc_reply_def\<close>)

lemma tc_accepted_received:
  assumes "tc_accepted w tc" "length w < 2 ^ 62" "tc_segment_received tc seg = Some tc'"
  shows "tc_accepted w tc'"
proof (cases "th_rst (ts_header seg)")
  case True
  then have "tc_sender tc' = (tc_sender tc)\<lparr>tx_stream := bs_set_error (tx_stream (tc_sender tc))\<rparr>"
    using assms(3) by (auto simp: tc_segment_received_def tc_set_errors_def Let_def)
  then show ?thesis using assms(1) tx_good_error unfolding tc_accepted_def by metis
next
  case False
  define tc0 where "tc0 = tc\<lparr>tc_last_tick_time := 0\<rparr>"
  obtain rx where rx: "tr_segment_received (tc_receiver tc0) seg = Some rx"
    using assms(3) False by (auto simp: tc_segment_received_def Let_def tc0_def split: option.splits)
  define tc1 where "tc1 = tc0\<lparr>tc_receiver := rx\<rparr>"
  define tc2 where "tc2 = (if tc_check_inbound_ended tc1 \<and> \<not> bs_eof (tx_stream (tc_sender tc1))
    then tc1\<lparr>tc_linger := False\<rparr> else tc1)"
  have "(case tc_handle_ack tc2 seg of None \<Rightarrow> None | Some tc3 \<Rightarrow> tc_reply tc3 seg) = Some tc'"
    using assms(3) False rx unfolding tc_segment_received_def Let_def tc0_def[symmetric] tc1_def tc2_def by simp
  then obtain tc3 where tc3: "tc_handle_ack tc2 seg = Some tc3" "tc_reply tc3 seg = Some tc'"
    by (auto split: option.splits)
  have "tc_sender tc2 = tc_sender tc" by (simp add: tc2_def tc1_def tc0_def)
  then have "tc_accepted w tc2" using assms(1) tc_accepted_sender by blast
  from tc_accepted_ack[OF this assms(2) tc3(1)] show ?thesis using tc_accepted_reply[OF _ assms(2) tc3(2)] by blast
qed

lemma tc_accepted_rst:
  assumes "tc_accepted w tc" "length w < 2 ^ 62" "tc_send_rst tc = Some tc'"
  shows "tc_accepted w tc'"
proof -
  obtain L j where good: "tx_good w L j (tc_sender tc)" using assms(1) by (auto simp: tc_accepted_def)
  obtain seg0 tx where s: "tx_read_a_segment (tx_send_empty_segment (tc_sender tc)) = Some (seg0, tx)"
    using assms(3) by (auto simp: tc_send_rst_def split: option.splits)
  let ?seg = "seg0\<lparr>ts_header := (ts_header seg0)\<lparr>th_rst := True\<rparr>\<rparr>"
  have "tc_accepted w (tc\<lparr>tc_sender := tx, tc_segments_out := tc_segments_out tc @ [?seg]\<rparr>)"
    using tx_take_good[OF tx_empty_good[OF good] s] by (auto simp: tc_accepted_def)
  then show ?thesis using tc_accepted_received assms(2,3) s by (auto simp: tc_send_rst_def Let_def)
qed

lemma tc_accepted_tick:
  assumes "tc_accepted w tc" "length w < 2 ^ 62" "tc_tick tc ms = Some tc'"
  shows "tc_accepted w tc'"
proof -
  obtain L j where good: "tx_good w L j (tc_sender tc)" using assms(1) by (auto simp: tc_accepted_def)
  define tc1 where "tc1 = snd (tc_send_segments_out
    (tc\<lparr>tc_last_tick_time := u64_add (tc_last_tick_time tc) ms, tc_sender := tx_tick (tc_sender tc) ms\<rparr>))"
  have "tc_accepted w tc1"
    using tc_accepted_emptied[OF tx_tick_good[OF good], where tc = "tc\<lparr>tc_last_tick_time := u64_add (tc_last_tick_time tc) ms\<rparr>"]
    by (simp add: tc1_def)
  then have acc: "tc_accepted w tc1" "tc_accepted w (tc1\<lparr>tc_segments_out := []\<rparr>)" by (simp_all add: tc_accepted_def)
  obtain tc2 where tc2: "(if (ucast (tx_consecutive (tc_sender tc1)) :: 32 word) > MAX_RETX_ATTEMPTS
      then tc_send_rst (tc1\<lparr>tc_segments_out := []\<rparr>) else Some tc1) = Some tc2" "tc_sender tc' = tc_sender tc2"
    using assms(3) unfolding tc_tick_def Let_def tc1_def[symmetric] by (auto split: option.splits if_splits)
  have "tc_accepted w tc2" using tc2(1) acc tc_accepted_rst[OF acc(2) assms(2)] by (auto split: if_splits)
  then show ?thesis using tc2(2) tc_accepted_sender by blast
qed

lemma tc_accepted_written:
  assumes "tc_accepted w tc" "length (w @ d) < 2 ^ 62" "tc_write tc d = Some (length d, tc')"
  shows "tc_accepted (w @ d) tc'"
proof -
  have inv: "bs_inv (tx_stream (tc_sender tc))" using assms(1) by (auto simp: tc_accepted_def tx_good_def tx_contents_def)
  have "d \<noteq> [] \<Longrightarrow> fst (bs_write (tx_stream (tc_sender tc)) d) = length d"
    using assms(3) by (auto simp: tc_write_def Let_def case_prod_beta)
  then have "length d \<le> tc_remaining_outbound_capacity tc"
    using bs.put_count[OF inv, of d] by (cases "d = []") (simp_all add: tc_remaining_outbound_capacity_def)
  from tc_accepted_write[OF assms(1,2) this] show ?thesis using assms(3) by fastforce
qed

subsection \<open>The output of the receiver only grows\<close>

definition bs_grows :: "ByteStream \<Rightarrow> ByteStream \<Rightarrow> bool" where
  "bs_grows s s' \<longleftrightarrow> (bs_inv s \<longrightarrow> bs_inv s' \<and> prefix (bs_stream s) (bs_stream s'))"

lemma bs_grows_refl [simp]: "bs_grows s s"
  by (simp add: bs_grows_def)

lemma bs_grows_trans: "bs_grows a b \<Longrightarrow> bs_grows b c \<Longrightarrow> bs_grows a c"
  by (auto simp: bs_grows_def)

lemma bs_grows_write: "bs_grows s (snd (bs_write s d))"
  by (simp add: bs_grows_def bs.put_invar bs.put_contents)

lemma bs_grows_flags [simp]: "bs_grows s (bs_end_input t) = bs_grows s t" "bs_grows s (bs_set_error t) = bs_grows s t"
  by (simp_all add: bs_grows_def bs_end_input_def bs_set_error_def bs_inv_def)

lemma sr_accept_grows: "bs_grows (sr_output r) (sr_output (snd (sr_accept r data index eof)))"
  by (simp add: sr_accept_def overlap_handler_def Let_def bs_grows_write)

lemma sr_finish_grows: "bs_grows s (sr_output (sr_finish eof ex r)) = bs_grows s (sr_output r)"
  by (simp add: sr_finish_def)

lemma missing_middle_output: "missing_middle_handler r dg = Some r' \<Longrightarrow> sr_output r' = sr_output r"
  by (auto simp: missing_middle_handler_def Let_def split: option.splits scan_result.splits if_splits)

lemma push_substring_grows:
  "push_substring r data index eof = Some r' \<Longrightarrow> bs_grows (sr_output r) (sr_output r')"
proof (induction r data index eof arbitrary: r' rule: push_substring.induct)
  case (1 r data index eof)
  let ?r1 = "snd (sr_accept r data index eof)"
  note acc = sr_accept_grows[of r data index eof]
  show ?case
  proof (cases "bs_remaining_capacity (sr_output r) = 0 \<or> index \<ge> sr_indicator r \<or>
      (index \<noteq> sr_next_assembling_index r \<and> index > sr_next_assembling_index r)")
    case True
    then show ?thesis
      using 1(2) missing_middle_output by (subst (asm) push_substring.simps) (auto split: if_splits)
  next
    case False
    show ?thesis
    proof (cases "sr_next_assembling_index ?r1 \<ge> sr_smallest_temporty_index ?r1 \<and> length data \<noteq> 0 \<and> sr_storage ?r1 \<noteq> []")
      case True
      then obtain w rest where st: "sr_storage ?r1 = w # rest" by (cases "sr_storage ?r1") auto
      let ?r2 = "?r1\<lparr>sr_storage := rest, sr_unassembled_bytes := u64_sub (sr_unassembled_bytes ?r1) (dg_size w)\<rparr>"
      obtain r2 where r2: "push_substring ?r2 (dg_data w) (dg_index w) (dg_eof w) = Some r2"
        "r' = sr_finish eof (fst (sr_accept r data index eof)) r2"
        using 1(2) False True st by (subst (asm) push_substring.simps) (auto simp: Let_def split: if_splits option.splits)
      have "bs_grows (sr_output ?r2) (sr_output r2)" using 1(1)[OF _ _ _ refl refl refl _ st r2(1)] False True by simp
      then show ?thesis using r2(2) bs_grows_trans[OF acc] by (simp add: sr_finish_grows)
    next
      case none: False
      then have "r' = sr_finish eof (fst (sr_accept r data index eof)) ?r1"
        using 1(2) False by (subst (asm) push_substring.simps) (auto simp: Let_def split: if_splits list.splits)
      then show ?thesis using acc by (simp add: sr_finish_grows)
    qed
  qed
qed

lemma tr_received_grows:
  assumes "tr_segment_received rx seg = Some rx'"
  shows "bs_grows (tr_stream_out rx) (tr_stream_out rx')"
  using assms push_substring_grows
  by (fastforce simp: tr_segment_received_def tr_stream_out_def Let_def split: if_splits option.splits)

lemma tc_send_receiver [simp]: "tc_receiver (snd (tc_send_segments_out tc)) = tc_receiver tc"
  by (simp add: tc_send_eq)

lemma tc_fill_receiver: "tc_fill_and_send tc = Some (b, tc') \<Longrightarrow> tc_receiver tc' = tc_receiver tc"
  by (auto simp: tc_fill_and_send_def tc_send_eq)

lemma tc_received_grows:
  assumes "tc_segment_received tc seg = Some tc'"
  shows "bs_grows (tc_inbound_stream tc) (tc_inbound_stream tc')"
proof (cases "th_rst (ts_header seg)")
  case True
  then show ?thesis
    using assms by (auto simp: tc_segment_received_def tc_set_errors_def Let_def tc_inbound_stream_def tr_stream_out_def)
next
  case False
  define tc0 where "tc0 = tc\<lparr>tc_last_tick_time := 0\<rparr>"
  obtain rx where rx: "tr_segment_received (tc_receiver tc0) seg = Some rx"
    using assms False by (auto simp: tc_segment_received_def Let_def tc0_def split: option.splits)
  define tc1 where "tc1 = tc0\<lparr>tc_receiver := rx\<rparr>"
  define tc2 where "tc2 = (if tc_check_inbound_ended tc1 \<and> \<not> bs_eof (tx_stream (tc_sender tc1))
    then tc1\<lparr>tc_linger := False\<rparr> else tc1)"
  have "(case tc_handle_ack tc2 seg of None \<Rightarrow> None | Some tc3 \<Rightarrow> tc_reply tc3 seg) = Some tc'"
    using assms False rx unfolding tc_segment_received_def Let_def tc0_def[symmetric] tc1_def tc2_def by simp
  then obtain tc3 where tc3: "tc_handle_ack tc2 seg = Some tc3" "tc_reply tc3 seg = Some tc'"
    by (auto split: option.splits)
  have "tc_receiver tc3 = tc_receiver tc2" using tc3(1) by (auto simp: tc_handle_ack_def split: if_splits)
  moreover have "tc_receiver tc' = tc_receiver tc3"
    using tc3(2) by (auto simp: tc_reply_def dest: tc_fill_receiver split: if_splits)
  moreover have "tc_receiver tc2 = rx" by (simp add: tc2_def tc1_def)
  ultimately show ?thesis using tr_received_grows[OF rx] by (simp add: tc_inbound_stream_def tc0_def)
qed

lemma tc_rst_grows:
  assumes "tc_send_rst tc = Some tc'"
  shows "bs_grows (tc_inbound_stream tc) (tc_inbound_stream tc')"
proof -
  obtain tc1 seg where "tc_segment_received tc1 seg = Some tc'" "tc_receiver tc1 = tc_receiver tc"
    using assms by (auto simp: tc_send_rst_def Let_def split: option.splits)
  then show ?thesis using tc_received_grows[of tc1 seg tc'] by (simp add: tc_inbound_stream_def)
qed

lemma tc_tick_grows:
  assumes "tc_tick tc ms = Some tc'"
  shows "bs_grows (tc_inbound_stream tc) (tc_inbound_stream tc')"
proof -
  define tc1 where "tc1 = snd (tc_send_segments_out
    (tc\<lparr>tc_last_tick_time := u64_add (tc_last_tick_time tc) ms, tc_sender := tx_tick (tc_sender tc) ms\<rparr>))"
  have rx: "tc_inbound_stream tc1 = tc_inbound_stream tc" "tc_inbound_stream (tc1\<lparr>tc_segments_out := []\<rparr>) = tc_inbound_stream tc"
    by (simp_all add: tc1_def tc_inbound_stream_def)
  obtain tc2 where tc2: "(if (ucast (tx_consecutive (tc_sender tc1)) :: 32 word) > MAX_RETX_ATTEMPTS
      then tc_send_rst (tc1\<lparr>tc_segments_out := []\<rparr>) else Some tc1) = Some tc2" "tc_receiver tc' = tc_receiver tc2"
    using assms unfolding tc_tick_def Let_def tc1_def[symmetric] by (auto split: option.splits if_splits)
  have "bs_grows (tc_inbound_stream tc) (tc_inbound_stream tc2)"
    using tc2(1) rx tc_rst_grows[of "tc1\<lparr>tc_segments_out := []\<rparr>" tc2] by (auto split: if_splits)
  then show ?thesis using tc2(2) by (simp add: tc_inbound_stream_def)
qed

lemma tc_write_inbound: "tc_write tc d = Some (n, tc') \<Longrightarrow> tc_inbound_stream tc' = tc_inbound_stream tc"
  by (auto simp: tc_write_def tc_inbound_stream_def Let_def case_prod_beta dest!: tc_fill_receiver split: if_splits)

lemma tc_end_inbound: "tc_end_input_stream tc = Some tc' \<Longrightarrow> tc_inbound_stream tc' = tc_inbound_stream tc"
  by (auto simp: tc_end_input_stream_def tc_inbound_stream_def dest: tc_fill_receiver)

subsection \<open>The invariant of the socket\<close>

text \<open>
  The bytes read from the owner are those that the connection has accepted (as long as they are less than
  \<open>2 ^ 62\<close>); what was handed to the owner, followed by what the connection still holds for it, begins with
  \<open>p\<close>. That it keeps this for every \<open>p\<close> means that it only ever grows.
\<close>

definition sp_ok :: "bytes \<Rightarrow> 'a TCPSpongeSocket \<Rightarrow> bool" where
  "sp_ok p w \<longleftrightarrow> (\<exists>tc. sp_tcp w = Some tc \<and>
     (length (sp_from_owner w) < 2 ^ 62 \<longrightarrow> tc_accepted (sp_from_owner w) tc) \<and>
     bs_inv (tc_inbound_stream tc) \<and> prefix p (sp_to_owner w @ bs_stream (tc_inbound_stream tc)))"

lemma sp_ok_update:
  assumes "sp_ok p w" "sp_tcp w = Some tc" "sp_tcp w' = Some tc'"
    and "sp_from_owner w' = sp_from_owner w" "sp_to_owner w' = sp_to_owner w"
    and "length (sp_from_owner w) < 2 ^ 62 \<Longrightarrow> tc_accepted (sp_from_owner w) tc \<Longrightarrow> tc_accepted (sp_from_owner w) tc'"
    and "bs_grows (tc_inbound_stream tc) (tc_inbound_stream tc')"
  shows "sp_ok p w'"
proof -
  have "prefix (sp_to_owner w @ bs_stream (tc_inbound_stream tc)) (sp_to_owner w @ bs_stream (tc_inbound_stream tc'))"
    "bs_inv (tc_inbound_stream tc')"
    using assms(1,2,7) by (auto simp: sp_ok_def bs_grows_def)
  moreover have "prefix p (sp_to_owner w @ bs_stream (tc_inbound_stream tc))" using assms(1,2) by (simp add: sp_ok_def)
  ultimately have "prefix p (sp_to_owner w @ bs_stream (tc_inbound_stream tc'))" "bs_inv (tc_inbound_stream tc')"
    by (blast intro: prefix_order.trans)+
  then show ?thesis using assms(1-6) by (simp add: sp_ok_def)
qed

lemmas sp_eq_simps = with_tcp_def returning_def ret_bind_def show_destination_def

lemma sp_receive_ok:
  assumes "sp_ok p w" "sp_receive rs ops w = Some (Inr w')"
  shows "sp_ok p w'"
proof -
  obtain tc where tc: "sp_tcp w = Some tc" using assms(1) by (auto simp: sp_ok_def)
  then obtain tc' where tc': "sp_tcp w' = Some tc'" "sp_from_owner w' = sp_from_owner w" "sp_to_owner w' = sp_to_owner w"
    "tc' = tc \<or> (\<exists>seg. tc_segment_received tc seg = Some tc')"
    using assms(2) by (force simp: sp_receive_def sp_eq_simps Let_def split: option.splits sum.splits if_splits)
  show ?thesis
    using sp_ok_update[OF assms(1) tc tc'(1-3)] tc'(4) tc_accepted_received tc_received_grows by (metis bs_grows_refl)
qed

lemma sp_accept_data_ok:
  assumes "sp_ok p w" "sp_accept_data rs ops K w = Some (Inr w')"
  shows "sp_ok p w'"
proof -
  obtain tc where tc: "sp_tcp w = Some tc" using assms(1) by (auto simp: sp_ok_def)
  obtain data tc1 tc' where w: "tc_write tc data = Some (length data, tc1)" "sp_tcp w' = Some tc'"
    "tc' = tc1 \<or> tc_end_input_stream tc1 = Some tc'"
    "sp_from_owner w' = sp_from_owner w @ data" "sp_to_owner w' = sp_to_owner w"
    using assms(2) tc by (auto simp: sp_accept_data_def sp_eq_simps Let_def case_prod_beta split: option.splits sum.splits if_splits)
  have inb: "tc_inbound_stream tc' = tc_inbound_stream tc"
    using w(1,3) tc_write_inbound tc_end_inbound by metis
  have "tc_accepted (sp_from_owner w') tc'" if len: "length (sp_from_owner w') < 2 ^ 62"
  proof -
    have "tc_accepted (sp_from_owner w) tc" using assms(1) tc len w(4) by (simp add: sp_ok_def)
    then have "tc_accepted (sp_from_owner w') tc1" using tc_accepted_written w(1,4) len by metis
    then show ?thesis using w(3) tc_accepted_end[OF _ len] by fastforce
  qed
  then show ?thesis using assms(1) tc w(2,5) inb by (simp add: sp_ok_def)
qed

lemma sp_accept_cancel_ok:
  assumes "sp_ok p w" "accept_cancel w = Some (Inr w')"
  shows "sp_ok p w'"
proof -
  obtain tc where tc: "sp_tcp w = Some tc" using assms(1) by (auto simp: sp_ok_def)
  then obtain tc' where tc': "sp_tcp w' = Some tc'" "sp_from_owner w' = sp_from_owner w" "sp_to_owner w' = sp_to_owner w"
    "tc_end_input_stream tc = Some tc'"
    using assms(2) by (auto simp: accept_cancel_def sp_eq_simps split: option.splits sum.splits)
  have "bs_grows (tc_inbound_stream tc) (tc_inbound_stream tc')" using tc_end_inbound[OF tc'(4)] by simp
  then show ?thesis
    using sp_ok_update[OF assms(1) tc tc'(1-3)] tc'(4) tc_accepted_end by (metis option.inject)
qed

text \<open>What a partial write that returns has done, whatever the kernel.\<close>

lemma fd_write_partial:
  assumes "fd_write wv fd buffer False = Inr (k, fd', taken)" "length (concat buffer) < two64"
  shows "taken = take k (concat buffer) \<and> k \<le> length (concat buffer)"
proof -
  obtain r buffer' where r: "bvl_remove_prefix buffer (to_size r) = Inr buffer'"
    "k = u64_add 0 (to_size r)" "taken = take (to_size r) (concat buffer)"
    using assms(1) unfolding fd_write_def
    by (subst (asm) fd_write_loop.simps) (auto simp: throw_bind_def Let_def split: sum.splits if_splits)
  then have "to_size r \<le> length (concat buffer)" using bvl_remove_prefix_concat[of buffer "to_size r"] by simp
  then show ?thesis using r assms(2) by (simp add: u64_add_exact)
qed

lemma sp_deliver_ok:
  assumes "sp_ok p w" "sp_deliver rs ops K w = Some (Inr w')"
  shows "sp_ok p w'"
proof -
  obtain tc where tc: "sp_tcp w = Some tc" "bs_inv (tc_inbound_stream tc)" using assms(1) by (auto simp: sp_ok_def)
  let ?s = "tc_inbound_stream tc"
  let ?buffer = "bs_peek_output ?s (min 65536 (bs_buffer_size ?s))"
  obtain k fd' taken where k: "fd_write (\<lambda>i. kn_writev K (sp_calls w + i) (fw_fd (sp_thread_data w))) (sp_thread_data w) [?buffer] False =
      Inr (k, fd', taken)" "sp_to_owner w' = sp_to_owner w @ taken"
    "sp_tcp w' = Some (tc_set_inbound tc (bs_pop_output ?s k))" "sp_from_owner w' = sp_from_owner w"
    using assms(2) tc(1) by (auto simp: sp_deliver_def sp_eq_simps Let_def split: sum.splits if_splits)
  have buffer: "?buffer = take (min 65536 (bs_buffer_size ?s)) (bs_stream ?s)" using bs.peek_contents[OF tc(2)] .
  then have "length (concat [?buffer]) < two64" using tc(2) by (auto simp: bs_inv_def)
  then have taken: "taken = take k ?buffer" "k \<le> length ?buffer" using fd_write_partial[OF k(1)] by auto
  have "take k (take m xs) = take k xs" if "k \<le> length (take m xs)" for m and xs :: bytes
    using that by (simp add: min.absorb1)
  then have "taken = take k (bs_stream ?s)" using taken buffer by metis
  moreover have "tc_inbound_stream (tc_set_inbound tc s) = s" "tc_accepted u (tc_set_inbound tc s) = tc_accepted u tc" for s u
    by (simp_all add: tc_inbound_stream_def tc_set_inbound_def tr_stream_out_def tc_accepted_def)
  ultimately show ?thesis
    using assms(1) tc k(2-) bs.pop_contents[OF tc(2)] bs.pop_invar[OF tc(2)] by (simp add: sp_ok_def)
qed

lemma sp_send_ok:
  assumes "sp_ok p w" "sp_send ops w = Some (Inr w')"
  shows "sp_ok p w'"
proof -
  obtain tc where tc: "sp_tcp w = Some tc" using assms(1) by (auto simp: sp_ok_def)
  then have tc': "sp_tcp w' = Some (tc\<lparr>tc_segments_out := []\<rparr>)" "sp_from_owner w' = sp_from_owner w" "sp_to_owner w' = sp_to_owner w"
    using assms(2) by (auto simp: sp_send_def sp_eq_simps split: sum.splits)
  show ?thesis
    by (rule sp_ok_update[OF assms(1) tc tc']) (simp_all add: tc_accepted_def tc_inbound_stream_def)
qed

lemma sp_tick_ok:
  assumes "sp_ok p w" "sp_tick ops ms w = Some (Inr w')"
  shows "sp_ok p w'"
proof -
  obtain tc where tc: "sp_tcp w = Some tc" using assms(1) by (auto simp: sp_ok_def)
  then obtain tc' where tc': "sp_tcp w' = Some tc'" "sp_from_owner w' = sp_from_owner w" "sp_to_owner w' = sp_to_owner w"
    "tc_tick tc ms = Some tc'"
    using assms(2) by (auto simp: sp_tick_def sp_eq_simps split: option.splits sum.splits)
  show ?thesis
    using sp_ok_update[OF assms(1) tc tc'(1-3)] tc_accepted_tick[OF _ _ tc'(4)] tc_tick_grows[OF tc'(4)] by blast
qed

lemma sp_rules_eq:
  "sp_rules rs ops K [] =
    [\<lparr>ru_fd = adapter_id, ru_direction = In, ru_callback = sp_receive rs ops, ru_interest = receive_interest, ru_cancel = no_cancel\<rparr>,
     \<lparr>ru_fd = thread_data_id, ru_direction = In, ru_callback = sp_accept_data rs ops K, ru_interest = accept_interest, ru_cancel = accept_cancel\<rparr>,
     \<lparr>ru_fd = thread_data_id, ru_direction = Out, ru_callback = sp_deliver rs ops K, ru_interest = deliver_interest, ru_cancel = no_cancel\<rparr>,
     \<lparr>ru_fd = adapter_id, ru_direction = Out, ru_callback = sp_send ops, ru_interest = send_interest, ru_cancel = no_cancel\<rparr>]"
  by (simp add: sp_rules_def el_add_rule_def)

text \<open>The four rules go behind those that are there.\<close>

lemma sp_rules_append: "sp_rules rs ops K rules = rules @ sp_rules rs ops K []"
  by (simp add: sp_rules_def el_add_rule_def)

interpretation sponge: keeping_rules "sp_rules rs ops K []" "sp_ok p" for rs and ops :: "'a AdapterOps" and K p
proof (unfold_locales, goal_cases)
  case (1 r w w')
  then show ?case using sp_receive_ok sp_accept_data_ok sp_deliver_ok sp_send_ok by (auto simp: sp_rules_eq)
next
  case (2 r w w')
  then show ?case using sp_accept_cancel_ok by (auto simp: sp_rules_eq no_cancel_def)
qed

subsection \<open>Runs of the socket\<close>

text \<open>
  The states of a socket from the moment its connection was created, by \<open>connect\<close> or
  \<open>listen_and_accept\<close>: any number of rounds of the event loop, with any outcomes of \<open>poll\<close>, and ticks.
\<close>

inductive sp_reach :: "Resolver \<Rightarrow> 'a AdapterOps \<Rightarrow> Kernel \<Rightarrow> 'a TCPSpongeSocket Rule list \<Rightarrow> 'a TCPSpongeSocket \<Rightarrow> bool" for rs ops K where
  sp_listening: "cfg_send_capacity cfg < two64 \<Longrightarrow> cfg_recv_capacity cfg < two64 \<Longrightarrow>
    sp_initialize_TCP rs ops K random cfg [] (sp_new fd fd' adapter) = (rules, w) \<Longrightarrow> sp_reach rs ops K rules w"
| sp_connecting: "cfg_send_capacity cfg < two64 \<Longrightarrow> cfg_recv_capacity cfg < two64 \<Longrightarrow>
    sp_initialize_TCP rs ops K random cfg [] (sp_new fd fd' adapter) = (rules, w) \<Longrightarrow>
    tc_connect (tc_new random cfg) = Some tc \<Longrightarrow> sp_reach rs ops K rules (w\<lparr>sp_tcp := Some tc\<rparr>)"
| sp_round: "sp_reach rs ops K rules w \<Longrightarrow>
    wait_next_event poll (sp_fds ops) rules timeout_ms w = Some (Inr (res, rules', w')) \<Longrightarrow> sp_reach rs ops K rules' w'"
| sp_ticked: "sp_reach rs ops K rules w \<Longrightarrow> sp_tick ops ms w = Some (Inr w') \<Longrightarrow> sp_reach rs ops K rules w'"

lemma sp_new_ok:
  assumes "cfg_send_capacity cfg < two64" "cfg_recv_capacity cfg < two64"
  shows "sp_ok [] ((sp_new fd fd' adapter)\<lparr>sp_tcp := Some (tc_new random cfg)\<rparr>)"
  using tc_accepted_new[OF assms(1), of random] assms(2)
  by (simp add: sp_ok_def sp_new_def tc_inbound_stream_def tc_new_def tr_new_def tr_stream_out_def sr_new_def bs_inv_new)

lemma sp_connect_ok:
  assumes "sp_ok p w" "sp_tcp w = Some tc" "tc_connect tc = Some tc'"
  shows "sp_ok p (w\<lparr>sp_tcp := Some tc'\<rparr>)"
proof -
  obtain b where f: "tc_fill_and_send tc = Some (b, tc')" using assms(3) by (auto simp: tc_connect_def)
  have "tc_accepted u tc'" if "tc_accepted u tc" "length u < 2 ^ 62" for u
    using tc_accepted_fill[OF that] f by (metis option.inject snd_conv)
  moreover have "tc_inbound_stream tc' = tc_inbound_stream tc" using tc_fill_receiver[OF f] by (simp add: tc_inbound_stream_def)
  ultimately show ?thesis using sp_ok_update[OF assms(1,2), of "w\<lparr>sp_tcp := Some tc'\<rparr>" tc'] by simp
qed

lemma sp_reach_ok:
  assumes "sp_reach rs ops K rules w"
  shows "sp_ok [] w \<and> set rules \<subseteq> set (sp_rules rs ops K [])"
  using assms
proof (induction rule: sp_reach.induct)
  case (sp_listening cfg random fd fd' adapter rules w)
  then show ?case using sp_new_ok[OF sp_listening(1,2)] by (auto simp: sp_initialize_TCP_def)
next
  case (sp_connecting cfg random fd fd' adapter rules w tc)
  have "sp_ok [] w" "rules = sp_rules rs ops K []" "sp_tcp w = Some (tc_new random cfg)"
    using sp_connecting sp_new_ok[OF sp_connecting(1,2)] by (auto simp: sp_initialize_TCP_def)
  then show ?case using sp_connect_ok sp_connecting(4) by blast
next
  case (sp_round rules w poll timeout_ms res rules' w')
  then show ?case using sponge.wait_keeps[of rules rs ops K "[]" w poll "sp_fds ops" timeout_ms res rules' w'] by auto
next
  case (sp_ticked rules w ms w')
  then show ?case using sp_tick_ok by blast
qed

subsection \<open>Properties\<close>

text \<open>
  C7. The socket loses and invents nothing. In every state of a socket since its connection was created,
  the bytes read from the owner so far (less than \<open>2 ^ 62\<close>) are exactly the payloads of the segments
  that the sender has numbered, followed by what its stream still holds; and whatever happens in the next
  round, what was handed to the owner followed by what is held for it is extended at the end, or stays
  as it is.
\<close>

theorem sponge_conserves:
  assumes "sp_reach rs ops K rules w"
  shows "\<exists>tc. sp_tcp w = Some tc \<and>
    (length (sp_from_owner w) < 2 ^ 62 \<longrightarrow> (\<exists>numbered.
       sp_from_owner w = concat (map pay numbered) @ bs_stream (tx_stream (tc_sender tc)) \<and>
       tx_next_seqno (tc_sender tc) = lsum numbered \<and> suffix (tx_outstanding (tc_sender tc)) numbered)) \<and>
    (\<forall>poll res rules' w'. wait_next_event poll (sp_fds ops) rules TCP_TICK_MS w = Some (Inr (res, rules', w')) \<longrightarrow>
       (\<exists>tc'. sp_tcp w' = Some tc' \<and> prefix (sp_to_owner w @ bs_stream (tc_inbound_stream tc))
          (sp_to_owner w' @ bs_stream (tc_inbound_stream tc'))))"
proof -
  have ok: "sp_ok [] w" "set rules \<subseteq> set (sp_rules rs ops K [])" using sp_reach_ok[OF assms] by auto
  then obtain tc where tc: "sp_tcp w = Some tc" "length (sp_from_owner w) < 2 ^ 62 \<longrightarrow> tc_accepted (sp_from_owner w) tc"
    by (auto simp: sp_ok_def)
  have out: "\<exists>numbered. sp_from_owner w = concat (map pay numbered) @ bs_stream (tx_stream (tc_sender tc)) \<and>
      tx_next_seqno (tc_sender tc) = lsum numbered \<and> suffix (tx_outstanding (tc_sender tc)) numbered"
    if len: "length (sp_from_owner w) < 2 ^ 62"
  proof -
    obtain L j where "tx_good (sp_from_owner w) L j (tc_sender tc)" using tc(2) len by (auto simp: tc_accepted_def)
    then show ?thesis by (intro exI[of _ L]) (auto simp: tx_good_def tx_queue_def tx_contents_def suffix_drop)
  qed
  have "sp_ok (sp_to_owner w @ bs_stream (tc_inbound_stream tc)) w" using ok(1) tc(1) by (simp add: sp_ok_def)
  from sponge.wait_keeps[OF ok(2) this] have "sp_ok (sp_to_owner w @ bs_stream (tc_inbound_stream tc)) w'"
    if "wait_next_event poll (sp_fds ops) rules TCP_TICK_MS w = Some (Inr (res, rules', w'))" for poll res rules' w'
    using that by blast
  then have "\<exists>tc'. sp_tcp w' = Some tc' \<and> prefix (sp_to_owner w @ bs_stream (tc_inbound_stream tc))
      (sp_to_owner w' @ bs_stream (tc_inbound_stream tc'))"
    if "wait_next_event poll (sp_fds ops) rules TCP_TICK_MS w = Some (Inr (res, rules', w'))" for poll res rules' w'
    using that unfolding sp_ok_def by blast
  then show ?thesis using tc(1) out by blast
qed

text \<open>
  C25. The check in the rule that takes the owner's data never fails: in every such state, with a kernel
  whose reads succeed, the callback passes to the connection all the bytes it read, and returns; the
  exception for a connection that accepts less than it advertised is not thrown. The only exception that
  can occur is that of the conversion of the peer's address to a string, at the end of the owner's data.
\<close>

theorem sponge_accepts_all:
  assumes "kernel_ok K" "sp_reach rs ops K rules w" "length (sp_from_owner w) < 2 ^ 62 - 2 ^ 20"
  shows "\<exists>tc w' data. sp_tcp w = Some tc \<and>
    data = snd (kn_read K (sp_calls w) (fw_fd (sp_thread_data w)) (fd_size_to_read (tc_remaining_outbound_capacity tc))) \<and>
    sp_from_owner w' = sp_from_owner w @ data \<and>
    fw_read_count (sp_thread_data w') = fw_read_count (sp_thread_data w) + 1 \<and>
    (fw_eof (sp_thread_data w') \<longrightarrow> sp_outbound_shutdown w') \<and>
    sp_accept_data rs ops K w =
      (case ad_to_string rs (fa_destination (ao_config ops (sp_datagram_adapter w))) of
         Inr _ \<Rightarrow> Some (Inr w')
       | Inl e \<Rightarrow> if fw_eof (sp_thread_data w') then Some (Inl e) else Some (Inr w'))"
proof -
  obtain tc where tc: "sp_tcp w = Some tc" and acc: "tc_accepted (sp_from_owner w) tc"
    using sp_reach_ok[OF assms(2)] assms(3) by (auto simp: sp_ok_def)
  define limit where "limit = tc_remaining_outbound_capacity tc"
  define data where "data = snd (kn_read K (sp_calls w) (fw_fd (sp_thread_data w)) (fd_size_to_read limit))"
  define fd' where "fd' = register_read ((sp_thread_data w)\<lparr>fw_eof := fw_eof (sp_thread_data w) \<or> 0 < limit \<and> data = []\<rparr>)"
  have read: "fd_read (sp_thread_data w) limit (fst (kn_read K (sp_calls w) (fw_fd (sp_thread_data w)) (fd_size_to_read limit))) data =
      Inr (data, fd')"
    using kernel_read(1)[OF assms(1), where w = "sp_thread_data w" and limit = limit and n = "sp_calls w" and fd = "fw_fd (sp_thread_data w)"]
    by (simp add: data_def fd'_def)
  have len: "length data \<le> limit"
    using kernel_read(2)[OF assms(1), where limit = limit and n = "sp_calls w" and fd = "fw_fd (sp_thread_data w)"]
    by (simp add: data_def)
  have "length data \<le> fd_size_to_read limit" using assms(1) unfolding kernel_ok_def data_def by blast
  then have "length data \<le> 2 ^ 20" by (simp add: fd_size_to_read_def BUFFER_SIZE_def)
  then have total: "length (sp_from_owner w @ data) < 2 ^ 62" using assms(3) by simp
  obtain tc1 where tc1: "tc_write tc data = Some (length data, tc1)" "tc_accepted (sp_from_owner w @ data) tc1"
    using tc_accepted_write[OF acc total] len by (auto simp: limit_def)
  obtain tc2 where tc2: "tc_end_input_stream tc1 = Some tc2" using tc_accepted_end[OF tc1(2) total] by blast
  define w1 where "w1 = w\<lparr>sp_thread_data := fd', sp_tcp := Some tc1, sp_calls := Suc (sp_calls w),
      sp_from_owner := sp_from_owner w @ data\<rparr>"
  define w' where "w' = (if fw_eof fd' then w1\<lparr>sp_tcp := Some tc2, sp_outbound_shutdown := True\<rparr> else w1)"
  have "sp_accept_data rs ops K w =
      (case ad_to_string rs (fa_destination (ao_config ops (sp_datagram_adapter w))) of
         Inr _ \<Rightarrow> Some (Inr w')
       | Inl e \<Rightarrow> if fw_eof (sp_thread_data w') then Some (Inl e) else Some (Inr w'))"
    using tc read tc1(1) tc2 unfolding sp_accept_data_def with_tcp_def
    by (simp add: Let_def case_prod_beta returning_def show_destination_def ret_bind_def w'_def w1_def
        split: sum.split flip: limit_def data_def)
  then show ?thesis
    using tc by (intro exI[of _ tc] exI[of _ w'] exI[of _ data])
      (auto simp: w'_def w1_def fd'_def register_read_def data_def limit_def)
qed

lemma example_socket_reach:
  "sp_reach numeric_only (tun_ops numeric_only K) K (sp_rules numeric_only (tun_ops numeric_only K) K [])
     ((sp_new fd fd' adapter)\<lparr>sp_tcp := Some (tc_new 7 cfg_default)\<rparr>)"
  by (rule sp_listening[of cfg_default _ _ _ 7])
    (simp_all add: sp_initialize_TCP_def cfg_default_def DEFAULT_CAPACITY_def two64_def)

definition example_fd :: FDWrapper where
  "example_fd = \<lparr>fw_fd = 4, fw_eof = False, fw_closed = False, fw_read_count = 0, fw_write_count = 0\<rparr>"

definition example_tun :: TunAdapter where
  "example_tun = \<lparr>ta_base = example_end 1 2, ta_tun = example_fd, ta_calls = 0, ta_written = []\<rparr>"

definition example_sponge :: "TunAdapter TCPSpongeSocket" where
  "example_sponge = (sp_new example_fd example_fd example_tun)\<lparr>sp_tcp := Some (tc_new 7 cfg_default)\<rparr>"

text \<open>A socket that has just sent its opening segment.\<close>

theorem sponge_conserves_witness:
  "\<exists>tc numbered. tc_connect (tc_new 7 cfg_default) = Some tc \<and>
     sp_from_owner (example_sponge\<lparr>sp_tcp := Some tc\<rparr>) = concat (map pay numbered) @ bs_stream (tx_stream (tc_sender tc)) \<and>
     lsum numbered = 1 \<and> suffix (tx_outstanding (tc_sender tc)) numbered \<and> length (tx_outstanding (tc_sender tc)) = 1"
proof -
  let ?isn = "WrappingInt32 7" and ?rc = "cfg_recv_capacity cfg_default" and ?sc = "cfg_send_capacity cfg_default"
  let ?tc = "tc_with cfg_default (tr_new ?rc) (tx_opened ?isn ?sc (cfg_rt_timeout cfg_default))
      [tc_stamp (tr_new ?rc) (opening_segment ?isn)]"
  let ?w = "example_sponge\<lparr>sp_tcp := Some ?tc\<rparr>"
  have "tc_new 7 cfg_default = tc_with cfg_default (tr_new ?rc) (tx_new 0 ?sc (cfg_rt_timeout cfg_default) (Some ?isn)) []"
    by (simp add: tc_new_def tc_with_def tx_new_def cfg_default_def)
  then have connect: "tc_connect (tc_new 7 cfg_default) = Some ?tc" using handshake_connect by simp
  have "sp_reach numeric_only (tun_ops numeric_only empty_kernel) empty_kernel
      (sp_rules numeric_only (tun_ops numeric_only empty_kernel) empty_kernel []) ?w"
    by (rule sp_connecting[OF _ _ _ connect, of numeric_only "tun_ops numeric_only empty_kernel" empty_kernel
          example_fd example_fd example_tun _ example_sponge])
      (simp_all add: sp_initialize_TCP_def example_sponge_def cfg_default_def DEFAULT_CAPACITY_def two64_def)
  from sponge_conserves[OF this] obtain numbered where
    "sp_from_owner ?w = concat (map pay numbered) @ bs_stream (tx_stream (tc_sender ?tc))"
    "tx_next_seqno (tc_sender ?tc) = lsum numbered" "suffix (tx_outstanding (tc_sender ?tc)) numbered"
    by (auto simp: example_sponge_def sp_new_def)
  then show ?thesis
    using connect by (intro exI[of _ ?tc] exI[of _ numbered]) (simp add: tc_with_def tx_opened_def)
qed

text \<open>The owner has written one byte.\<close>

definition byte_kernel :: Kernel where
  "byte_kernel = \<lparr>kn_read = \<lambda>_ _ k. if k = 0 then ((0, 0), []) else ((1, 0), [104]),
     kn_writev = \<lambda>n _ k. slow_writev n k, kn_call = \<lambda>_ _. (0, 0)\<rparr>"

lemma byte_kernel_ok: "kernel_ok byte_kernel"
  using slow_writev_ok by (simp add: kernel_ok_def byte_kernel_def writev_ok_def slow_writev_def)

theorem sponge_accepts_all_witness:
  "\<exists>w'. sp_accept_data numeric_only (tun_ops numeric_only byte_kernel) byte_kernel example_sponge = Some (Inr w') \<and>
     sp_from_owner w' = [104] \<and> fw_read_count (sp_thread_data w') = 1"
proof -
  have "ad_to_string numeric_only (fa_destination (ab_cfg (example_end 1 2))) \<noteq> Inl e" for e
    using numeric_only_resolves by (simp add: example_end_def ad_to_string_def)
  then obtain d where "ad_to_string numeric_only (fa_destination (ao_config (tun_ops numeric_only byte_kernel)
      (sp_datagram_adapter example_sponge))) = Inr d"
    by (cases "ad_to_string numeric_only (fa_destination (ab_cfg (example_end 1 2)))")
      (auto simp: tun_ops_def example_sponge_def sp_new_def example_tun_def)
  moreover have "fd_size_to_read (tc_remaining_outbound_capacity tc) \<noteq> 0" if "sp_tcp example_sponge = Some tc" for tc
    using that by (auto simp: example_sponge_def tc_remaining_outbound_capacity_def tc_new_def tx_new_def bs_new_def
        bs_remaining_capacity_def cfg_default_def DEFAULT_CAPACITY_def u64_sub_def two64_def fd_size_to_read_def BUFFER_SIZE_def)
  ultimately show ?thesis
    using sponge_accepts_all[OF byte_kernel_ok example_socket_reach[of byte_kernel example_fd example_fd example_tun]]
    unfolding example_sponge_def[symmetric]
    by (auto simp: example_sponge_def sp_new_def example_fd_def byte_kernel_def)
qed

text \<open>
  C28. Opening a connection: \<open>connect\<close> throws when the socket has a connection. Otherwise it passes on the exception
  of the conversion of the destination to a string, if there is one; else it creates a connection, puts one
  opening segment into its queue, and enters the loop in the state \<open>SYN_SENT\<close> with the four rules of the new
  connection behind those \<open>old\<close> ones that the event loop has kept from before: the exception for an unexpected
  state after \<open>TCPConnection::connect\<close> is not thrown.
\<close>

theorem sponge_connect_opens:
  "if sp_tcp w \<noteq> None
   then sp_connect rs ops K os random base_time c_tcp c_ad old w =
     Some (Inl (RuntimeError ''connect() with TCPConnection already initialized''))
   else case ad_to_string rs (fa_destination c_ad) of
     Inl e \<Rightarrow> sp_connect rs ops K os random base_time c_tcp c_ad old w = Some (Inl e)
   | Inr _ \<Rightarrow> \<exists>tc syn w1. sp_tcp w1 = Some tc \<and> tc_segments_out tc = [syn] \<and> th_syn (ts_header syn) \<and> \<not> th_ack (ts_header syn) \<and>
       in_state [SYN_SENT] w1 \<and> sp_datagram_adapter w1 = ao_set_config ops (sp_datagram_adapter w) c_ad \<and>
       sp_connect rs ops K os random base_time c_tcp c_ad old w =
         sp_tcp_loop ops os (in_state [SYN_SENT]) 0 base_time (old @ sp_rules rs ops K []) w1"
proof (cases "sp_tcp w = None")
  case True
  show ?thesis
  proof (cases "ad_to_string rs (fa_destination c_ad)")
    case (Inl e)
    then show ?thesis using True by (simp add: sp_connect_def sp_initialize_TCP_def ret_bind_def)
  next
    case (Inr name)
    define isn where "isn = (case cfg_fixed_isn c_tcp of Some i \<Rightarrow> i | None \<Rightarrow> WrappingInt32 random)"
    define tc where "tc = tc_with c_tcp (tr_new (cfg_recv_capacity c_tcp))
      (tx_opened isn (cfg_send_capacity c_tcp) (cfg_rt_timeout c_tcp))
      [tc_stamp (tr_new (cfg_recv_capacity c_tcp)) (opening_segment isn)]"
    let ?w1 = "w\<lparr>sp_datagram_adapter := ao_set_config ops (sp_datagram_adapter w) c_ad, sp_tcp := Some tc\<rparr>"
    have new: "tc_new random c_tcp = tc_with c_tcp (tr_new (cfg_recv_capacity c_tcp))
        (tx_new 0 (cfg_send_capacity c_tcp) (cfg_rt_timeout c_tcp) (Some isn)) []"
      using tx_new_fixed by (simp add: tc_new_def tc_with_def isn_def)
    have connect: "tc_connect (tc_new random c_tcp) = Some tc" unfolding new tc_def by (rule handshake_connect)
    have state: "tc_state tc = st_of_state SYN_SENT"
      by (simp add: tc_def tc_state_def tc_with_def st_of_parts_def st_of_state_def tx_opened_view rx_summary_def tr_new_view)
    then have "in_state [SYN_SENT] ?w1" by (simp add: in_state_def st_equal_iff)
    moreover have "ret_bind x (\<lambda>r. Some (Inr r)) = x" for x :: "(cpp_error + 'b) option"
      by (simp add: ret_bind_def split: option.split sum.split)
    then have "sp_connect rs ops K os random base_time c_tcp c_ad old w =
        sp_tcp_loop ops os (in_state [SYN_SENT]) 0 base_time (old @ sp_rules rs ops K []) ?w1"
      using True connect state Inr sp_rules_append[of rs ops K old]
      by (simp add: sp_connect_def sp_initialize_TCP_def with_tcp_def returning_def st_equal_iff)
    moreover obtain syn where "tc_segments_out tc = [syn]" "th_syn (ts_header syn)" "\<not> th_ack (ts_header syn)"
      by (simp add: tc_def tc_with_def tr_new_view opening_segment_def th_new_def ts_new_def)
    ultimately show ?thesis
      using True Inr by - (simp, rule exI[of _ tc], rule exI[of _ syn], rule exI[of _ ?w1], simp)
  qed
qed (simp add: sp_connect_def)

text \<open>The loop stays within the states described above, and ends early only when told to.\<close>

lemma sp_tcp_loop_reach:
  assumes "sp_tcp_loop ops os condition i base_time rules w = Some r" "sp_reach rs ops K rules w"
  shows "case r of Inl _ \<Rightarrow> True | Inr (i', rules', w') \<Rightarrow> sp_reach rs ops K rules' w'"
  using assms(2)
proof (induction rule: sp_tcp_loop.raw_induct[OF _ assms(1), consumes 0])
  case (1 loop ops os condition i base_time rules w r)
  show ?case
  proof (cases "condition w")
    case True
    show ?thesis
    proof (cases "wait_next_event (os_poll os i) (sp_fds ops) rules TCP_TICK_MS w")
      case (Some x)
      show ?thesis
      proof (cases x)
        case (Inr y)
        obtain res rules' w' where y: "y = (res, rules', w')" by (cases y)
        have reach: "sp_reach rs ops K rules' w'" using sp_round[OF 1(3)] Some Inr y by blast
        have tick: "sp_reach rs ops K rules' w''" if "sp_tick ops ms w' = Some (Inr w'')" for ms w''
          using sp_ticked[OF reach that] .
        show ?thesis
          using 1(2) True Some Inr y reach 1(1) tick
          by (fastforce simp: ret_bind_def with_tcp_def split: if_splits option.splits sum.splits)
      qed (use 1(2) True Some in auto)
    qed (use 1(2) True in auto)
  qed (use 1 in auto)
qed

text \<open>
  The Ethernet addresses that the full stack makes up are local unicast addresses, whatever the random numbers:
  the lowest bit of the first byte is clear and the next one is set; all other bits are random.
\<close>

theorem random_address_private:
  assumes "length random = 6"
  shows "let addr = random_private_ethernet_address random in
    length addr = 6 \<and> \<not> bit (addr ! 0) 0 \<and> bit (addr ! 0) 1 \<and>
    (\<forall>i < 6. \<forall>j < 8. (i, j) \<notin> {(0, 0), (0, 1)} \<longrightarrow> bit (addr ! i) j = bit (random ! i) j)"
proof -
  obtain r0 rest where r: "random = r0 # rest" "length rest = 5" using assms by (cases random) auto
  define b where "b = ((ucast r0 :: byte) OR 2) AND 0xfe"
  have addr: "random_private_ethernet_address random = b # map ucast rest"
    by (simp add: random_private_ethernet_address_def r b_def Let_def)
  have b: "bit b j = (if j = 0 then False else if j = 1 then True else bit r0 j)" if "j < 8" for j
  proof -
    have "j \<in> {0, 1, 2, 3, 4, 5, 6, 7}" using that by auto
    then show ?thesis by (auto simp: b_def bit_simps)
  qed
  have "bit (map ucast rest ! k :: byte) j = bit (rest ! k) j" if "k < 5" "j < 8" for k j
    using that r(2) by (simp add: bit_simps)
  then show ?thesis using b r unfolding addr Let_def by (auto simp: nth_Cons split: nat.splits)
qed

theorem random_address_private_witness:
  "random_private_ethernet_address [0xff, 1, 2, 3, 4, 5] = [0xfe, 1, 2, 3, 4, 5] \<and>
   \<not> bit (random_private_ethernet_address [0xff, 1, 2, 3, 4, 5] ! 0) 0"
  using random_address_private[of "[0xff, 1, 2, 3, 4, 5]"] by (simp add: random_private_ethernet_address_def Let_def)

end
