(* ===== verification/TCP_Benchmark.thy ===== *)
theory TCP_Benchmark
  imports Sponge_Socket
begin

text \<open>
  The benchmark (\<open>apps/tcp_benchmark.cc\<close>): two connections in one process, with the segments of each handed to
  the other, in order or in reverse. The bytes to send and the random initial sequence numbers are
  arguments; the measured times are left out. A loop that does not end has the value \<open>None\<close>.
\<close>

subsection \<open>Exchanging segments\<close>

fun receive_segments :: "TCPConnection \<Rightarrow> TCPSegment list \<Rightarrow> TCPConnection option" where
  "receive_segments y [] = Some y"
| "receive_segments y (seg # segments) =
     (case tc_segment_received y seg of None \<Rightarrow> None | Some y' \<Rightarrow> receive_segments y' segments)"

definition move_segments :: "TCPConnection \<Rightarrow> TCPConnection \<Rightarrow> TCPSegment list \<Rightarrow> bool \<Rightarrow>
    (TCPConnection \<times> TCPConnection \<times> TCPSegment list) option" where
  "move_segments x y segments reorder =
     (let segments1 = segments @ tc_segments_out x in
      map_option (\<lambda>y'. (x\<lparr>tc_segments_out := []\<rparr>, y', []))
        (receive_segments y (if reorder then rev segments1 else segments1)))"

subsection \<open>The main loop\<close>

record Bench =
  be_x :: TCPConnection
  be_y :: TCPConnection
  be_to_send :: Buffer
  be_x_closed :: bool
  be_received :: bytes

partial_function (option) bench_write :: "TCPConnection \<Rightarrow> Buffer \<Rightarrow> (cpp_error + TCPConnection \<times> Buffer) option" where
  "bench_write x bytes_to_send =
     (if buf_size bytes_to_send \<noteq> 0 \<and> tc_remaining_outbound_capacity x \<noteq> 0 then
        let want = min (tc_remaining_outbound_capacity x) (buf_size bytes_to_send) in
        ret_bind (returning (tc_write x (take want (buf_str bytes_to_send)))) (\<lambda>p.
          if want \<noteq> fst p
          then Some (Inl (RuntimeError (''want = '' @ dec_string want @ '', written = '' @ dec_string (fst p))))
          else ret_bind (Some (buf_remove_prefix bytes_to_send (fst p))) (\<lambda>b'. bench_write (snd p) b'))
      else Some (Inr (x, bytes_to_send)))"

declare bench_write.simps [code]

definition bench_read :: "TCPConnection \<Rightarrow> bytes \<times> TCPConnection" where
  "bench_read y =
     (let available_output = bs_buffer_size (tc_inbound_stream y) in
      if available_output > 0
      then let (data, s) = bs_read (tc_inbound_stream y) available_output in (data, tc_set_inbound y s)
      else ([], y))"

definition bench_loop :: "bool \<Rightarrow> Bench \<Rightarrow> (cpp_error + Bench) option" where
  "bench_loop reorder be =
     ret_bind (bench_write (be_x be) (be_to_send be)) (\<lambda>(x1, b).
     let close = buf_size b = 0 \<and> \<not> be_x_closed be in
     ret_bind (if close then returning (tc_end_input_stream x1) else Some (Inr x1)) (\<lambda>x2.
     ret_bind (returning (move_segments x2 (be_y be) [] reorder)) (\<lambda>(x3, y1, segments).
     ret_bind (returning (move_segments y1 x3 segments False)) (\<lambda>(y2, x4, _).
     let (data, y3) = bench_read y2 in
     ret_bind (returning (tc_tick x4 1000)) (\<lambda>x5.
     ret_bind (returning (tc_tick y3 1000)) (\<lambda>y4.
       Some (Inr \<lparr>be_x = x5, be_y = y4, be_to_send = b, be_x_closed = (be_x_closed be \<or> close),
         be_received = be_received be @ data\<rparr>)))))))"

partial_function (option) bench_while :: "(Bench \<Rightarrow> bool) \<Rightarrow> bool \<Rightarrow> Bench \<Rightarrow> (cpp_error + Bench) option" where
  "bench_while c reorder be =
     (if c be then ret_bind (bench_loop reorder be) (\<lambda>be'. bench_while c reorder be') else Some (Inr be))"

declare bench_while.simps [code]

definition bench_main_loop :: "bool \<Rightarrow> 32 word \<Rightarrow> 32 word \<Rightarrow> bytes \<Rightarrow> (cpp_error + Bench) option" where
  "bench_main_loop reorder rnd_x rnd_y string_to_send =
     ret_bind (returning (tc_connect (tc_new rnd_x cfg_default))) (\<lambda>x.
     ret_bind (returning (tc_end_input_stream (tc_new rnd_y cfg_default))) (\<lambda>y.
     ret_bind (bench_while (\<lambda>be. \<not> bs_eof (tc_inbound_stream (be_y be))) reorder
         \<lparr>be_x = x, be_y = y, be_to_send = buf_of_string string_to_send, be_x_closed = False, be_received = []\<rparr>) (\<lambda>be.
       if be_received be \<noteq> string_to_send
       then Some (Inl (RuntimeError ''strings sent vs. received don't match''))
       else bench_while (\<lambda>be. tc_active (be_x be) \<or> tc_active (be_y be)) reorder be)))"

text \<open>The exit status and the exception, for the bytes and sequence numbers of the two runs.\<close>

definition bench_main :: "32 word \<times> 32 word \<times> bytes \<Rightarrow> 32 word \<times> 32 word \<times> bytes \<Rightarrow> (nat \<times> cpp_error option) option" where
  "bench_main = (\<lambda>(x1, y1, s1) (x2, y2, s2).
     (case ret_bind (bench_main_loop False x1 y1 s1) (\<lambda>_. bench_main_loop True x2 y2 s2) of
        None \<Rightarrow> None
      | Some (Inl e) \<Rightarrow> Some (1, Some e)
      | Some (Inr _) \<Rightarrow> Some (0, None)))"

subsection \<open>Writing\<close>

text \<open>
  The loop that writes to a connection as much as it has room for ends and never throws: it writes a prefix of the bytes
  to send, the connection has accepted exactly this prefix, and the loop stops when nothing is left or the
  connection is full.
\<close>

lemma bench_write_ends:
  assumes "tc_accepted w x" "buf_ok b" "length (w @ buf_str b) < 2 ^ 62"
  shows "\<exists>x' b' d. bench_write x b = Some (Inr (x', b')) \<and> buf_str b = d @ buf_str b' \<and> buf_ok b' \<and>
    tc_accepted (w @ d) x' \<and> (buf_str b' = [] \<or> tc_remaining_outbound_capacity x' = 0)"
  using assms
proof (induction "length (buf_str b)" arbitrary: w x b rule: less_induct)
  case less
  show ?case
  proof (cases "buf_size b \<noteq> 0 \<and> tc_remaining_outbound_capacity x \<noteq> 0")
    case False
    then show ?thesis
      using less.prems by (intro exI[of _ x] exI[of _ b] exI[of _ "[]"]) (auto simp: bench_write.simps[of x b] buf_size_def)
  next
    case True
    define want where "want = min (tc_remaining_outbound_capacity x) (buf_size b)"
    define d where "d = take want (buf_str b)"
    have want: "0 < want" "want \<le> length (buf_str b)" "length d = want" "length d \<le> tc_remaining_outbound_capacity x"
      using True by (simp_all add: want_def d_def buf_size_def)
    have "length (w @ d) < 2 ^ 62" using less.prems(3) want by simp
    then obtain x1 where x1: "tc_write x d = Some (length d, x1)" "tc_accepted (w @ d) x1"
      using tc_accepted_write[OF less.prems(1) _ want(4)] by blast
    obtain b1 where b1: "buf_remove_prefix b want = Inr b1" "buf_ok b1" "buf_str b1 = drop want (buf_str b)"
      using buf_remove_prefix_ok[OF less.prems(2) want(2)] .
    have step: "bench_write x b = bench_write x1 b1"
      using True x1(1) b1(1) want(3)
      by (simp add: bench_write.simps[of x b] want_def[symmetric] d_def[symmetric] returning_def)
    have split: "buf_str b = d @ buf_str b1" by (simp add: d_def b1(3))
    have "length (buf_str b1) < length (buf_str b)" "length ((w @ d) @ buf_str b1) < 2 ^ 62"
      using want less.prems(3) by (simp_all add: b1(3))
    from less.hyps[OF this(1) x1(2) b1(2) this(2)] obtain x' b' e where
      "bench_write x1 b1 = Some (Inr (x', b'))" "buf_str b1 = e @ buf_str b'" "buf_ok b'" "tc_accepted (w @ (d @ e)) x'"
      "buf_str b' = [] \<or> tc_remaining_outbound_capacity x' = 0" by auto
    then show ?thesis
      using step split by (intro exI[of _ x'] exI[of _ b'] exI[of _ "d @ e"]) simp
  qed
qed

subsection \<open>The whole run\<close>

text \<open>What the sending connection has accepted, followed by what is left to send, is what is to be sent.\<close>

definition bench_inv :: "bytes \<Rightarrow> Bench \<Rightarrow> bool" where
  "bench_inv s be \<longleftrightarrow> buf_ok (be_to_send be) \<and> (\<exists>w. tc_accepted w (be_x be) \<and> s = w @ buf_str (be_to_send be))"

lemma tc_accepted_out [simp]: "tc_accepted w (x\<lparr>tc_segments_out := q\<rparr>) = tc_accepted w x"
  by (simp add: tc_accepted_def)

lemma tc_accepted_segments:
  assumes "tc_accepted w x" "length w < 2 ^ 62" "receive_segments x segs = Some x'"
  shows "tc_accepted w x'"
  using assms(1,3)
proof (induction segs arbitrary: x)
  case (Cons seg segs)
  then obtain y where y: "tc_segment_received x seg = Some y" "receive_segments y segs = Some x'"
    by (auto split: option.splits)
  from Cons.IH[OF tc_accepted_received[OF Cons.prems(1) assms(2) y(1)] y(2)] show ?case .
qed simp

lemma ret_bind_returning: "ret_bind (returning p) f = Some z \<Longrightarrow> \<exists>a. p = Some a \<and> f a = Some z"
  by (cases p) (simp_all add: returning_def)

lemma bench_loop_inv:
  assumes "bench_inv s be" "length s < 2 ^ 62" "bench_loop reorder be = Some z"
  shows "\<exists>be'. z = Inr be' \<and> bench_inv s be'"
proof -
  obtain w where w: "tc_accepted w (be_x be)" "s = w @ buf_str (be_to_send be)" "buf_ok (be_to_send be)"
    using assms(1) by (auto simp: bench_inv_def)
  obtain x1 b d where x1: "bench_write (be_x be) (be_to_send be) = Some (Inr (x1, b))"
    "buf_str (be_to_send be) = d @ buf_str b" "buf_ok b" "tc_accepted (w @ d) x1"
    using bench_write_ends[OF w(1,3)] w(2) assms(2) by auto
  have len: "length (w @ d) < 2 ^ 62" using assms(2) w(2) x1(2) by simp
  let ?close = "buf_size b = 0 \<and> \<not> be_x_closed be"
  obtain x2 where x2: "(if ?close then returning (tc_end_input_stream x1) else Some (Inr x1)) = Some (Inr x2)" "tc_accepted (w @ d) x2"
  proof (cases ?close)
    case True
    obtain x2 where "tc_end_input_stream x1 = Some x2" "tc_accepted (w @ d) x2" using tc_accepted_end[OF x1(4) len] .
    with True that show ?thesis by (simp add: returning_def)
  next
    case False
    then show ?thesis using that[of x1] x1(4) by (simp only: if_False)
  qed
  have r: "ret_bind (returning (move_segments x2 (be_y be) [] reorder)) (\<lambda>p.
      ret_bind (returning (move_segments (fst (snd p)) (fst p) (snd (snd p)) False)) (\<lambda>q.
      ret_bind (returning (tc_tick (fst (snd q)) 1000)) (\<lambda>x5.
      ret_bind (returning (tc_tick (snd (bench_read (fst q))) 1000)) (\<lambda>y4.
        Some (Inr \<lparr>be_x = x5, be_y = y4, be_to_send = b, be_x_closed = (be_x_closed be \<or> ?close),
          be_received = be_received be @ fst (bench_read (fst q))\<rparr>))))) = Some z"
    using assms(3) unfolding bench_loop_def x1(1) Let_def case_prod_beta ret_bind_simps fst_conv snd_conv x2(1) .
  obtain p where p: "move_segments x2 (be_y be) [] reorder = Some p" and r1:
     "ret_bind (returning (move_segments (fst (snd p)) (fst p) (snd (snd p)) False)) (\<lambda>q.
      ret_bind (returning (tc_tick (fst (snd q)) 1000)) (\<lambda>x5.
      ret_bind (returning (tc_tick (snd (bench_read (fst q))) 1000)) (\<lambda>y4.
        Some (Inr \<lparr>be_x = x5, be_y = y4, be_to_send = b, be_x_closed = (be_x_closed be \<or> ?close),
          be_received = be_received be @ fst (bench_read (fst q))\<rparr>)))) = Some z"
    using ret_bind_returning[OF r] by blast
  obtain q where q: "move_segments (fst (snd p)) (fst p) (snd (snd p)) False = Some q" and r2:
     "ret_bind (returning (tc_tick (fst (snd q)) 1000)) (\<lambda>x5.
      ret_bind (returning (tc_tick (snd (bench_read (fst q))) 1000)) (\<lambda>y4.
        Some (Inr \<lparr>be_x = x5, be_y = y4, be_to_send = b, be_x_closed = (be_x_closed be \<or> ?close),
          be_received = be_received be @ fst (bench_read (fst q))\<rparr>))) = Some z"
    using ret_bind_returning[OF r1] by blast
  obtain x5 where x5: "tc_tick (fst (snd q)) 1000 = Some x5" and r3:
     "ret_bind (returning (tc_tick (snd (bench_read (fst q))) 1000)) (\<lambda>y4.
        Some (Inr \<lparr>be_x = x5, be_y = y4, be_to_send = b, be_x_closed = (be_x_closed be \<or> ?close),
          be_received = be_received be @ fst (bench_read (fst q))\<rparr>)) = Some z"
    using ret_bind_returning[OF r2] by blast
  obtain y4 where z: "z = Inr \<lparr>be_x = x5, be_y = y4, be_to_send = b, be_x_closed = (be_x_closed be \<or> ?close),
      be_received = be_received be @ fst (bench_read (fst q))\<rparr>"
    using ret_bind_returning[OF r3] by blast
  have "fst p = x2\<lparr>tc_segments_out := []\<rparr>" using p by (auto simp: move_segments_def Let_def)
  then have "tc_accepted (w @ d) (fst p)" using x2(2) by simp
  then have "tc_accepted (w @ d) (fst (snd q))"
    using q tc_accepted_segments[OF _ len] by (auto simp: move_segments_def Let_def)
  from tc_accepted_tick[OF this len x5] show ?thesis
    using w(2) x1(2,3) unfolding z by (simp add: bench_inv_def)
qed

lemma bench_while_inv:
  assumes "bench_while c reorder be = Some z" "bench_inv s be" "length s < 2 ^ 62"
  shows "\<exists>be'. z = Inr be' \<and> bench_inv s be' \<and> \<not> c be'"
proof -
  let ?P = "\<lambda>c (reorder :: bool) be z. bench_inv s be \<longrightarrow> (\<exists>be'. z = Inr be' \<and> bench_inv s be' \<and> \<not> c be')"
  have "?P c reorder be z"
  proof (rule bench_while.raw_induct[where P = ?P, OF _ assms(1)], intro impI)
    fix run c reorder be z
    assume IH: "\<And>c reorder be z. run c reorder be = Some z \<Longrightarrow> ?P c reorder be z"
      and body: "(if c be then ret_bind (bench_loop reorder be) (run c reorder) else Some (Inr be)) = Some z"
      and inv: "bench_inv s be"
    show "\<exists>be'. z = Inr be' \<and> bench_inv s be' \<and> \<not> c be'"
    proof (cases "c be")
      case True
      with body have r: "ret_bind (bench_loop reorder be) (run c reorder) = Some z" by simp
      then obtain y where y: "bench_loop reorder be = Some y" by (cases "bench_loop reorder be") simp_all
      then obtain be1 where "y = Inr be1" "bench_inv s be1" using bench_loop_inv[OF inv assms(3)] by blast
      with IH[of c reorder be1 z] r y show ?thesis by simp
    next
      case False
      with body inv show ?thesis by auto
    qed
  qed
  with assms(2) show ?thesis by blast
qed

text \<open>
  A run of the benchmark that ends has sent what it was given: either it reports that the bytes received are not
  the bytes sent, or both connections are inactive and the bytes that the sending connection accepted, with
  those left over, are the bytes to send. No other exception is thrown, in particular not the one for a
  short write, which a connection with room for the bytes never makes.
\<close>

lemma bench_run_ends_well:
  assumes "length s < 2 ^ 62"
  shows "case bench_main_loop reorder rnd_x rnd_y s of
      None \<Rightarrow> True
    | Some (Inl e) \<Rightarrow> e = RuntimeError ''strings sent vs. received don't match''
    | Some (Inr be) \<Rightarrow> bench_inv s be \<and> \<not> tc_active (be_x be) \<and> \<not> tc_active (be_y be)"
proof -
  let ?eof = "\<lambda>be. \<not> bs_eof (tc_inbound_stream (be_y be))" and ?active = "\<lambda>be. tc_active (be_x be) \<or> tc_active (be_y be)"
  have "tc_accepted [] (tc_new rnd_x cfg_default)" "tc_accepted [] (tc_new rnd_y cfg_default)"
    by (simp_all add: tc_accepted_new cfg_default_def DEFAULT_CAPACITY_def two64_def)
  note new = this
  obtain b x where x: "tc_fill_and_send (tc_new rnd_x cfg_default) = Some (b, x)" "tc_accepted [] x"
    by (rule tc_accepted_fill[OF new(1)]) simp_all
  obtain y where y: "tc_end_input_stream (tc_new rnd_y cfg_default) = Some y"
    by (rule tc_accepted_end[OF new(2)]) simp_all
  define be0 where "be0 = \<lparr>be_x = x, be_y = y, be_to_send = buf_of_string s, be_x_closed = False, be_received = []\<rparr>"
  have "bench_inv s be0" using x(2) assms by (auto simp: bench_inv_def be0_def two64_def)
  note inv = bench_while_inv[OF _ this assms]
  have main: "bench_main_loop reorder rnd_x rnd_y s = ret_bind (bench_while ?eof reorder be0) (\<lambda>be.
      if be_received be \<noteq> s then Some (Inl (RuntimeError ''strings sent vs. received don't match''))
      else bench_while ?active reorder be)"
    using x(1) y by (simp add: bench_main_loop_def tc_connect_def returning_def be0_def)
  show ?thesis
  proof (cases "bench_while ?eof reorder be0")
    case (Some z)
    then obtain be1 where be1: "z = Inr be1" "bench_inv s be1" using inv by blast
    show ?thesis
      using bench_while_inv[OF _ be1(2) assms, of ?active reorder]
      by (cases "bench_while ?active reorder be1") (auto simp: main Some be1(1))
  qed (simp add: main)
qed

end
