(* ===== verification/Reliable_Delivery.thy ===== *)
theory Reliable_Delivery
  imports Sender_Correct
begin

text \<open>
  A \<open>TCPSender\<close> and a \<open>TCPReceiver\<close> joined by a network that may lose, repeat and reorder
  segments and acknowledgments. The calls are those of the two classes
  (\<open>libsponge/tcp_sender.cc\<close>, \<open>libsponge/tcp_receiver.cc\<close>); the link itself is the environment
  they run in. The result is what the two promise together: whatever the network does, the
  application reads a prefix of what was written, and once the sender has its last segment
  acknowledged the receiver has everything.
\<close>

subsection \<open>The link\<close>

text \<open>Segments and acknowledgments stay on the wire: each can arrive any number of times, in
  any order, or never.\<close>

record Link =
  lk_tx :: TCPSender
  lk_rx :: TCPReceiver
  lk_wire :: "TCPSegment list"
  lk_acks :: "(WrappingInt32 \<times> 16 word) list"
  lk_accepted :: bytes
  lk_delivered :: bytes

definition lk_new :: "TCPSender \<Rightarrow> TCPReceiver \<Rightarrow> Link" where
  "lk_new tx rx = \<lparr>lk_tx = tx, lk_rx = rx, lk_wire = [], lk_acks = [], lk_accepted = [], lk_delivered = []\<rparr>"

datatype lk_event =
    Call tx_call
  | Arrival nat
  | Acknowledge
  | AckArrival nat
  | Reading nat

fun lk_step :: "Link \<Rightarrow> lk_event \<Rightarrow> Link option" where
  "lk_step lk (Call c) =
     (case tx_step (lk_tx lk) c of
        None \<Rightarrow> None
      | Some (tx, e, w) \<Rightarrow> Some (lk\<lparr>lk_tx := tx, lk_wire := lk_wire lk @ e, lk_accepted := lk_accepted lk @ w\<rparr>))"
| "lk_step lk (Arrival i) =
     (if i < length (lk_wire lk)
      then map_option (\<lambda>rx. lk\<lparr>lk_rx := rx\<rparr>) (tr_segment_received (lk_rx lk) (lk_wire lk ! i))
      else Some lk)"
| "lk_step lk Acknowledge =
     (case tr_ackno (lk_rx lk) of
        None \<Rightarrow> Some lk
      | Some a \<Rightarrow> Some (lk\<lparr>lk_acks := lk_acks lk @ [(a, of_nat (tr_window_size (lk_rx lk)))]\<rparr>))"
| "lk_step lk (AckArrival i) =
     (if i < length (lk_acks lk)
      then map_option (\<lambda>tx. lk\<lparr>lk_tx := tx\<rparr>) (tx_ack_received (lk_tx lk) (fst (lk_acks lk ! i)) (snd (lk_acks lk ! i)))
      else Some lk)"
| "lk_step lk (Reading n) =
     (case bs_read (tr_stream_out (lk_rx lk)) n of (d, s) \<Rightarrow>
        Some (lk\<lparr>lk_rx := (lk_rx lk)\<lparr>tr_reassembler := (tr_reassembler (lk_rx lk))\<lparr>sr_output := s\<rparr>\<rparr>,
                 lk_delivered := lk_delivered lk @ d\<rparr>))"

text \<open>The conditions on the two ends: the application does not write after it has ended its
  input, the sender hears of acknowledgments only from the receiver, no empty segments are
  mixed in, and the receiver sends no acknowledgment while its output is full.\<close>

fun lk_allowed :: "Link \<Rightarrow> lk_event \<Rightarrow> bool" where
  "lk_allowed lk (Call (TxWrite d)) \<longleftrightarrow> \<not> bs_input_ended (tx_stream (lk_tx lk))"
| "lk_allowed lk (Call (TxAck a win)) \<longleftrightarrow> False"
| "lk_allowed lk (Call TxSendEmpty) \<longleftrightarrow> False"
| "lk_allowed lk Acknowledge \<longleftrightarrow> 0 < tr_window_size (lk_rx lk)"
| "lk_allowed lk _ \<longleftrightarrow> True"

fun lk_run :: "Link \<Rightarrow> lk_event list \<Rightarrow> Link option" where
  "lk_run lk [] = Some lk"
| "lk_run lk (ev # evs) = (case lk_step lk ev of None \<Rightarrow> None | Some lk' \<Rightarrow> lk_run lk' evs)"

fun lk_run_allowed :: "Link \<Rightarrow> lk_event list \<Rightarrow> bool" where
  "lk_run_allowed lk [] \<longleftrightarrow> True"
| "lk_run_allowed lk (ev # evs) \<longleftrightarrow>
     lk_allowed lk ev \<and> (case lk_step lk ev of None \<Rightarrow> True | Some lk' \<Rightarrow> lk_run_allowed lk' evs)"

fun lk_volume :: "lk_event list \<Rightarrow> nat" where
  "lk_volume [] = 0"
| "lk_volume (Call (TxWrite d) # evs) = length d + lk_volume evs"
| "lk_volume (_ # evs) = lk_volume evs"

subsection \<open>What the sender may still send\<close>

text \<open>The segmentations that the segments sent so far allow: exactly theirs once the end was
  sent, otherwise any that goes on.\<close>

definition lk_future :: "TCPSegment list \<Rightarrow> bool \<Rightarrow> nat \<Rightarrow> bytes list \<Rightarrow> bool" where
  "lk_future L fin c segs \<longleftrightarrow> rx_limits segs c \<and>
     (if fin then segs = map pay (tl L) else (\<exists>Q. Q \<noteq> [] \<and> segs = map pay (tl L) @ Q))"

lemma tx_good_fin: "tx_good w L j tx \<Longrightarrow> tx_fin_sent tx \<longleftrightarrow> L \<noteq> [] \<and> th_fin (ts_header (last L))"
  by (simp add: tx_good_def tx_contents_def)

lemma tx_good_fin_grow:
  assumes "tx_good w L j tx" "tx_good w' (L @ M) j' tx'" "tx_fin_sent tx"
  shows "M = []" "tx_fin_sent tx'"
proof -
  have L: "L \<noteq> []" "th_fin (ts_header (last L))" using tx_good_fin[OF assms(1)] assms(3) by auto
  show "M = []"
  proof (rule ccontr)
    assume "M \<noteq> []"
    then have "last L \<in> set (butlast (L @ M))" using L(1) by (simp add: butlast_append)
    then show False using assms(2) L(2) by (simp add: tx_good_def tx_contents_def)
  qed
  then show "tx_fin_sent tx'" using tx_good_fin[OF assms(2)] L by simp
qed

lemma lk_future_grow:
  assumes "tx_good w L j tx" "tx_good w' (L @ M) j' tx'" "lk_future (L @ M) (tx_fin_sent tx') c segs"
  shows "lk_future L (tx_fin_sent tx) c segs"
proof (cases "M = []")
  case True
  then show ?thesis using assms tx_good_fin[OF assms(1)] tx_good_fin[OF assms(2)] by simp
next
  case False
  have ne: "segs \<noteq> []" using assms(3) by (auto simp: lk_future_def rx_limits_def wf_segs_def)
  have fin: "\<not> tx_fin_sent tx" using tx_good_fin_grow(1)[OF assms(1,2)] False by auto
  have "\<exists>Q. segs = map pay (tl (L @ M)) @ Q" using assms(3) by (auto simp: lk_future_def split: if_splits)
  then have "\<exists>Q. Q \<noteq> [] \<and> segs = map pay (tl L) @ Q"
    using False ne by (cases L) auto
  then show ?thesis using assms(3) fin by (simp add: lk_future_def)
qed

lemma tx_good_nonempty:
  assumes "tx_good w L j tx" "\<not> tx_fin_sent tx"
  shows "\<forall>d \<in> set (map pay (tl L)). d \<noteq> []"
proof -
  have c: "tx_contents w L tx" using assms(1) by (simp add: tx_good_def)
  have "\<not> th_fin (ts_header x)" if "x \<in> set L" for x
  proof (cases "x \<in> set (butlast L)")
    case False
    then have "x = last L" using that by (metis append_butlast_last_id empty_iff in_set_conv_decomp list.set(1) rotate1.simps(2) set_ConsD set_rotate1)
    then show ?thesis using tx_good_fin[OF assms(1)] assms(2) that by auto
  qed (use c in \<open>simp add: tx_contents_def\<close>)
  then show ?thesis using c list.set_sel(2) by (cases L) (auto simp: tx_contents_def)
qed

text \<open>There is always one: what was sent so far, and any continuation.\<close>

lemma lk_future_stop:
  assumes "tx_good w L j tx" "length w < 2 ^ 61" "c < 2 ^ 31"
  shows "tx_fin_sent tx \<Longrightarrow> lk_future L True c (map pay (tl L))"
    and "\<not> tx_fin_sent tx \<Longrightarrow> length d \<le> 1 \<Longrightarrow> lk_future L False c (map pay (tl L) @ [d])"
proof -
  note s = tx_good_segs[OF assms(1)]
  have "length (concat (map pay (tl L))) \<le> length w" using arg_cong[OF s(1), of length] by simp
  then show "tx_fin_sent tx \<Longrightarrow> lk_future L True c (map pay (tl L))"
    and "\<not> tx_fin_sent tx \<Longrightarrow> length d \<le> 1 \<Longrightarrow> lk_future L False c (map pay (tl L) @ [d])"
    using s(4) assms(2,3) tx_good_nonempty[OF assms(1)] by (auto simp: lk_future_def rx_limits_def wf_segs_def)
qed

lemma lk_future_piece:
  assumes "tx_good w L j tx" "lk_future L (tx_fin_sent tx) c segs" "tx_piece (map pay (tl L)) isn (tx_fin_sent tx) k x"
  shows "peer_data segs isn k x"
    and "1 + seg_off segs k + length (segs ! k) + (if Suc k = length segs then 1 else 0) \<le> lsum L"
proof -
  let ?P = "map pay (tl L)"
  have k: "k < length ?P" using assms(3) by (simp add: tx_piece_def)
  obtain Q where Q: "segs = ?P @ Q" "tx_fin_sent tx \<longleftrightarrow> Q = []"
    using assms(2) by (auto simp: lk_future_def split: if_splits)
  have off: "seg_off segs k = seg_off ?P k" "segs ! k = ?P ! k" using k Q(1) by (simp_all add: seg_off_def nth_append)
  have last: "Suc k = length segs \<longleftrightarrow> tx_fin_sent tx \<and> Suc k = length ?P" using k Q by (cases Q) auto
  show "peer_data segs isn k x" using assms(3) off last k Q(1) by (auto simp: tx_piece_def peer_data_def)
  have "L \<noteq> []" using k by auto
  then have "lsum L = 1 + length (concat (map pay L)) + (if tx_fin_sent tx then 1 else 0)"
    using assms(1) tx_contents_length[of w L tx] by (simp add: tx_good_def)
  moreover have "length (concat ?P) \<le> length (concat (map pay L))" by (cases L) auto
  moreover have "seg_off ?P k + length (?P ! k) \<le> length (concat ?P)"
    using seg_off_Suc[OF k] seg_off_le[of ?P "Suc k"] by simp
  ultimately show "1 + seg_off segs k + length (segs ! k) + (if Suc k = length segs then 1 else 0) \<le> lsum L"
    using off last by (auto split: if_splits)
qed

lemma tx_good_all_acked:
  assumes "tx_good w L j tx" "tx_bytes_in_flight tx = 0"
  shows "tx_confirmed_seqno tx = lsum L"
proof -
  have q: "tx_queue L j tx" using assms(1) by (simp add: tx_good_def)
  then have "lsum (drop j L) = 0" using assms(2) by (simp add: tx_queue_def)
  then show ?thesis using q lsum_take_drop[of j L] by (simp add: tx_queue_def)
qed

subsection \<open>The receiver advances\<close>

lemma rx_good_places:
  assumes "rx_limits segs c" "rx_good segs isn c G rx"
  shows "bs_bytes_written (tr_stream_out rx) \<le> length (concat segs)"
    and "tr_abs_seqno rx = 1 + bs_bytes_written (tr_stream_out rx) \<or>
      tr_abs_seqno rx = 2 + length (concat segs) \<and> bs_input_ended (tr_stream_out rx)"
    and "bs_input_ended (tr_stream_out rx) \<longrightarrow> bs_bytes_written (tr_stream_out rx) = length (concat segs)"
    and "bs_stream (tr_stream_out rx) = drop (bs_bytes_read (tr_stream_out rx)) (take (bs_bytes_written (tr_stream_out rx)) (concat segs))"
    and "bs_bytes_read (tr_stream_out rx) \<le> bs_bytes_written (tr_stream_out rx)"
    and "bs_inv (tr_stream_out rx)" "bs_capacity (tr_stream_out rx) = c"
    and "sr_window_end (tr_reassembler rx) = bs_bytes_read (tr_stream_out rx) + c"
proof -
  obtain m ks where good: "seg_good segs G (tr_reassembler rx) m ks"
    using assms(2) by (auto simp: rx_good_def)
  note f = seg_good_facts[OF good]
  have out: "out_ok (concat segs) (tr_reassembler rx)" using f(3) by (simp add: sr_inv_def)
  show ended: "bs_input_ended (tr_stream_out rx) \<longrightarrow> bs_bytes_written (tr_stream_out rx) = length (concat segs)"
    using f(1,7) by (simp add: tr_stream_out_def)
  show "bs_bytes_written (tr_stream_out rx) \<le> length (concat segs)"
    "bs_stream (tr_stream_out rx) = drop (bs_bytes_read (tr_stream_out rx)) (take (bs_bytes_written (tr_stream_out rx)) (concat segs))"
    "bs_bytes_read (tr_stream_out rx) \<le> bs_bytes_written (tr_stream_out rx)"
    "bs_inv (tr_stream_out rx)" "bs_capacity (tr_stream_out rx) = c"
    "sr_window_end (tr_reassembler rx) = bs_bytes_read (tr_stream_out rx) + c"
    using out assms(2) by (auto simp: out_ok_def tr_stream_out_def rx_good_def sr_window_end_def)
  show "tr_abs_seqno rx = 1 + bs_bytes_written (tr_stream_out rx) \<or>
      tr_abs_seqno rx = 2 + length (concat segs) \<and> bs_input_ended (tr_stream_out rx)"
    using assms(2) ended by (auto simp: rx_good_def rx_acked_def Let_def)
qed

lemma rx_data_advances:
  assumes "rx_limits segs c" "rx_good segs isn c G rx" "rx_allowed_data segs isn rx k seg"
    and "tr_segment_received rx seg = Some rx'"
  shows "rx_good segs isn c (insert k G) rx'" "tr_abs_seqno rx \<le> tr_abs_seqno rx'"
    and "bs_bytes_read (tr_stream_out rx') = bs_bytes_read (tr_stream_out rx)"
proof -
  show good': "rx_good segs isn c (insert k G) rx'" using rx_good_data[OF assms(1-3)] assms(4) by auto
  obtain m ks where good: "seg_good segs G (tr_reassembler rx) m ks"
    using assms(2) by (auto simp: rx_good_def)
  note f = seg_good_facts[OF good]
  have k: "k < length segs" "seg_off segs k + length (segs ! k) \<le> sr_window_end (tr_reassembler rx)"
    using assms(3) by (auto simp: rx_allowed_data_def peer_data_def split: if_splits)
  have st: "\<not> tr_first_segment rx" "tr_ISN rx = isn" "sr_capacity (tr_reassembler rx) = c"
    using assms(2) by (auto simp: rx_good_def)
  have pd: "th_seqno (ts_header seg) = wrap (1 + seg_off segs k) isn" "th_fin (ts_header seg) = (Suc k = length segs)"
    "buf_str (ts_payload seg) = segs ! k"
    using assms(3) by (auto simp: rx_allowed_data_def peer_data_def)
  have "unwrap (wrap (1 + seg_off segs k) isn) isn (tr_abs_seqno rx) = 1 + seg_off segs k"
    using assms(3) k f(1,6) st(3)
    by (intro rx_unwrap[OF assms(1,2)]) (auto simp: rx_allowed_data_def tr_stream_out_def)
  then have "map_option (\<lambda>r'. tr_settle (Suc k = length segs) (1 + seg_off segs k) (segs ! k) (rx\<lparr>tr_reassembler := r'\<rparr>))
      (push_substring (tr_reassembler rx) (segs ! k) (seg_off segs k) (Suc k = length segs)) = Some rx'"
    using tr_segment_received_later[OF st(1), of seg "1 + seg_off segs k"] pd st(2) assms(4) by simp
  then obtain r' where r': "push_substring (tr_reassembler rx) (segs ! k) (seg_off segs k) (Suc k = length segs) = Some r'"
    and rx': "rx' = tr_settle (Suc k = length segs) (1 + seg_off segs k) (segs ! k) (rx\<lparr>tr_reassembler := r'\<rparr>)"
    by (auto simp: map_option_eq_Some)
  have "Suc k = length segs \<longrightarrow> seg_off segs k + length (segs ! k) = length (concat segs)"
    using k seg_off_Suc[of k segs] seg_off_length[of segs] by auto
  then have p: "sr_inv (concat segs) r'" "sr_window_end r' = sr_window_end (tr_reassembler rx)"
    "sr_capacity r' = sr_capacity (tr_reassembler rx)"
    "sr_next_assembling_index (tr_reassembler rx) \<le> sr_next_assembling_index r'"
    using push_substring_ok[OF f(3) seg_excerpt[OF k(1)] k(2) _ r'] by auto
  have out: "tr_reassembler rx' = r'" by (simp add: rx' tr_settle_def Let_def)
  then show "bs_bytes_read (tr_stream_out rx') = bs_bytes_read (tr_stream_out rx)"
    using p(2,3) by (simp add: tr_stream_out_def sr_window_end_def)
  have written: "bs_bytes_written (tr_stream_out rx) \<le> bs_bytes_written (tr_stream_out rx')"
    using p(1,4) f(1,2) out by (simp add: tr_stream_out_def sr_inv_def out_ok_def)
  show "tr_abs_seqno rx \<le> tr_abs_seqno rx'"
  proof (cases "1 + seg_off segs k = tr_abs_seqno rx")
    case True
    then show ?thesis
      using rx_good_places(2)[OF assms(1,2)] rx_good_places(2)[OF assms(1) good'] written
        rx_good_places(1)[OF assms(1,2)] seg_off_le[of segs k] by auto
  qed (simp add: rx' tr_settle_stays)
qed

subsection \<open>The sender stops at the end of its stream\<close>

lemma tx_fill_round_end:
  assumes "tx_fill_round tx seg a = (tx', seg', a')" "\<not> tx_fin_sent tx" "tx_fin_sent tx'"
  shows "bs_stream (tx_stream tx') = []"
  using assms by (auto simp: tx_fill_round_def Let_def tx_send_tcp_segment_def bs_eof_def bs_buffer_empty_def
      split: prod.splits if_splits)

lemma tx_fill_loop_end:
  assumes "tx_fill_loop tx seg a = Some tx'" "tx_fin_sent tx \<longrightarrow> bs_stream (tx_stream tx) = []" "tx_fin_sent tx'"
  shows "bs_stream (tx_stream tx') = []"
proof -
  have "(tx_fin_sent tx \<longrightarrow> bs_stream (tx_stream tx) = []) \<longrightarrow> tx_fin_sent tx' \<longrightarrow> bs_stream (tx_stream tx') = []"
  proof (induction rule: tx_fill_loop.raw_induct[OF _ assms(1), consumes 0])
    case (1 loop tx seg a tx')
    then show ?case
      using tx_fill_round_end[of tx seg a] by (fastforce simp: bs_buffer_empty_def split: if_splits prod.splits)
  qed
  then show ?thesis using assms by simp
qed

lemma tx_fill_window_end:
  assumes "tx_fill_window tx = Some tx'" "tx_fin_sent tx \<longrightarrow> bs_stream (tx_stream tx) = []" "tx_fin_sent tx'"
  shows "bs_stream (tx_stream tx') = []"
  using assms tx_fill_loop_end[of tx ts_new _ tx']
  by (auto simp: tx_fill_window_def Let_def tx_send_tcp_segment_def bs_eof_def bs_buffer_empty_def
      split: if_splits)

lemma tx_ack_loop_stream: "tx_ack_loop a b tx = (r, b', tx') \<Longrightarrow>
    tx_stream tx' = tx_stream tx \<and> tx_fin_sent tx' = tx_fin_sent tx"
proof (induction a b tx rule: tx_ack_loop.induct)
  case (1 a b tx)
  from 1(2) show ?case
    by (subst (asm) tx_ack_loop.simps) (auto simp: Let_def dest!: 1(1) split: if_splits)
qed

lemma tx_ack_received_end:
  assumes "tx_ack_received tx a win = Some tx'" "tx_fin_sent tx \<longrightarrow> bs_stream (tx_stream tx) = []" "tx_fin_sent tx'"
  shows "bs_stream (tx_stream tx') = []"
  using assms
  by (auto simp: tx_ack_received_def Let_def dest!: tx_ack_loop_stream tx_fill_window_end split: if_splits prod.splits)

text \<open>A call the link allows.\<close>

lemma tx_call_good:
  assumes good: "tx_good w L j tx" "length w < 2 ^ 62" and allowed: "lk_allowed lk (Call c)" "tx = lk_tx lk"
    and out: "set (tx_segments_out tx) \<subseteq> set L" "tx_fin_sent tx \<longrightarrow> bs_stream (tx_stream tx) = []"
  shows "\<exists>tx' e w' M j'. tx_step tx c = Some (tx', e, w') \<and> tx_good (w @ w') (L @ M) j' tx' \<and> same_peer tx tx' \<and>
    lsum (L @ M) \<le> max (lsum L) (tx_confirmed_seqno tx + max 1 (unat (tx_receiver_window tx))) \<and>
    set (tx_segments_out tx') \<union> set e \<subseteq> set (L @ M) \<and> (tx_fin_sent tx' \<longrightarrow> bs_stream (tx_stream tx') = []) \<and>
    length w' \<le> (case c of TxWrite d \<Rightarrow> length d | _ \<Rightarrow> 0)"
proof (cases c)
  case (TxWrite d)
  obtain n s' where ws: "bs_write (tx_stream tx) d = (n, s')" by (metis prod.exhaust)
  have "\<not> tx_fin_sent tx"
    using good(1) allowed TxWrite by (auto simp: tx_good_def tx_contents_def)
  then show ?thesis
    using tx_write_good[OF good(1) ws] ws out TxWrite
    by (intro exI[of _ "tx\<lparr>tx_stream := s'\<rparr>"] exI[of _ "[]"] exI[of _ "take n d"] exI[of _ j])
      (auto simp: same_peer_def)
next
  case TxEndInput
  then show ?thesis
    using tx_end_good[OF good(1)] out
    by (intro exI[of _ "tx\<lparr>tx_stream := bs_end_input (tx_stream tx)\<rparr>"] exI[of _ "[]"] exI[of _ j])
      (auto simp: same_peer_def bs_end_input_def)
next
  case TxFill
  obtain tx' M where M: "tx_fill_window tx = Some tx'" "tx_good w (L @ M) j tx'"
    "tx_segments_out tx' = tx_segments_out tx @ M" "same_peer tx tx'"
    "lsum (L @ M) \<le> max (lsum L) (tx_confirmed_seqno tx + max 1 (unat (tx_receiver_window tx)))"
    using tx_fill_window_good[OF good] by blast
  then show ?thesis
    using TxFill out tx_fill_window_end[OF M(1)]
    by (intro exI[of _ tx'] exI[of _ "[]"] exI[of _ "[]"] exI[of _ M] exI[of _ j]) auto
next
  case (TxAck a win)
  then show ?thesis using allowed by simp
next
  case (TxTick ms)
  have "set (tx_segments_out (tx_tick tx ms)) \<subseteq> set L" "same_peer tx (tx_tick tx ms)"
    "tx_fin_sent (tx_tick tx ms) = tx_fin_sent tx" "tx_stream (tx_tick tx ms) = tx_stream tx"
    using out(1) good(1) in_set_dropD[of _ j L]
    by (auto simp: tx_tick_def Let_def same_peer_def tx_good_def tx_queue_def split: list.splits)
  then show ?thesis
    using TxTick tx_tick_good[OF good(1), of ms] out(2)
    by (intro exI[of _ "tx_tick tx ms"] exI[of _ "[]"] exI[of _ j]) auto
next
  case TxSendEmpty
  then show ?thesis using allowed by simp
next
  case TxTake
  show ?thesis
  proof (cases "tx_segments_out tx")
    case Nil
    then show ?thesis
      using TxTake good(1) out(2)
      by (intro exI[of _ tx] exI[of _ "[]"] exI[of _ j]) (auto simp: tx_read_a_segment_def same_peer_def)
  next
    case (Cons seg rest)
    then have t: "tx_read_a_segment tx = Some (seg, tx\<lparr>tx_segments_out := rest\<rparr>)"
      by (simp add: tx_read_a_segment_def)
    show ?thesis
      using TxTake t tx_take_good[OF good(1) t] out Cons
      by (intro exI[of _ "tx\<lparr>tx_segments_out := rest\<rparr>"] exI[of _ "[seg]"] exI[of _ "[]"] exI[of _ j])
        (auto simp: same_peer_def)
  qed
qed

subsection \<open>The invariant of the link\<close>

text \<open>What the receiver knows fits every continuation of what was sent so far.\<close>

definition lk_known :: "WrappingInt32 \<Rightarrow> nat \<Rightarrow> TCPSegment list \<Rightarrow> bool \<Rightarrow> TCPReceiver \<Rightarrow> bytes \<Rightarrow> bool" where
  "lk_known isn c L fin rx delivered \<longleftrightarrow>
     (if tr_first_segment rx then rx = tr_new c \<and> delivered = []
      else (\<forall>segs. lk_future L fin c segs \<longrightarrow> (\<exists>G. rx_good segs isn c G rx) \<and>
              delivered = take (bs_bytes_read (tr_stream_out rx)) (concat segs)))"

lemma lk_knownD:
  assumes "lk_known isn c L fin rx delivered" "\<not> tr_first_segment rx" "lk_future L fin c segs"
  obtains G where "rx_limits segs c" "rx_good segs isn c G rx"
    "delivered = take (bs_bytes_read (tr_stream_out rx)) (concat segs)"
proof -
  have "rx_limits segs c" using assms(3) by (simp add: lk_future_def)
  then show thesis using assms that by (auto simp: lk_known_def)
qed

text \<open>The first sequence number after the receiver's window; what was sent, what may be sent and
  what was acknowledged lies before it.\<close>

definition lk_limit :: "nat \<Rightarrow> Link \<Rightarrow> nat" where
  "lk_limit c lk = 1 + bs_bytes_read (tr_stream_out (lk_rx lk)) + c"

definition lk_ack_ok :: "WrappingInt32 \<Rightarrow> nat \<Rightarrow> nat \<Rightarrow> bool \<Rightarrow> WrappingInt32 \<times> 16 word \<Rightarrow> bool" where
  "lk_ack_ok isn m lim fin p \<longleftrightarrow>
     (\<exists>t. fst p = wrap t isn \<and> t \<le> m \<and> 0 < unat (snd p) \<and> (fin \<or> t + unat (snd p) \<le> lim))"

definition lk_inv :: "WrappingInt32 \<Rightarrow> nat \<Rightarrow> TCPSegment list \<Rightarrow> nat \<Rightarrow> Link \<Rightarrow> bool" where
  "lk_inv isn c L j lk \<longleftrightarrow> c \<le> 65535 \<and>
     tx_good (lk_accepted lk) L j (lk_tx lk) \<and> tx_isn (lk_tx lk) = isn \<and>
     set (tx_segments_out (lk_tx lk)) \<subseteq> set L \<and> set (lk_wire lk) \<subseteq> set L \<and>
     (tx_fin_sent (lk_tx lk) \<longrightarrow> bs_stream (tx_stream (lk_tx lk)) = []) \<and>
     lk_known isn c L (tx_fin_sent (lk_tx lk)) (lk_rx lk) (lk_delivered lk) \<and>
     lsum L \<le> lk_limit c lk \<and>
     (\<not> tx_fin_sent (lk_tx lk) \<longrightarrow>
        tx_confirmed_seqno (lk_tx lk) + max 1 (unat (tx_receiver_window (lk_tx lk))) \<le> lk_limit c lk) \<and>
     tx_confirmed_seqno (lk_tx lk) \<le> tr_abs_seqno (lk_rx lk) \<and>
     (\<forall>p \<in> set (lk_acks lk). lk_ack_ok isn (tr_abs_seqno (lk_rx lk)) (lk_limit c lk) (tx_fin_sent (lk_tx lk)) p)"

lemma lk_inv_new:
  assumes "c \<le> 65535" "c' < two64"
  shows "lk_inv (case fi of Some i \<Rightarrow> i | None \<Rightarrow> WrappingInt32 rnd) c [] 0 (lk_new (tx_new rnd c' rto fi) (tr_new c))"
  using assms tx_good_new[OF assms(2), of rnd rto fi]
  by (simp add: lk_inv_def lk_new_def lk_known_def lk_limit_def)
    (simp add: tx_new_def tr_new_def tr_stream_out_def sr_new_def bs_new_def)

lemma lk_now:
  assumes "lk_inv isn c L j lk" "length (lk_accepted lk) < 2 ^ 31"
  obtains segs where "lk_future L (tx_fin_sent (lk_tx lk)) c segs" "concat segs = concat (map pay (tl L))"
    "length (concat segs) \<le> length (lk_accepted lk)" "lk_accepted lk = concat segs @ bs_stream (tx_stream (lk_tx lk))"
proof -
  have good: "tx_good (lk_accepted lk) L j (lk_tx lk)" and c: "c < 2 ^ 31" using assms(1) by (auto simp: lk_inv_def)
  have len: "length (lk_accepted lk) < 2 ^ 61" using assms(2) by simp
  note w = tx_good_segs(1)[OF good]
  show thesis
  proof (cases "tx_fin_sent (lk_tx lk)")
    case True
    then show ?thesis
      using that[of "map pay (tl L)"] lk_future_stop(1)[OF good len c True] arg_cong[OF w, of length] w by simp
  next
    case False
    have "lk_future L False c (map pay (tl L) @ [[]])" using lk_future_stop(2)[OF good len c False, of "[]"] by simp
    then show ?thesis
      using that[of "map pay (tl L) @ [[]]"] False arg_cong[OF w, of length] w by simp
  qed
qed

lemma lk_abs_bound:
  assumes "lk_inv isn c L j lk" "length (lk_accepted lk) < 2 ^ 31"
  shows "tr_abs_seqno (lk_rx lk) \<le> 2 + length (lk_accepted lk)"
proof (cases "tr_first_segment (lk_rx lk)")
  case True
  then show ?thesis using assms(1) by (simp add: lk_inv_def lk_known_def tr_new_def)
next
  case False
  obtain segs where s: "lk_future L (tx_fin_sent (lk_tx lk)) c segs" "length (concat segs) \<le> length (lk_accepted lk)"
    using lk_now[OF assms] by metis
  then obtain G where "rx_good segs isn c G (lk_rx lk)" "rx_limits segs c"
    using assms(1) False by (auto simp: lk_inv_def lk_known_def lk_future_def)
  from rx_good_places(1,2)[OF this(2,1)] s(2) show ?thesis by auto
qed

text \<open>The receiver does not see an end before it was sent: two continuations of different
  lengths are possible.\<close>

lemma lk_not_ended:
  assumes inv: "lk_inv isn c L j lk" and len: "length (lk_accepted lk) < 2 ^ 31"
    and "\<not> tr_first_segment (lk_rx lk)" "\<not> tx_fin_sent (lk_tx lk)"
  shows "\<not> bs_input_ended (tr_stream_out (lk_rx lk))"
proof
  assume ended: "bs_input_ended (tr_stream_out (lk_rx lk))"
  have good: "tx_good (lk_accepted lk) L j (lk_tx lk)" and c: "c < 2 ^ 31"
    and known: "lk_known isn c L False (lk_rx lk) (lk_delivered lk)"
    using inv assms(4) by (simp_all add: lk_inv_def)
  have len': "length (lk_accepted lk) < 2 ^ 61" using len by simp
  have "bs_bytes_written (tr_stream_out (lk_rx lk)) = length (concat (map pay (tl L) @ [d]))" if "length d \<le> 1" for d
  proof -
    have "lk_future L False c (map pay (tl L) @ [d])" by (rule lk_future_stop(2)[OF good len' c assms(4) that])
    from lk_knownD[OF known assms(3) this] show ?thesis using rx_good_places(3) ended by metis
  qed
  from this[of "[]"] this[of "[0]"] show False by simp
qed

lemma tx_good_length:
  assumes "tx_good w L j tx"
  shows "lsum L \<le> 2 + length w"
proof (cases "L = []")
  case False
  have "tx_contents w L tx" using assms by (simp add: tx_good_def)
  moreover from this have "length (concat (map pay L)) \<le> length w" by (auto simp: tx_contents_def)
  ultimately show ?thesis using tx_contents_length[of w L tx] False by (simp split: if_splits)
qed simp

text \<open>A change of the sender.\<close>

lemma lk_inv_tx:
  assumes inv: "lk_inv isn c L j lk" and good: "tx_good w (L @ M) i tx" and isn: "tx_isn tx = isn"
    and segs: "set (tx_segments_out tx) \<union> set e \<subseteq> set (L @ M)" "tx_fin_sent tx \<longrightarrow> bs_stream (tx_stream tx) = []"
    and sum: "lsum (L @ M) \<le> lk_limit c lk"
    and win: "\<not> tx_fin_sent tx \<longrightarrow> tx_confirmed_seqno tx + max 1 (unat (tx_receiver_window tx)) \<le> lk_limit c lk"
    and conf: "tx_confirmed_seqno tx \<le> tr_abs_seqno (lk_rx lk)"
  shows "lk_inv isn c (L @ M) i (lk\<lparr>lk_tx := tx, lk_wire := lk_wire lk @ e, lk_accepted := w\<rparr>)"
proof -
  have old: "tx_good (lk_accepted lk) L j (lk_tx lk)" using inv by (simp add: lk_inv_def)
  have "lk_known isn c (L @ M) (tx_fin_sent tx) (lk_rx lk) (lk_delivered lk)"
    using inv lk_future_grow[OF old good] by (auto simp: lk_inv_def lk_known_def)
  moreover have "lk_ack_ok isn (tr_abs_seqno (lk_rx lk)) (lk_limit c lk) (tx_fin_sent tx) p" if "p \<in> set (lk_acks lk)" for p
    using inv that tx_good_fin_grow(2)[OF old good] unfolding lk_inv_def lk_ack_ok_def by blast
  ultimately show ?thesis
    using assms by (auto simp: lk_inv_def lk_limit_def)
qed

lemma lk_inv_call:
  assumes inv: "lk_inv isn c L j lk" and len: "length (lk_accepted lk) < 2 ^ 31" and allowed: "lk_allowed lk (Call f)"
  shows "\<exists>lk' L' j'. lk_step lk (Call f) = Some lk' \<and> lk_inv isn c L' j' lk' \<and>
    length (lk_accepted lk') \<le> length (lk_accepted lk) + lk_volume [Call f]"
proof -
  have good: "tx_good (lk_accepted lk) L j (lk_tx lk)" "length (lk_accepted lk) < 2 ^ 62"
    and out: "set (tx_segments_out (lk_tx lk)) \<subseteq> set L" "tx_fin_sent (lk_tx lk) \<longrightarrow> bs_stream (tx_stream (lk_tx lk)) = []"
    using inv len by (auto simp: lk_inv_def)
  obtain tx e w M i where t: "tx_step (lk_tx lk) f = Some (tx, e, w)" "tx_good (lk_accepted lk @ w) (L @ M) i tx"
    "same_peer (lk_tx lk) tx"
    "lsum (L @ M) \<le> max (lsum L) (tx_confirmed_seqno (lk_tx lk) + max 1 (unat (tx_receiver_window (lk_tx lk))))"
    "set (tx_segments_out tx) \<union> set e \<subseteq> set (L @ M)" "tx_fin_sent tx \<longrightarrow> bs_stream (tx_stream tx) = []"
    "length w \<le> (case f of TxWrite d \<Rightarrow> length d | _ \<Rightarrow> 0)"
    using tx_call_good[OF good allowed refl out] by blast
  have "lsum (L @ M) \<le> lk_limit c lk"
    using t(4) inv tx_good_fin_grow(1)[OF good(1) t(2)] by (cases "tx_fin_sent (lk_tx lk)") (auto simp: lk_inv_def)
  moreover have "\<not> tx_fin_sent tx \<longrightarrow> \<not> tx_fin_sent (lk_tx lk)" using tx_good_fin_grow(2)[OF good(1) t(2)] by blast
  ultimately have "lk_inv isn c (L @ M) i (lk\<lparr>lk_tx := tx, lk_wire := lk_wire lk @ e, lk_accepted := lk_accepted lk @ w\<rparr>)"
    using inv t(3) by (intro lk_inv_tx[OF inv t(2) _ t(5,6)]) (auto simp: lk_inv_def same_peer_def)
  moreover have "lk_volume [Call f] = (case f of TxWrite d \<Rightarrow> length d | _ \<Rightarrow> 0)" by (cases f) auto
  ultimately show ?thesis using t(1,7) by force
qed

lemma lk_inv_ack_arrival:
  assumes inv: "lk_inv isn c L j lk" and len: "length (lk_accepted lk) < 2 ^ 31 - 3"
  shows "\<exists>lk' L' j'. lk_step lk (AckArrival n) = Some lk' \<and> lk_inv isn c L' j' lk' \<and> lk_accepted lk' = lk_accepted lk"
proof (cases "n < length (lk_acks lk)")
  case True
  obtain a win where p: "lk_acks lk ! n = (a, win)" by (metis prod.exhaust)
  have good: "tx_good (lk_accepted lk) L j (lk_tx lk)" "length (lk_accepted lk) < 2 ^ 62"
    using inv len by (auto simp: lk_inv_def)
  have "lk_ack_ok isn (tr_abs_seqno (lk_rx lk)) (lk_limit c lk) (tx_fin_sent (lk_tx lk)) (a, win)"
    using inv True p unfolding lk_inv_def by (metis nth_mem)
  then obtain t where t: "a = wrap t isn" "t \<le> tr_abs_seqno (lk_rx lk)" "0 < unat win"
    "tx_fin_sent (lk_tx lk) \<or> t + unat win \<le> lk_limit c lk"
    by (auto simp: lk_ack_ok_def)
  obtain tx M i where ack: "tx_ack_received (lk_tx lk) a win = Some tx" "tx_good (lk_accepted lk) (L @ M) i tx"
    "tx_segments_out tx = tx_segments_out (lk_tx lk) @ M" "tx_isn tx = tx_isn (lk_tx lk)"
    "tx = lk_tx lk \<or> tx_confirmed_seqno tx = unwrap a (tx_isn (lk_tx lk)) (tx_next_seqno (lk_tx lk)) \<and>
       tx_receiver_window tx = win \<and> lsum (L @ M) \<le> max (lsum L) (tx_confirmed_seqno tx + max 1 (unat win))"
    using tx_ack_received_good[OF good, of a win] by blast
  have eq: "lk_step lk (AckArrival n) = Some (lk\<lparr>lk_tx := tx\<rparr>)" using True p ack(1) by simp
  have small: "t \<le> 2 + length (lk_accepted lk)"
    using t(2) lk_abs_bound[OF inv] len by simp
  have next_seqno: "tx_next_seqno (lk_tx lk) = lsum L" using good(1) by (simp add: tx_good_def tx_queue_def)
  have "lsum L \<le> 2 + length (lk_accepted lk)" by (rule tx_good_length[OF good(1)])
  then have "unwrap a isn (tx_next_seqno (lk_tx lk)) = t"
    using small len unfolding t(1) next_seqno by (intro seqs.recover) auto
  moreover have isn: "tx_isn (lk_tx lk) = isn" using inv by (simp add: lk_inv_def)
  ultimately have peer: "tx = lk_tx lk \<or> tx_confirmed_seqno tx = t \<and>
      tx_receiver_window tx = win \<and> lsum (L @ M) \<le> max (lsum L) (t + unat win)"
    using ack(5) t(3) by (auto simp: max_def)
  have fin: "M = []" "tx_fin_sent tx" if "tx_fin_sent (lk_tx lk)" using tx_good_fin_grow[OF good(1) ack(2) that] by auto
  have "lk_inv isn c (L @ M) i (lk\<lparr>lk_tx := tx, lk_wire := lk_wire lk @ [], lk_accepted := lk_accepted lk\<rparr>)"
  proof (rule lk_inv_tx[OF inv ack(2)])
    show "tx_isn tx = isn" using ack(4) inv by (simp add: lk_inv_def)
    show "set (tx_segments_out tx) \<union> set [] \<subseteq> set (L @ M)" using ack(3) inv by (auto simp: lk_inv_def)
    show "tx_fin_sent tx \<longrightarrow> bs_stream (tx_stream tx) = []"
      using tx_ack_received_end[OF ack(1)] inv by (simp add: lk_inv_def)
    show "tx_confirmed_seqno tx \<le> tr_abs_seqno (lk_rx lk)" using peer inv t(2) by (auto simp: lk_inv_def)
    show "\<not> tx_fin_sent tx \<longrightarrow> tx_confirmed_seqno tx + max 1 (unat (tx_receiver_window tx)) \<le> lk_limit c lk"
    proof
      assume "\<not> tx_fin_sent tx"
      then have "\<not> tx_fin_sent (lk_tx lk)" using fin(2) by blast
      then show "tx_confirmed_seqno tx + max 1 (unat (tx_receiver_window tx)) \<le> lk_limit c lk"
        using peer inv t(3,4) by (auto simp: lk_inv_def max_def)
    qed
    show "lsum (L @ M) \<le> lk_limit c lk"
    proof (cases "tx_fin_sent (lk_tx lk)")
      case True
      then show ?thesis using fin(1) inv by (simp add: lk_inv_def)
    next
      case False
      have "tx = lk_tx lk \<Longrightarrow> lsum (L @ M) = lsum L"
        using ack(2) good(1) by (simp add: tx_good_def tx_queue_def)
      then show ?thesis using peer t(4) False inv by (auto simp: lk_inv_def)
    qed
  qed
  then have "lk_inv isn c (L @ M) i (lk\<lparr>lk_tx := tx\<rparr>)" by (simp add: lk_inv_def lk_limit_def)
  with eq show ?thesis by (intro exI[of _ "lk\<lparr>lk_tx := tx\<rparr>"] exI[of _ "L @ M"] exI[of _ i]) simp
qed (use inv in auto)

lemma lk_inv_rx:
  assumes inv: "lk_inv isn c L j lk" and known: "lk_known isn c L (tx_fin_sent (lk_tx lk)) rx (lk_delivered lk @ d)"
    and adv: "tr_abs_seqno (lk_rx lk) \<le> tr_abs_seqno rx"
      "bs_bytes_read (tr_stream_out (lk_rx lk)) \<le> bs_bytes_read (tr_stream_out rx)"
  shows "lk_inv isn c L j (lk\<lparr>lk_rx := rx, lk_delivered := lk_delivered lk @ d\<rparr>)"
proof -
  let ?lk = "lk\<lparr>lk_rx := rx, lk_delivered := lk_delivered lk @ d\<rparr>"
  have lim: "lk_limit c lk \<le> lk_limit c ?lk" using adv(2) by (simp add: lk_limit_def)
  have "lk_ack_ok isn (tr_abs_seqno rx) (lk_limit c ?lk) (tx_fin_sent (lk_tx lk)) p" if "p \<in> set (lk_acks lk)" for p
    using inv that adv(1) lim unfolding lk_inv_def lk_ack_ok_def by (meson order_trans)
  then show ?thesis using inv known adv(1) lim by (auto simp: lk_inv_def)
qed

lemma lk_inv_arrival:
  assumes inv: "lk_inv isn c L j lk" and len: "length (lk_accepted lk) < 2 ^ 31 - 3"
  shows "\<exists>lk'. lk_step lk (Arrival n) = Some lk' \<and> lk_inv isn c L j lk' \<and> lk_accepted lk' = lk_accepted lk"
proof (cases "n < length (lk_wire lk)")
  case True
  let ?x = "lk_wire lk ! n" and ?rx = "lk_rx lk"
  have good: "tx_good (lk_accepted lk) L j (lk_tx lk)" and isn: "tx_isn (lk_tx lk) = isn" and c: "c < two64"
    and known: "lk_known isn c L (tx_fin_sent (lk_tx lk)) ?rx (lk_delivered lk)" and x: "?x \<in> set L"
    using inv nth_mem[OF True] by (simp_all add: lk_inv_def two64_def subset_iff)
  have abs: "tr_abs_seqno ?rx < 2 ^ 31" using lk_abs_bound[OF inv] len by simp
  have "length (lk_accepted lk) < 2 ^ 31" using len by simp
  from lk_now[OF inv this] obtain segs where segs: "lk_future L (tx_fin_sent (lk_tx lk)) c segs" by blast
  have "0 < lsp ?x" using good x by (simp add: tx_good_def tx_queue_def)
  then have "\<not> empty_segment ?x" by (auto simp: empty_segment_def lsp_eq)
  then consider (syn) "peer_syn isn ?x" | (piece) k where "tx_piece (map pay (tl L)) isn (tx_fin_sent (lk_tx lk)) k ?x"
    using tx_good_pieces[OF good, of ?x] x isn by auto
  then have "\<exists>rx'. tr_segment_received ?rx ?x = Some rx' \<and>
      lk_known isn c L (tx_fin_sent (lk_tx lk)) rx' (lk_delivered lk) \<and> tr_abs_seqno ?rx \<le> tr_abs_seqno rx' \<and>
      bs_bytes_read (tr_stream_out ?rx) \<le> bs_bytes_read (tr_stream_out rx')"
  proof cases
    case syn
    show ?thesis
    proof (cases "tr_first_segment ?rx")
      case True
      then have new: "?rx = tr_new c" "lk_delivered lk = []" using known by (auto simp: lk_known_def)
      define rx' where "rx' = (tr_new c)\<lparr>tr_first_segment := False, tr_ISN := isn, tr_abs_seqno := 1\<rparr>"
      have eq: "tr_segment_received ?rx ?x = Some rx'"
        using first_segment_syn[of ?rx isn ?x c] syn c unfolding new rx'_def by (simp add: tr_new_def)
      have "\<exists>G. rx_good segs isn c G rx'" if "lk_future L (tx_fin_sent (lk_tx lk)) c segs" for segs
        using rx_good_opened[of segs c isn ?x] that syn eq new(1) by (auto simp: lk_future_def)
      then show ?thesis
        using eq new by (intro exI[of _ rx']) (auto simp: lk_known_def rx'_def tr_new_def tr_stream_out_def sr_new_def bs_new_def)
    next
      case False
      obtain G where "rx_good segs isn c G ?rx" "rx_limits segs c"
        using lk_knownD[OF known False segs] by blast
      then have "tr_segment_received ?rx ?x = Some ?rx"
        using rx_good_empty[OF _ _ False, of segs c isn G ?x 0] syn abs by (simp add: peer_syn_def)
      then show ?thesis using known by simp
    qed
  next
    case piece
    show ?thesis
    proof (cases "tr_first_segment ?rx")
      case True
      then have "tr_segment_received ?rx ?x = Some ?rx"
        using piece by (simp add: tr_segment_received_def tx_piece_def Let_def)
      then show ?thesis using known by simp
    next
      case False
      have allowed: "rx_limits segs c \<and> (\<exists>G. rx_good segs isn c G ?rx) \<and> rx_allowed_data segs isn ?rx k ?x"
        if fut: "lk_future L (tx_fin_sent (lk_tx lk)) c segs" for segs
      proof -
        obtain G where G: "rx_good segs isn c G ?rx" "rx_limits segs c"
          using lk_knownD[OF known False fut] by blast
        show ?thesis
          using G lk_future_piece[OF good fut piece] rx_good_places(8)[OF G(2,1)] inv abs
          by (auto simp: rx_allowed_data_def lk_inv_def lk_limit_def)
      qed
      obtain rx' where eq: "tr_segment_received ?rx ?x = Some rx'"
        using allowed[OF segs] rx_good_data by blast
      note adv = rx_data_advances[OF _ _ _ eq]
      obtain G where G: "rx_limits segs c" "rx_good segs isn c G ?rx" "rx_allowed_data segs isn ?rx k ?x"
        using allowed[OF segs] by blast
      have "\<not> tr_first_segment rx'" using adv(1)[OF G] by (simp add: rx_good_def)
      moreover have "(\<exists>G. rx_good segs isn c G rx') \<and> lk_delivered lk = take (bs_bytes_read (tr_stream_out rx')) (concat segs)"
        if fut: "lk_future L (tx_fin_sent (lk_tx lk)) c segs" for segs
      proof -
        obtain G where "rx_limits segs c" "rx_good segs isn c G ?rx" "rx_allowed_data segs isn ?rx k ?x"
          using allowed[OF fut] by blast
        note a = adv(1,3)[OF this]
        have "lk_delivered lk = take (bs_bytes_read (tr_stream_out ?rx)) (concat segs)"
          using lk_knownD[OF known False fut] by blast
        then show ?thesis using a by auto
      qed
      moreover have "tr_abs_seqno ?rx \<le> tr_abs_seqno rx'" "bs_bytes_read (tr_stream_out rx') = bs_bytes_read (tr_stream_out ?rx)"
        using adv(2,3)[OF G] by simp_all
      ultimately show ?thesis using eq by (auto simp: lk_known_def)
    qed
  qed
  then obtain rx' where rx': "tr_segment_received ?rx ?x = Some rx'"
    "lk_known isn c L (tx_fin_sent (lk_tx lk)) rx' (lk_delivered lk @ [])"
    "tr_abs_seqno ?rx \<le> tr_abs_seqno rx'" "bs_bytes_read (tr_stream_out ?rx) \<le> bs_bytes_read (tr_stream_out rx')"
    by auto
  from lk_inv_rx[OF inv rx'(2-4)] rx'(1) show ?thesis using True by simp
qed (use inv in simp)

lemma lk_inv_acknowledge:
  assumes inv: "lk_inv isn c L j lk" and len: "length (lk_accepted lk) < 2 ^ 31" and room: "0 < tr_window_size (lk_rx lk)"
  shows "\<exists>lk'. lk_step lk Acknowledge = Some lk' \<and> lk_inv isn c L j lk' \<and> lk_accepted lk' = lk_accepted lk"
proof (cases "tr_first_segment (lk_rx lk)")
  case True
  then show ?thesis using inv by (auto simp: tr_ackno_def)
next
  case False
  let ?out = "tr_stream_out (lk_rx lk)" and ?n = "tr_window_size (lk_rx lk)"
  let ?lk = "lk\<lparr>lk_acks := lk_acks lk @ [(wrap (tr_abs_seqno (lk_rx lk)) isn, of_nat ?n)]\<rparr>"
  have known: "lk_known isn c L (tx_fin_sent (lk_tx lk)) (lk_rx lk) (lk_delivered lk)" and c: "c \<le> 65535"
    and good: "tx_good (lk_accepted lk) L j (lk_tx lk)"
    using inv by (simp_all add: lk_inv_def)
  from lk_now[OF inv len] obtain segs where segs: "lk_future L (tx_fin_sent (lk_tx lk)) c segs" by blast
  obtain G where G: "rx_limits segs c" "rx_good segs isn c G (lk_rx lk)" using lk_knownD[OF known False segs] by blast
  note p = rx_good_places[OF G]
  have win: "?n = c - length (bs_stream ?out)" "length (bs_stream ?out) = bs_bytes_written ?out - bs_bytes_read ?out"
    using p(1,4-7) G(2) by (auto simp: tr_window_size_def rx_good_def bs_inv_def u64_sub_exact)
  then have n: "unat (of_nat ?n :: 16 word) = ?n" using c by (simp add: unsigned_of_nat take_bit_nat_eq_self_iff)
  have "tr_abs_seqno (lk_rx lk) + ?n \<le> lk_limit c lk" if fin: "\<not> tx_fin_sent (lk_tx lk)"
  proof -
    have "\<not> bs_input_ended ?out" using lk_not_ended[OF inv len False fin] .
    then show ?thesis using p(2,5) win room by (auto simp: lk_limit_def)
  qed
  then have "lk_ack_ok isn (tr_abs_seqno (lk_rx lk)) (lk_limit c lk) (tx_fin_sent (lk_tx lk))
      (wrap (tr_abs_seqno (lk_rx lk)) isn, of_nat ?n)"
    using n room by (auto simp: lk_ack_ok_def)
  then have "lk_inv isn c L j ?lk" using inv by (auto simp: lk_inv_def lk_limit_def)
  moreover have "lk_step lk Acknowledge = Some ?lk" using False G(2) by (simp add: tr_ackno_def rx_good_def)
  ultimately show ?thesis by (intro exI[of _ ?lk]) simp
qed

lemma lk_inv_reading:
  assumes inv: "lk_inv isn c L j lk" and len: "length (lk_accepted lk) < 2 ^ 31"
  shows "\<exists>lk'. lk_step lk (Reading n) = Some lk' \<and> lk_inv isn c L j lk' \<and> lk_accepted lk' = lk_accepted lk"
proof -
  let ?rx = "lk_rx lk" and ?out = "tr_stream_out (lk_rx lk)"
  have known: "lk_known isn c L (tx_fin_sent (lk_tx lk)) ?rx (lk_delivered lk)" and c: "c < two64"
    using inv by (simp_all add: lk_inv_def two64_def)
  define d where "d = take n (bs_stream ?out)"
  define rx' where "rx' = ?rx\<lparr>tr_reassembler := (tr_reassembler ?rx)\<lparr>sr_output := bs_pop_output ?out n\<rparr>\<rparr>"
  have step: "rx_step ?rx (RxRead n) = Some rx'" by (simp add: rx'_def)
  have bs: "bs_inv ?out" "bs_bytes_read ?out + length (bs_stream ?out) < two64"
  proof (atomize (full), cases "tr_first_segment ?rx")
    case True
    then show "bs_inv ?out \<and> bs_bytes_read ?out + length (bs_stream ?out) < two64"
      using known bs_inv_new[OF c] by (simp add: lk_known_def tr_new_def tr_stream_out_def sr_new_def)
        (simp add: bs_new_def two64_def)
  next
    case False
    from lk_now[OF inv len] obtain segs where "lk_future L (tx_fin_sent (lk_tx lk)) c segs" by blast
    from lk_knownD[OF known False this] obtain G where G: "rx_limits segs c" "rx_good segs isn c G ?rx" by blast
    show "bs_inv ?out \<and> bs_bytes_read ?out + length (bs_stream ?out) < two64"
      using rx_good_places(1,4-6)[OF G] G(1) by (auto simp: rx_limits_def two64_def)
  qed
  have eq: "lk_step lk (Reading n) = Some (lk\<lparr>lk_rx := rx', lk_delivered := lk_delivered lk @ d\<rparr>)"
    by (simp add: bs_read_eq[OF bs(1)] rx'_def d_def)
  have read: "bs_bytes_read (tr_stream_out rx') = bs_bytes_read ?out + length d"
    using bs unfolding rx'_def tr_stream_out_def by (simp add: bs_pop_eq d_def tr_stream_out_def min_def u64_add_exact)
  have "lk_known isn c L (tx_fin_sent (lk_tx lk)) rx' (lk_delivered lk @ d)"
  proof (cases "tr_first_segment ?rx")
    case True
    then have new: "?rx = tr_new c" "lk_delivered lk = []" using known by (auto simp: lk_known_def)
    then have "bs_stream ?out = []" by (simp add: tr_new_def tr_stream_out_def sr_new_def bs_new_def)
    then show ?thesis
      using new by (simp add: lk_known_def d_def rx'_def) (simp add: tr_new_def tr_stream_out_def sr_new_def bs_new_def bs_pop_output_def)
  next
    case False
    have "(\<exists>G. rx_good segs isn c G rx') \<and> lk_delivered lk @ d = take (bs_bytes_read (tr_stream_out rx')) (concat segs)"
      if fut: "lk_future L (tx_fin_sent (lk_tx lk)) c segs" for segs
    proof -
      obtain G where G: "rx_limits segs c" "rx_good segs isn c G ?rx"
        "lk_delivered lk = take (bs_bytes_read ?out) (concat segs)"
        using lk_knownD[OF known False fut] by blast
      let ?r = "bs_bytes_read ?out" and ?w = "bs_bytes_written ?out"
      have "d = take (length d) (drop ?r (concat segs))"
        unfolding d_def rx_good_places(4)[OF G(1,2)] by (simp add: drop_take min_def)
      then have "lk_delivered lk @ d = take (?r + length d) (concat segs)"
        unfolding G(3) take_add by simp
      then show ?thesis using rx_good_read[OF G(2) step] read by auto
    qed
    then show ?thesis using False by (simp add: lk_known_def rx'_def)
  qed
  from lk_inv_rx[OF inv this] have "lk_inv isn c L j (lk\<lparr>lk_rx := rx', lk_delivered := lk_delivered lk @ d\<rparr>)"
    using read by (simp add: rx'_def)
  with eq show ?thesis by simp
qed

lemma lk_inv_step:
  assumes inv: "lk_inv isn c L j lk" and len: "length (lk_accepted lk) < 2 ^ 31 - 3" and allowed: "lk_allowed lk ev"
  shows "\<exists>lk' L' j'. lk_step lk ev = Some lk' \<and> lk_inv isn c L' j' lk' \<and>
    length (lk_accepted lk') \<le> length (lk_accepted lk) + lk_volume [ev]"
proof (cases ev)
  case (Call f)
  then show ?thesis using lk_inv_call[OF inv _ allowed[unfolded Call]] len by simp
next
  case (Arrival n)
  then show ?thesis using lk_inv_arrival[OF inv len, of n] by fastforce
next
  case Acknowledge
  have "length (lk_accepted lk) < 2 ^ 31" "0 < tr_window_size (lk_rx lk)" using len allowed Acknowledge by simp_all
  from lk_inv_acknowledge[OF inv this] show ?thesis using Acknowledge by fastforce
next
  case (AckArrival n)
  then show ?thesis using lk_inv_ack_arrival[OF inv len, of n] by fastforce
next
  case (Reading n)
  have "length (lk_accepted lk) < 2 ^ 31" using len by simp
  from lk_inv_reading[OF inv this, of n] show ?thesis using Reading by fastforce
qed

lemma lk_volume_Cons: "lk_volume (ev # evs) = lk_volume [ev] + lk_volume evs"
proof (cases ev)
  case (Call f)
  then show ?thesis by (cases f) auto
qed auto

lemma lk_inv_run:
  assumes "lk_inv isn c L j lk" "length (lk_accepted lk) + lk_volume evs < 2 ^ 31 - 3" "lk_run_allowed lk evs"
  shows "\<exists>lk' L' j'. lk_run lk evs = Some lk' \<and> lk_inv isn c L' j' lk' \<and> length (lk_accepted lk') < 2 ^ 31 - 3"
  using assms
proof (induction evs arbitrary: L j lk)
  case Nil
  then show ?case by auto
next
  case (Cons ev evs)
  have len: "length (lk_accepted lk) < 2 ^ 31 - 3" and al: "lk_allowed lk ev" using Cons.prems(2,3) by simp_all
  obtain lk1 L1 j1 where s: "lk_step lk ev = Some lk1" "lk_inv isn c L1 j1 lk1"
    "length (lk_accepted lk1) \<le> length (lk_accepted lk) + lk_volume [ev]"
    using lk_inv_step[OF Cons.prems(1) len al] by blast
  have "length (lk_accepted lk1) + lk_volume evs < 2 ^ 31 - 3"
    using s(3) Cons.prems(2) lk_volume_Cons[of ev evs] by simp
  moreover have "lk_run_allowed lk1 evs" using Cons.prems(3) s(1) by simp
  ultimately show ?case using Cons.IH[OF s(2)] s(1) by simp
qed

text \<open>What the invariant says of the two applications.\<close>

lemma lk_inv_output:
  assumes inv: "lk_inv isn c L j lk" and len: "length (lk_accepted lk) < 2 ^ 31"
    and out_def: "out = tr_stream_out (lk_rx lk)"
  shows "(\<exists>rest. lk_accepted lk = lk_delivered lk @ bs_stream out @ rest) \<and> length (bs_stream out) \<le> c \<and>
    (bs_input_ended out \<longrightarrow> lk_accepted lk = lk_delivered lk @ bs_stream out \<and> tx_fin_sent (lk_tx lk)) \<and>
    (tx_fin_sent (lk_tx lk) \<longrightarrow> tx_bytes_in_flight (lk_tx lk) = 0 \<longrightarrow> bs_input_ended out)"
proof (cases "tr_first_segment (lk_rx lk)")
  case True
  have good: "tx_good (lk_accepted lk) L j (lk_tx lk)" using inv by (simp add: lk_inv_def)
  have new: "lk_rx lk = tr_new c" "lk_delivered lk = []" using inv True by (auto simp: lk_inv_def lk_known_def)
  have "tx_confirmed_seqno (lk_tx lk) = 0" using inv new(1) by (simp add: lk_inv_def tr_new_def)
  then have "\<not> (tx_fin_sent (lk_tx lk) \<and> tx_bytes_in_flight (lk_tx lk) = 0)"
    using good tx_good_all_acked[OF good] tx_queue_started[of L j "lk_tx lk"]
    by (auto simp: tx_good_def tx_contents_def tx_queue_def)
  then show ?thesis
    using new by (simp add: out_def tr_new_def tr_stream_out_def sr_new_def bs_new_def)
next
  case False
  have good: "tx_good (lk_accepted lk) L j (lk_tx lk)"
    and known: "lk_known isn c L (tx_fin_sent (lk_tx lk)) (lk_rx lk) (lk_delivered lk)"
    and conf: "tx_confirmed_seqno (lk_tx lk) \<le> tr_abs_seqno (lk_rx lk)"
    and fin: "tx_fin_sent (lk_tx lk) \<longrightarrow> bs_stream (tx_stream (lk_tx lk)) = []"
    using inv unfolding lk_inv_def by blast+
  obtain segs where segs: "lk_future L (tx_fin_sent (lk_tx lk)) c segs" "concat segs = concat (map pay (tl L))"
    "length (concat segs) \<le> length (lk_accepted lk)" "lk_accepted lk = concat segs @ bs_stream (tx_stream (lk_tx lk))"
    by (rule lk_now[OF inv len])
  obtain G where G: "rx_limits segs c" "rx_good segs isn c G (lk_rx lk)"
    "lk_delivered lk = take (bs_bytes_read out) (concat segs)"
    using lk_knownD[OF known False segs(1)] unfolding out_def by blast
  note p = rx_good_places[OF G(1,2), folded out_def]
  have all: "lk_delivered lk @ bs_stream out = take (bs_bytes_written out) (concat segs)"
    using p(4,5) G(3) by (metis append_take_drop_id min.absorb1 take_take)
  then have pre: "lk_accepted lk = lk_delivered lk @ bs_stream out @ (drop (bs_bytes_written out) (concat segs) @ bs_stream (tx_stream (lk_tx lk)))"
    using segs(4) by (metis append.assoc append_take_drop_id)
  have cap: "length (bs_stream out) \<le> c" using p(6,7) by (simp add: bs_inv_def)
  have ended: "bs_input_ended out \<longrightarrow> tx_fin_sent (lk_tx lk)"
    using lk_not_ended[OF inv len False] by (auto simp: out_def)
  have complete: "lk_accepted lk = lk_delivered lk @ bs_stream out" if "bs_input_ended out"
    using that ended fin p(3) segs(4) all by simp
  have "bs_input_ended out" if "tx_fin_sent (lk_tx lk)" "tx_bytes_in_flight (lk_tx lk) = 0"
  proof -
    have "L \<noteq> []" using tx_good_fin[OF good] that(1) by simp
    then have "lsum L = 2 + length (concat (map pay L))"
      using good tx_contents_length[of "lk_accepted lk" L "lk_tx lk"] that(1) by (simp add: tx_good_def)
    moreover have "length (concat segs) \<le> length (concat (map pay L))" unfolding segs(2) by (cases L) auto
    ultimately show ?thesis using tx_good_all_acked[OF good that(2)] conf p(1,2) by auto
  qed
  then show ?thesis using pre cap ended complete by blast
qed

subsection \<open>Properties\<close>

text \<open>
  C1. Reliable delivery: a sender and a receiver with an output of at most 65535 bytes, joined
  by a network that loses, repeats and reorders segments and acknowledgments as it likes, less
  than \<open>2 ^ 31 - 3\<close> bytes being written. Every call returns; what the receiving
  application has read and can read is a prefix of what the sending application has written;
  the receiver's buffer stays within its capacity; when the receiver's stream is ended it holds
  everything that was written, and the sender has sent its end; and when the sender has sent the
  end of its stream and nothing is in flight, the receiver's stream is ended. Excluded are
  writing after the end of the input, empty segments among the data, and acknowledgments that
  advertise a closed window.
\<close>

theorem reliable_delivery:
  assumes "c \<le> 65535" "c' < two64" "lk_volume evs < 2 ^ 31 - 3"
    and "lk_run_allowed (lk_new (tx_new rnd c' rto isn) (tr_new c)) evs"
  shows "\<exists>lk out. lk_run (lk_new (tx_new rnd c' rto isn) (tr_new c)) evs = Some lk \<and> out = tr_stream_out (lk_rx lk) \<and>
    (\<exists>rest. lk_accepted lk = lk_delivered lk @ bs_stream out @ rest) \<and> length (bs_stream out) \<le> c \<and>
    (bs_input_ended out \<longrightarrow> lk_accepted lk = lk_delivered lk @ bs_stream out \<and> tx_fin_sent (lk_tx lk)) \<and>
    (tx_fin_sent (lk_tx lk) \<longrightarrow> tx_bytes_in_flight (lk_tx lk) = 0 \<longrightarrow> bs_input_ended out)"
proof -
  have "length (lk_accepted (lk_new (tx_new rnd c' rto isn) (tr_new c))) + lk_volume evs < 2 ^ 31 - 3"
    using assms(3) by (simp add: lk_new_def)
  from lk_inv_run[OF lk_inv_new[OF assms(1,2)] this assms(4)]
  obtain lk L j where lk: "lk_run (lk_new (tx_new rnd c' rto isn) (tr_new c)) evs = Some lk"
    "lk_inv (case isn of Some i \<Rightarrow> i | None \<Rightarrow> WrappingInt32 rnd) c L j lk" "length (lk_accepted lk) < 2 ^ 31 - 3" by blast
  have "length (lk_accepted lk) < 2 ^ 31" using lk(3) by simp
  from lk_inv_output[OF lk(2) this refl] lk(1) show ?thesis
    by (intro exI[of _ lk] exI[of _ "tr_stream_out (lk_rx lk)"]) simp
qed

subsection \<open>Two courses\<close>

text \<open>A receiver with room for one byte: the connection is opened, one byte is written and
  arrives. In the first course the application reads it before the acknowledgment is sent, in
  the second one after everything else.\<close>

definition example_segment :: "32 word \<Rightarrow> bool \<Rightarrow> bool \<Rightarrow> Buffer \<Rightarrow> TCPSegment" where
  "example_segment n syn fin data =
     \<lparr>ts_header = th_new\<lparr>th_seqno := WrappingInt32 n, th_syn := syn, th_fin := fin\<rparr>, ts_payload = data\<rparr>"

abbreviation "example_syn \<equiv> example_segment 0 True False (ts_payload ts_new)"
abbreviation "example_byte \<equiv> example_segment 1 False False (buf_of_string [7])"
abbreviation "example_fin \<equiv> example_segment 2 False True (ts_payload ts_new)"

definition example_stream :: "nat \<Rightarrow> bool \<Rightarrow> nat \<Rightarrow> nat \<Rightarrow> bytes \<Rightarrow> ByteStream" where
  "example_stream c ended written popped bs = \<lparr>bs_error = False, bs_input_ended = ended, bs_capacity = c,
     bs_buffer_size = length bs, bs_bytes_written = written, bs_bytes_read = popped, bs_stream = bs\<rparr>"

definition example_sender :: "TCPSegment list \<Rightarrow> TCPSegment list \<Rightarrow> nat \<Rightarrow> nat \<Rightarrow> bool \<Rightarrow> 16 word \<Rightarrow> ByteStream \<Rightarrow> TCPSender" where
  "example_sender queue flight nx confirmed fin win s =
     \<lparr>tx_isn = WrappingInt32 0, tx_segments_out = queue, tx_outstanding = flight, tx_initial_rto = 1000,
      tx_applying_rto = 1000, tx_last_tick_time = 0, tx_timing_begins = (flight \<noteq> []), tx_consecutive = 0,
      tx_stream = s, tx_next_seqno = nx, tx_confirmed_seqno = confirmed, tx_fin_sent = fin,
      tx_bytes_in_flight = nx - confirmed, tx_receiver_window = win\<rparr>"

definition example_receiver :: "nat \<Rightarrow> ByteStream \<Rightarrow> TCPReceiver" where
  "example_receiver abs_seqno s =
     \<lparr>tr_reassembler = \<lparr>sr_output = s, sr_capacity = 1, sr_next_assembling_index = bs_bytes_written s,
        sr_smallest_temporty_index = 0, sr_unassembled_bytes = 0, sr_storage = []\<rparr>,
      tr_capacity = 1, tr_abs_seqno = abs_seqno, tr_ISN = WrappingInt32 0, tr_first_segment = False\<rparr>"

lemma tx_fill_loop_empty: "bs_buffer_empty (tx_stream tx) \<Longrightarrow> tx_fill_loop tx seg a = Some tx"
  by (subst tx_fill_loop.simps) simp

lemma tx_fill_loop_more: "\<not> bs_buffer_empty (tx_stream tx) \<Longrightarrow> a \<noteq> 0 \<Longrightarrow>
    tx_fill_loop tx seg a = (case tx_fill_round tx seg a of (tx', seg', a') \<Rightarrow> tx_fill_loop tx' seg' a')"
  by (subst tx_fill_loop.simps) simp

lemma tx_ack_loop_empty: "tx_outstanding tx = [] \<Longrightarrow> tx_ack_loop a ack tx = (False, ack, tx)"
  by (subst tx_ack_loop.simps) simp

lemma tx_ack_loop_covered: "tx_outstanding tx \<noteq> [] \<Longrightarrow> tx_front_ackno tx \<le> a \<Longrightarrow> tx_ack_loop a False tx =
    tx_ack_loop a True (tx\<lparr>tx_applying_rto := tx_initial_rto tx, tx_consecutive := 0, tx_last_tick_time := 0,
      tx_bytes_in_flight := u64_sub (tx_bytes_in_flight tx) (tx_front_size tx), tx_outstanding := tl (tx_outstanding tx)\<rparr>)"
  by (subst tx_ack_loop.simps) (simp add: Let_def tx_front_size_def)

lemmas sender_eval = example_sender_def example_stream_def example_segment_def tx_fill_window_def
  tx_send_tcp_segment_def tx_logical_window_def tx_fill_round_def tx_payload_size_def tx_ack_received_def
  tx_front_ackno_def tx_front_size_def ts_length_in_sequence_space_def ts_new_def th_new_def MAX_PAYLOAD_SIZE_def
  buf_size_def bs_read_def bs_pop_output_def bs_peek_output_def bs_eof_def bs_buffer_empty_def wrap_def unwrap_def
  wi_add_def wi_diff_def u64_add_def u64_sub_def two64_def Let_def tx_fill_loop_empty tx_fill_loop_more
  tx_ack_loop_empty tx_ack_loop_covered

lemma example_sender_opens:
  "tx_step (tx_new 0 10 1000 (Some (WrappingInt32 0))) TxFill =
     Some (example_sender [example_syn] [example_syn] 1 0 False 0 (example_stream 10 False 0 0 []), [], [])"
  by (simp add: tx_new_def bs_new_def sender_eval)

lemma example_sender_take:
  "tx_step (example_sender (x # xs) fl nx cf fin win s) TxTake = Some (example_sender xs fl nx cf fin win s, [x], [])"
  by (simp add: example_sender_def tx_read_a_segment_def)

lemma example_sender_opened:
  "tx_ack_received (example_sender [] [example_syn] 1 0 False 0 (example_stream 10 False 0 0 [])) (WrappingInt32 1) 1 =
     Some (example_sender [] [] 1 1 False 1 (example_stream 10 False 0 0 []))"
  by (simp add: sender_eval)

lemma example_sender_write:
  "tx_step (example_sender [] [] 1 1 False 1 (example_stream 10 False 0 0 [])) (TxWrite [7]) =
     Some (example_sender [] [] 1 1 False 1 (example_stream 10 False 1 0 [7]), [], [7])"
  by (simp add: example_sender_def example_stream_def bs_write_def bs_push_back_def bs_remaining_capacity_def
      u64_add_def u64_sub_def two64_def Let_def)

lemma example_sender_sends:
  "tx_step (example_sender [] [] 1 1 False 1 (example_stream 10 False 1 0 [7])) TxFill =
     Some (example_sender [example_byte] [example_byte] 2 1 False 1 (example_stream 10 False 1 1 []), [], [])"
  by (simp add: sender_eval)

lemma example_sender_confirmed:
  "tx_ack_received (example_sender [] [example_byte] 2 1 False 1 (example_stream 10 False 1 1 [])) (WrappingInt32 2) win =
     Some (example_sender [] [] 2 2 False win (example_stream 10 False 1 1 []))"
  by (simp add: sender_eval)

lemma example_sender_ends:
  "tx_step (example_sender [] [] 2 2 False win (example_stream 10 False 1 1 [])) TxEndInput =
     Some (example_sender [] [] 2 2 False win (example_stream 10 True 1 1 []), [], [])"
  by (simp add: example_sender_def example_stream_def bs_end_input_def)

lemma example_sender_finishes:
  "tx_step (example_sender [] [] 2 2 False win (example_stream 10 True 1 1 [])) TxFill =
     Some (example_sender [example_fin] [example_fin] 3 2 True win (example_stream 10 True 1 1 []), [], [])"
proof -
  have "win \<noteq> 0 \<longrightarrow> \<not> u64_add 2 (unat win) \<le> 2"
  proof
    assume "win \<noteq> 0"
    have "unat win < 65536" using unsigned_less[of win, where 'a = nat] by simp
    then have "u64_add 2 (unat win) = 2 + unat win" by (intro u64_add_exact) (simp add: two64_def)
    then show "\<not> u64_add 2 (unat win) \<le> 2" using \<open>win \<noteq> 0\<close> by (simp add: unat_eq_0)
  qed
  moreover have "u64_add 2 (Suc 0) = 3" "u64_add 0 (Suc 0) = Suc 0" by (simp_all add: u64_add_def two64_def)
  ultimately show ?thesis by (simp add: sender_eval del: u64_add_def)
qed

lemma example_sender_finished:
  "tx_ack_received (example_sender [] [example_fin] 3 2 True win (example_stream 10 True 1 1 [])) (WrappingInt32 3) win' =
     Some (example_sender [] [] 3 3 True win' (example_stream 10 True 1 1 []))"
  by (simp add: sender_eval)

lemma example_receiver_opens:
  "tr_segment_received (tr_new 1) example_syn = Some (example_receiver 1 (example_stream 1 False 0 0 []))"
  by (simp add: rx_eval example_receiver_def example_segment_def example_stream_def ts_new_def th_new_def buf_copy_def)

lemma example_receiver_byte:
  "tr_segment_received (example_receiver 1 (example_stream 1 False 0 0 [])) example_byte =
     Some (example_receiver 2 (example_stream 1 False 1 0 [7]))"
  by (simp add: rx_eval example_receiver_def example_segment_def example_stream_def ts_new_def th_new_def buf_copy_def)

lemma example_receiver_fin:
  "tr_segment_received (example_receiver 2 (example_stream 1 False 1 1 [])) example_fin =
     Some (example_receiver 3 (example_stream 1 True 1 1 []))"
  "tr_segment_received (example_receiver 2 (example_stream 1 False 1 0 [7])) example_fin =
     Some (example_receiver 3 (example_stream 1 False 1 0 [7]))"
  by (simp_all add: rx_eval example_receiver_def example_segment_def example_stream_def ts_new_def th_new_def buf_copy_def)

lemma example_receiver_read:
  "bs_read (example_stream 1 e 1 0 [7]) 1 = ([7], example_stream 1 e 1 1 [])"
  by (simp add: example_stream_def bs_read_def bs_pop_output_def
      bs_peek_output_def u64_add_def u64_sub_def two64_def)

lemma example_receiver_window:
  "tr_window_size (example_receiver a (example_stream 1 e w r bs)) = u64_sub 1 (length bs)"
  "tr_ackno (example_receiver a s) = Some (wrap a (WrappingInt32 0))"
  by (simp_all add: tr_window_size_def tr_ackno_def tr_stream_out_def example_receiver_def example_stream_def)

lemma example_receiver_output:
  "(example_receiver a (example_stream c e w r bs))\<lparr>tr_reassembler :=
     (tr_reassembler (example_receiver a (example_stream c e w r bs)))\<lparr>sr_output := example_stream c e w r' bs'\<rparr>\<rparr> =
     example_receiver a (example_stream c e w r' bs')"
  by (simp add: example_receiver_def example_stream_def)

lemma example_parts:
  "tx_stream (example_sender q fl nx cf fin win s) = s" "tx_fin_sent (example_sender q fl nx cf fin win s) = fin"
  "tx_bytes_in_flight (example_sender q fl nx cf fin win s) = nx - cf"
  "bs_input_ended (example_stream c e w r bs) = e" "bs_stream (example_stream c e w r bs) = bs"
  "tr_stream_out (example_receiver a s) = s"
  by (simp_all add: example_sender_def example_stream_def example_receiver_def tr_stream_out_def)

definition example_start :: Link where
  "example_start = lk_new (tx_new 0 10 1000 (Some (WrappingInt32 0))) (tr_new 1)"

definition example_link :: "TCPSender \<Rightarrow> TCPReceiver \<Rightarrow> TCPSegment list \<Rightarrow> (WrappingInt32 \<times> 16 word) list \<Rightarrow> bytes \<Rightarrow> bytes \<Rightarrow> Link" where
  "example_link tx rx wire acks written delivered = \<lparr>lk_tx = tx, lk_rx = rx, lk_wire = wire, lk_acks = acks,
     lk_accepted = written, lk_delivered = delivered\<rparr>"

definition example_opening :: "lk_event list" where
  "example_opening = [Call TxFill, Call TxTake, Arrival 0, Acknowledge, AckArrival 0, Call (TxWrite [7]),
     Call TxFill, Call TxTake, Arrival 1]"

definition example_reading :: "lk_event list" where
  "example_reading = [Reading 1, Acknowledge, AckArrival 1, Call TxEndInput, Call TxFill, Call TxTake,
     Arrival 2, Acknowledge, AckArrival 2]"

definition example_closed :: "lk_event list" where
  "example_closed = [Acknowledge, AckArrival 1, Call TxEndInput, Call TxFill, Call TxTake,
     Arrival 2, Acknowledge, AckArrival 2, Reading 1]"

lemmas example_steps [unfolded One_nat_def] = example_sender_opens example_sender_take example_sender_opened example_sender_write
  example_sender_sends example_sender_confirmed example_sender_ends example_sender_finishes example_sender_finished
  example_receiver_opens example_receiver_byte example_receiver_fin example_receiver_read example_receiver_window
  example_receiver_output example_parts

definition example_middle :: Link where
  "example_middle = example_link (example_sender [] [example_byte] 2 1 False 1 (example_stream 10 False 1 1 []))
     (example_receiver 2 (example_stream 1 False 1 0 [7])) [example_syn, example_byte] [(WrappingInt32 1, 1)] [7] []"

lemmas example_eval = example_steps example_link_def u64_sub_def two64_def wrap_def wi_add_def

lemma example_middle_run:
  "lk_run example_start example_opening = Some example_middle" "lk_run_allowed example_start example_opening"
  by (simp_all add: example_start_def lk_new_def example_opening_def example_middle_def example_eval del: tx_step.simps)

lemma example_reading_run: "lk_run_allowed example_middle example_reading"
  by (simp add: example_middle_def example_reading_def example_eval del: tx_step.simps)

lemma lk_run_append: "lk_run lk (xs @ ys) = (case lk_run lk xs of None \<Rightarrow> None | Some lk' \<Rightarrow> lk_run lk' ys)"
  by (induction xs arbitrary: lk) (auto split: option.splits)

lemma lk_run_allowed_append: "lk_run_allowed lk (xs @ ys) \<longleftrightarrow>
    lk_run_allowed lk xs \<and> (case lk_run lk xs of None \<Rightarrow> True | Some lk' \<Rightarrow> lk_run_allowed lk' ys)"
  by (induction xs arbitrary: lk) (auto split: option.splits)

theorem reliable_delivery_witness:
  "\<exists>lk. lk_run (lk_new (tx_new 0 10 1000 (Some (WrappingInt32 0))) (tr_new 1)) (example_opening @ example_reading) = Some lk \<and>
     (\<exists>rest. lk_accepted lk = lk_delivered lk @ bs_stream (tr_stream_out (lk_rx lk)) @ rest)"
proof -
  have allowed: "lk_run_allowed (lk_new (tx_new 0 10 1000 (Some (WrappingInt32 0))) (tr_new 1)) (example_opening @ example_reading)"
    using example_middle_run example_reading_run by (simp add: lk_run_allowed_append example_start_def)
  have volume: "lk_volume (example_opening @ example_reading) < 2 ^ 31 - 3"
    by (simp add: example_opening_def example_reading_def)
  have "(10 :: nat) < two64" "(1 :: nat) \<le> 65535" by (simp_all add: two64_def)
  from reliable_delivery[OF this(2,1) volume allowed] show ?thesis by blast
qed

text \<open>
  What a closed window does to the end of a stream: the receiver has room for one byte,
  acknowledges it with a window of 0, the sender probes the closed window with its last segment,
  which carries no data, and the receiver acknowledges that segment and drops it. The
  sender has everything acknowledged and nothing in flight, the application has read the byte,
  and the receiver's stream is not ended; the sender has nothing left to send again.
\<close>

theorem closed_window_loses_end:
  "\<exists>lk. lk_run (lk_new (tx_new 0 10 1000 (Some (WrappingInt32 0))) (tr_new 1)) (example_opening @ example_closed) = Some lk \<and>
     tx_fin_sent (lk_tx lk) \<and> tx_bytes_in_flight (lk_tx lk) = 0 \<and> lk_delivered lk = lk_accepted lk \<and>
     bs_stream (tr_stream_out (lk_rx lk)) = [] \<and> \<not> bs_input_ended (tr_stream_out (lk_rx lk))"
proof -
  have "\<exists>lk. lk_run example_middle example_closed = Some lk \<and>
     tx_fin_sent (lk_tx lk) \<and> tx_bytes_in_flight (lk_tx lk) = 0 \<and> lk_delivered lk = lk_accepted lk \<and>
     bs_stream (tr_stream_out (lk_rx lk)) = [] \<and> \<not> bs_input_ended (tr_stream_out (lk_rx lk))"
    by (simp add: example_middle_def example_closed_def example_eval del: tx_step.simps)
  then show ?thesis using example_middle_run(1) by (simp add: lk_run_append example_start_def)
qed

end
