(* ===== verification/Command_Line.thy ===== *)
theory Command_Line
  imports FD_Adapters TCP_Config
begin

text \<open>
  The command lines of the programs that run TCP over Ethernet, IPv4 and UDP (\<open>get_config\<close> of
  \<open>apps/tcp_ip_ethernet.cc\<close>, \<open>apps/tcp_ipv4.cc\<close> and \<open>apps/tcp_udp.cc\<close>), with what they use of the C
  library: \<open>strncmp\<close> and \<open>strtol\<close> with base 0. The conversion of a loss rate goes through
  floating point numbers and is an argument (\<open>loss\<close>); so are the resolver of names and
  the random number for the source port. The loops over the arguments are shown to leave exactly the two
  positional arguments, and the Ethernet program's to do what the list of its options says.
\<close>

subsection \<open>The C library\<close>

text \<open>\<open>strncmp(a, b, n) == 0\<close> for strings without a null character.\<close>

definition strncmp_eq :: "string \<Rightarrow> string \<Rightarrow> nat \<Rightarrow> bool" where
  "strncmp_eq a b n \<longleftrightarrow> take n (a @ [CHR 0x00]) = take n (b @ [CHR 0x00])"

definition is_space :: "char \<Rightarrow> bool" where
  "is_space c \<longleftrightarrow> c = CHR 0x20 \<or> 9 \<le> (of_char c :: nat) \<and> (of_char c :: nat) \<le> 13"

definition digit_val :: "char \<Rightarrow> nat" where
  "digit_val c =
     (let n = of_char c in
      if 48 \<le> n \<and> n \<le> 57 then n - 48
      else if 97 \<le> n \<and> n \<le> 122 then n - 87
      else if 65 \<le> n \<and> n \<le> 90 then n - 55
      else 36)"

definition strtol_sign :: "string \<Rightarrow> bool \<times> string" where
  "strtol_sign s = (case s of c # cs \<Rightarrow> if c = CHR ''-'' then (True, cs) else if c = CHR ''+'' then (False, cs) else (False, s)
     | [] \<Rightarrow> (False, s))"

definition strtol_base :: "string \<Rightarrow> nat \<times> string" where
  "strtol_base s =
     (if s \<noteq> [] \<and> hd s = CHR ''0'' then
        if length s > 2 \<and> s ! 1 \<in> {CHR ''x'', CHR ''X''} \<and> digit_val (s ! 2) < 16 then (16, drop 2 s) else (8, s)
      else (10, s))"

definition strtol :: "string \<Rightarrow> int" where
  "strtol s =
     (let (neg, s1) = strtol_sign (dropWhile is_space s);
          (base, s2) = strtol_base s1;
          n = int (foldl (\<lambda>n c. base * n + digit_val c) 0 (takeWhile (\<lambda>c. digit_val c < base) s2))
      in max (- (2 ^ 63)) (min (2 ^ 63 - 1) (if neg then - n else n)))"

text \<open>How a program stops: \<open>exit\<close> with a status after printing, or an exception.\<close>

datatype ending = Exits nat string | Throws cpp_error

definition thrown :: "cpp_error + 'a \<Rightarrow> ending + 'a" where
  "thrown x = map_sum Throws id x"

definition usage_message :: "string option \<Rightarrow> string" where
  "usage_message msg = (case msg of None \<Rightarrow> [] | Some m \<Rightarrow> m) @ newline"

text \<open>\<open>argv[curr]\<close> and what follows; \<open>check_argc\<close> asks for an argument of the option and for two more.\<close>

definition too_few :: "string list \<Rightarrow> bool" where
  "too_few args \<longleftrightarrow> length args \<le> 3"

subsection \<open>TCP over Ethernet\<close>

definition TAP_DFLT :: string where
  "TAP_DFLT = ''tap10''"

definition tap_LOCAL_ADDRESS_DFLT :: string where
  "tap_LOCAL_ADDRESS_DFLT = ''169.254.10.9''"

definition GATEWAY_DFLT :: string where
  "GATEWAY_DFLT = ''169.254.10.1''"

definition tap_show_usage :: "string \<Rightarrow> string option \<Rightarrow> string" where
  "tap_show_usage argv0 msg =
     ''Usage: '' @ argv0 @ '' [options] <host> <port>'' @ newline @ newline @
     ''   Option                                                          Default'' @ newline @
     ''   --                                                              --'' @ newline @ newline @
     ''   -a <addr>       Set IP source address (client mode only)        '' @ tap_LOCAL_ADDRESS_DFLT @ newline @
     ''   -s <port>       Set TCP source port (client mode only)          (random)'' @ newline @ newline @
     ''   -n <addr>       Set IP next-hop address                         '' @ GATEWAY_DFLT @ newline @
     ''   -w <winsz>      Use a window of <winsz> bytes                   '' @ dec_string MAX_PAYLOAD_SIZE @ newline @ newline @
     ''   -t <tmout>      Set rt_timeout to tmout                         '' @ dec_string (unat TIMEOUT_DFLT) @ newline @ newline @
     ''   -d <tapdev>     Connect to tap <tapdev>                         '' @ TAP_DFLT @ newline @ newline @
     ''   -h              Show this message.'' @ newline @ newline @ usage_message msg"

record TapOptions =
  to_fsm :: TCPConfig
  to_tapdev :: string
  to_source_address :: string
  to_source_port :: string
  to_next_hop_address :: string

definition tap_defaults :: "32 word \<Rightarrow> TapOptions" where
  "tap_defaults random = \<lparr>to_fsm = cfg_default, to_tapdev = TAP_DFLT, to_source_address = tap_LOCAL_ADDRESS_DFLT,
     to_source_port = dec_string (unat (ucast random :: 16 word)), to_next_hop_address = GATEWAY_DFLT\<rparr>"

definition set_window :: "TCPConfig \<Rightarrow> string \<Rightarrow> TCPConfig" where
  "set_window c arg = c\<lparr>cfg_recv_capacity := nat (strtol arg mod 2 ^ 64)\<rparr>"

definition set_timeout :: "TCPConfig \<Rightarrow> string \<Rightarrow> TCPConfig" where
  "set_timeout c arg = c\<lparr>cfg_rt_timeout := of_int (strtol arg)\<rparr>"

function tap_options :: "string \<Rightarrow> TapOptions \<Rightarrow> string list \<Rightarrow> ending + TapOptions \<times> string list" where
  "tap_options argv0 opt args =
     (if length args > 2 then
        let arg = args ! 1; stop = (\<lambda>err. Inl (Exits 1 (tap_show_usage argv0 (Some err)))) in
        if strncmp_eq ''-a'' (args ! 0) 3 then
          if too_few args then stop ''ERROR: -a requires one argument.''
          else tap_options argv0 (opt\<lparr>to_source_address := arg\<rparr>) (drop 2 args)
        else if strncmp_eq ''-s'' (args ! 0) 3 then
          if too_few args then stop ''ERROR: -s requires one argument.''
          else tap_options argv0 (opt\<lparr>to_source_port := arg\<rparr>) (drop 2 args)
        else if strncmp_eq ''-n'' (args ! 0) 3 then
          if too_few args then stop ''ERROR: -n requires one argument.''
          else tap_options argv0 (opt\<lparr>to_next_hop_address := arg\<rparr>) (drop 2 args)
        else if strncmp_eq ''-w'' (args ! 0) 3 then
          if too_few args then stop ''ERROR: -w requires one argument.''
          else tap_options argv0 (opt\<lparr>to_fsm := set_window (to_fsm opt) arg\<rparr>) (drop 2 args)
        else if strncmp_eq ''-t'' (args ! 0) 3 then
          if too_few args then stop ''ERROR: -t requires one argument.''
          else tap_options argv0 (opt\<lparr>to_fsm := set_timeout (to_fsm opt) arg\<rparr>) (drop 2 args)
        else if strncmp_eq ''-d'' (args ! 0) 3 then
          if too_few args then stop ''ERROR: -t requires one argument.''
          else tap_options argv0 (opt\<lparr>to_tapdev := arg\<rparr>) (drop 2 args)
        else if strncmp_eq ''-h'' (args ! 0) 3 then Inl (Exits 0 (tap_show_usage argv0 None))
        else stop (''ERROR: unrecognized option '' @ args ! 0)
      else Inr (opt, args))"
  by pat_completeness auto
termination
  by (relation "measure (\<lambda>(_, _, args). length args)") auto

declare tap_options.simps [simp del]

definition tap_get_config ::
    "Resolver \<Rightarrow> 32 word \<Rightarrow> string list \<Rightarrow> ending + TCPConfig \<times> FdAdapterConfig \<times> Address \<times> string" where
  "tap_get_config rs random argv =
     throw_bind (thrown (ab_new rs)) (\<lambda>base.
     throw_bind (tap_options (argv ! 0) (tap_defaults random) (drop 1 argv)) (\<lambda>(opt, args).
     throw_bind (thrown (ad_of_host rs (args ! 0) (args ! 1))) (\<lambda>destination.
     throw_bind (thrown (ad_of_host rs (to_source_address opt) (to_source_port opt))) (\<lambda>source.
     throw_bind (thrown (ad_of_host rs (to_next_hop_address opt) ''0'')) (\<lambda>next_hop.
       Inr (to_fsm opt, (ab_cfg base)\<lparr>fa_destination := destination, fa_source := source\<rparr>, next_hop, to_tapdev opt))))))"

subsection \<open>TCP over IPv4\<close>

definition TUN_DFLT :: string where
  "TUN_DFLT = ''tun144''"

definition tun_LOCAL_ADDRESS_DFLT :: string where
  "tun_LOCAL_ADDRESS_DFLT = ''169.254.144.9''"

definition tun_show_usage :: "string \<Rightarrow> string option \<Rightarrow> string" where
  "tun_show_usage argv0 msg =
     ''Usage: '' @ argv0 @ '' [options] <host> <port>'' @ newline @ newline @
     ''   Option                                                          Default'' @ newline @
     ''   --                                                              --'' @ newline @ newline @
     ''   -l              Server (listen) mode.                           (client mode)'' @ newline @
     ''                   In server mode, <host>:<port> is the address to bind.'' @ newline @ newline @
     ''   -a <addr>       Set source address (client mode only)           '' @ tun_LOCAL_ADDRESS_DFLT @ newline @
     ''   -s <port>       Set source port (client mode only)              (random)'' @ newline @ newline @
     ''   -w <winsz>      Use a window of <winsz> bytes                   '' @ dec_string MAX_PAYLOAD_SIZE @ newline @ newline @
     ''   -t <tmout>      Set rt_timeout to tmout                         '' @ dec_string (unat TIMEOUT_DFLT) @ newline @ newline @
     ''   -d <tundev>     Connect to tun <tundev>                         '' @ TUN_DFLT @ newline @ newline @
     ''   -Lu <loss>      Set uplink loss to <rate> (float in 0..1)       (no loss)'' @ newline @
     ''   -Ld <loss>      Set downlink loss to <rate> (float in 0..1)     (no loss)'' @ newline @ newline @
     ''   -h              Show this message.'' @ newline @ newline @ usage_message msg"

record TunOptions =
  uo_fsm :: TCPConfig
  uo_filt :: FdAdapterConfig
  uo_tundev :: "string option"
  uo_listen :: bool
  uo_source_address :: string
  uo_source_port :: string

function tun_options :: "(string \<Rightarrow> 16 word) \<Rightarrow> string \<Rightarrow> TunOptions \<Rightarrow> string list \<Rightarrow> ending + TunOptions \<times> string list" where
  "tun_options loss argv0 opt args =
     (if length args > 2 then
        let arg = args ! 1; stop = (\<lambda>err. Inl (Exits 1 (tun_show_usage argv0 (Some err)))) in
        if strncmp_eq ''-l'' (args ! 0) 3 then tun_options loss argv0 (opt\<lparr>uo_listen := True\<rparr>) (drop 1 args)
        else if strncmp_eq ''-a'' (args ! 0) 3 then
          if too_few args then stop ''ERROR: -a requires one argument.''
          else tun_options loss argv0 (opt\<lparr>uo_source_address := arg\<rparr>) (drop 2 args)
        else if strncmp_eq ''-s'' (args ! 0) 3 then
          if too_few args then stop ''ERROR: -s requires one argument.''
          else tun_options loss argv0 (opt\<lparr>uo_source_port := arg\<rparr>) (drop 2 args)
        else if strncmp_eq ''-w'' (args ! 0) 3 then
          if too_few args then stop ''ERROR: -w requires one argument.''
          else tun_options loss argv0 (opt\<lparr>uo_fsm := set_window (uo_fsm opt) arg\<rparr>) (drop 2 args)
        else if strncmp_eq ''-t'' (args ! 0) 3 then
          if too_few args then stop ''ERROR: -t requires one argument.''
          else tun_options loss argv0 (opt\<lparr>uo_fsm := set_timeout (uo_fsm opt) arg\<rparr>) (drop 2 args)
        else if strncmp_eq ''-d'' (args ! 0) 3 then
          if too_few args then stop ''ERROR: -t requires one argument.''
          else tun_options loss argv0 (opt\<lparr>uo_tundev := Some arg\<rparr>) (drop 2 args)
        else if strncmp_eq ''-Lu'' (args ! 0) 3 then
          if too_few args then stop ''ERROR: -Lu requires one argument.''
          else tun_options loss argv0 (opt\<lparr>uo_filt := (uo_filt opt)\<lparr>fa_loss_rate_up := loss arg\<rparr>\<rparr>) (drop 2 args)
        else if strncmp_eq ''-Ld'' (args ! 0) 3 then
          if too_few args then stop ''ERROR: -Lu requires one argument.''
          else tun_options loss argv0 (opt\<lparr>uo_filt := (uo_filt opt)\<lparr>fa_loss_rate_dn := loss arg\<rparr>\<rparr>) (drop 2 args)
        else if strncmp_eq ''-h'' (args ! 0) 3 then Inl (Exits 0 (tun_show_usage argv0 None))
        else stop (''ERROR: unrecognized option '' @ args ! 0)
      else Inr (opt, args))"
  by pat_completeness auto
termination
  by (relation "measure (\<lambda>(_, _, _, args). length args)") auto

declare tun_options.simps [simp del]

definition tun_get_config ::
    "Resolver \<Rightarrow> (string \<Rightarrow> 16 word) \<Rightarrow> 32 word \<Rightarrow> string list \<Rightarrow> ending + TCPConfig \<times> FdAdapterConfig \<times> bool \<times> string option" where
  "tun_get_config rs loss random argv =
     throw_bind (thrown (ab_new rs)) (\<lambda>base.
     throw_bind (tun_options loss (argv ! 0)
         \<lparr>uo_fsm = cfg_default, uo_filt = ab_cfg base, uo_tundev = None, uo_listen = False,
          uo_source_address = tun_LOCAL_ADDRESS_DFLT, uo_source_port = dec_string (unat (ucast random :: 16 word))\<rparr>
         (drop 1 argv)) (\<lambda>(opt, args).
     throw_bind
       (if uo_listen opt then
          throw_bind (thrown (ad_of_host rs ''0'' (args ! 1))) (\<lambda>source.
          throw_bind (thrown (ad_port rs source)) (\<lambda>port.
            if port = 0
            then Inl (Exits 1 (tun_show_usage (argv ! 0) (Some ''ERROR: listen port cannot be zero in server mode.'')))
            else Inr ((uo_filt opt)\<lparr>fa_source := source\<rparr>)))
        else
          throw_bind (thrown (ad_of_host rs (args ! 0) (args ! 1))) (\<lambda>destination.
          throw_bind (thrown (ad_of_host rs (uo_source_address opt) (uo_source_port opt))) (\<lambda>source.
            Inr ((uo_filt opt)\<lparr>fa_destination := destination, fa_source := source\<rparr>))))
       (\<lambda>c_filt. Inr (uo_fsm opt, c_filt, uo_listen opt, uo_tundev opt))))"

subsection \<open>TCP over UDP\<close>

definition udp_show_usage :: "string \<Rightarrow> string option \<Rightarrow> string" where
  "udp_show_usage argv0 msg =
     ''Usage: '' @ argv0 @ '' [options] <host> <port>'' @ newline @ newline @
     ''   Option                                                          Default'' @ newline @
     ''   --                                                              --'' @ newline @ newline @
     ''   -l              Server (listen) mode.                           (client mode)'' @ newline @
     ''                   In server mode, <host>:<port> is the address to bind.'' @ newline @ newline @
     ''   -w <winsz>      Use a window of <winsz> bytes                   '' @ dec_string MAX_PAYLOAD_SIZE @ newline @ newline @
     ''   -t <tmout>      Set rt_timeout to tmout                         '' @ dec_string (unat TIMEOUT_DFLT) @ newline @ newline @
     ''   -Lu <loss>      Set uplink loss to <rate> (float in 0..1)       (no loss)'' @ newline @
     ''   -Ld <loss>      Set downlink loss to <rate> (float in 0..1)     (no loss)'' @ newline @ newline @
     ''   -h              Show this message and quit.'' @ newline @ newline @ usage_message msg"

record UdpOptions =
  po_fsm :: TCPConfig
  po_filt :: FdAdapterConfig
  po_listen :: bool

function udp_options :: "(string \<Rightarrow> 16 word) \<Rightarrow> string \<Rightarrow> UdpOptions \<Rightarrow> string list \<Rightarrow> ending + UdpOptions \<times> string list" where
  "udp_options loss argv0 opt args =
     (if length args > 2 then
        let arg = args ! 1; stop = (\<lambda>err. Inl (Exits 1 (udp_show_usage argv0 (Some err)))) in
        if strncmp_eq ''-l'' (args ! 0) 3 then udp_options loss argv0 (opt\<lparr>po_listen := True\<rparr>) (drop 1 args)
        else if strncmp_eq ''-w'' (args ! 0) 3 then
          if too_few args then stop ''ERROR: -w requires one argument.''
          else udp_options loss argv0 (opt\<lparr>po_fsm := set_window (po_fsm opt) arg\<rparr>) (drop 2 args)
        else if strncmp_eq ''-t'' (args ! 0) 3 then
          if too_few args then stop ''ERROR: -t requires one argument.''
          else udp_options loss argv0 (opt\<lparr>po_fsm := set_timeout (po_fsm opt) arg\<rparr>) (drop 2 args)
        else if strncmp_eq ''-Lu'' (args ! 0) 3 then
          if too_few args then stop ''ERROR: -Lu requires one argument.''
          else udp_options loss argv0 (opt\<lparr>po_filt := (po_filt opt)\<lparr>fa_loss_rate_up := loss arg\<rparr>\<rparr>) (drop 2 args)
        else if strncmp_eq ''-Ld'' (args ! 0) 3 then
          if too_few args then stop ''ERROR: -Lu requires one argument.''
          else udp_options loss argv0 (opt\<lparr>po_filt := (po_filt opt)\<lparr>fa_loss_rate_dn := loss arg\<rparr>\<rparr>) (drop 2 args)
        else if strncmp_eq ''-h'' (args ! 0) 3 then Inl (Exits 0 (udp_show_usage argv0 None))
        else stop (''ERROR: unrecognized option '' @ args ! 0)
      else Inr (opt, args))"
  by pat_completeness auto
termination
  by (relation "measure (\<lambda>(_, _, _, args). length args)") auto

declare udp_options.simps [simp del]

definition udp_get_config ::
    "Resolver \<Rightarrow> (string \<Rightarrow> 16 word) \<Rightarrow> string list \<Rightarrow> ending + TCPConfig \<times> FdAdapterConfig \<times> bool" where
  "udp_get_config rs loss argv =
     throw_bind (thrown (ab_new rs)) (\<lambda>base.
     throw_bind (udp_options loss (argv ! 0) \<lparr>po_fsm = cfg_default, po_filt = ab_cfg base, po_listen = False\<rparr> (drop 1 argv))
       (\<lambda>(opt, args).
     throw_bind
       (if po_listen opt then
          throw_bind (thrown (ad_of_host rs ''0'' (argv ! (length argv - 1)))) (\<lambda>source.
            Inr ((po_filt opt)\<lparr>fa_source := source\<rparr>))
        else
          throw_bind (thrown (ad_of_host rs (argv ! (length argv - 2)) (argv ! (length argv - 1)))) (\<lambda>destination.
            Inr ((po_filt opt)\<lparr>fa_destination := destination\<rparr>)))
       (\<lambda>c_filt. Inr (po_fsm opt, c_filt, po_listen opt))))"

subsection \<open>Two positional arguments are left\<close>

text \<open>What the three loops have in common: they stop at two arguments, and otherwise end the program
  or take some of the arguments and leave at least two.\<close>

locale option_loop =
  fixes loop :: "'o \<Rightarrow> string list \<Rightarrow> ending + 'o \<times> string list"
  assumes finish: "length args \<le> 2 \<Longrightarrow> loop opt args = Inr (opt, args)"
    and take_some: "2 < length args \<Longrightarrow> loop opt args = Inr r \<Longrightarrow>
      (\<exists>opt'. loop opt' (drop 1 args) = Inr r) \<or> (\<exists>opt'. loop opt' (drop 2 args) = Inr r \<and> 4 \<le> length args)"
begin

lemma two_left:
  assumes "loop opt args = Inr (opt', rest)" "2 \<le> length args"
  shows "rest = drop (length args - 2) args"
  using assms
proof (induction "length args" arbitrary: opt args rule: less_induct)
  case less
  show ?case
  proof (cases "2 < length args")
    case True
    from take_some[OF True less.prems(1)] True
    have "\<exists>opt1 m. 0 < m \<and> m + 2 \<le> length args \<and> loop opt1 (drop m args) = Inr (opt', rest)"
      by (elim disjE exE conjE) (fastforce intro: exI[of _ "1 :: nat"], fastforce intro: exI[of _ "2 :: nat"])
    then obtain opt1 m where m: "0 < m" "m + 2 \<le> length args" "loop opt1 (drop m args) = Inr (opt', rest)" by blast
    then have "rest = drop (length (drop m args) - 2) (drop m args)" using less.hyps[OF _ m(3)] by simp
    then show ?thesis using m(2) by (simp add: add.commute)
  next
    case False
    then show ?thesis using less.prems finish[of args opt] by simp
  qed
qed

end

interpretation tap_loop: option_loop "tap_options argv0" for argv0
proof (unfold_locales, goal_cases)
  case (1 args opt)
  then show ?case by (simp add: tap_options.simps)
next
  case (2 args opt r)
  then show ?case
    by (subst (asm) tap_options.simps) (auto simp: Let_def too_few_def split: if_splits)
qed

interpretation tun_loop: option_loop "tun_options loss argv0" for loss argv0
proof (unfold_locales, goal_cases)
  case (1 args opt)
  then show ?case by (simp add: tun_options.simps)
next
  case (2 args opt r)
  then show ?case
    by (subst (asm) tun_options.simps) (auto simp: Let_def too_few_def split: if_splits)
qed

interpretation udp_loop: option_loop "udp_options loss argv0" for loss argv0
proof (unfold_locales, goal_cases)
  case (1 args opt)
  then show ?case by (simp add: udp_options.simps)
next
  case (2 args opt r)
  then show ?case
    by (subst (asm) udp_options.simps) (auto simp: Let_def too_few_def split: if_splits)
qed

text \<open>
  The arguments that the three programs read after their loops exist: whatever the arguments are, as long as
  there are two, a loop over the options that returns leaves exactly the last two of them, the host and the
  port.
\<close>

theorem options_leave_two:
  assumes "2 \<le> length args"
  shows "(tap_options argv0 o1 args = Inr (o1', rest) \<longrightarrow> rest = drop (length args - 2) args) \<and>
    (tun_options loss argv0 o2 args = Inr (o2', rest) \<longrightarrow> rest = drop (length args - 2) args) \<and>
    (udp_options loss argv0 o3 args = Inr (o3', rest) \<longrightarrow> rest = drop (length args - 2) args)"
  using tap_loop.two_left tun_loop.two_left udp_loop.two_left assms by blast

theorem options_leave_two_witness:
  "tap_options ''prog'' (tap_defaults 0) [''-w'', ''0x10'', ''host'', ''80''] =
     Inr ((tap_defaults 0)\<lparr>to_fsm := cfg_default\<lparr>cfg_recv_capacity := 16\<rparr>\<rparr>, drop 2 [''-w'', ''0x10'', ''host'', ''80''])"
proof -
  have "tap_options ''prog'' (tap_defaults 0) [''-w'', ''0x10'', ''host'', ''80''] =
     Inr ((tap_defaults 0)\<lparr>to_fsm := cfg_default\<lparr>cfg_recv_capacity := 16\<rparr>\<rparr>, [''host'', ''80''])"
    by (simp add: tap_options.simps strncmp_eq_def too_few_def set_window_def strtol_def strtol_sign_def strtol_base_def
        is_space_def digit_val_def tap_defaults_def)
  then show ?thesis using options_leave_two[of "[''-w'', ''0x10'', ''host'', ''80'']" "''prog''" "tap_defaults 0"] by simp
qed

subsection \<open>The options of the Ethernet program\<close>

lemma digit_val_digit: "d < 10 \<Longrightarrow> digit_val (digit_char d) = d"
  by (simp add: digit_val_def of_char_digit Let_def)

lemma digit_val_decimal: "is_decimal c \<Longrightarrow> digit_val c = of_char c - 48 \<and> digit_val c < 10"
  by (auto simp: digit_val_def is_decimal_def Let_def)

lemma hd_dec_string: "0 < n \<Longrightarrow> hd (dec_string n) \<noteq> CHR ''0''"
proof (induction n rule: less_induct)
  case (less n)
  show ?case
  proof (cases "n < 10")
    case True
    then have "digit_val (hd (dec_string n)) = n" by (simp add: to_base.simps[of 10 n] digit_val_digit)
    moreover have "digit_val CHR ''0'' = 0" by (simp add: digit_val_def)
    ultimately show ?thesis using less.prems by auto
  next
    case False
    then have "0 < n div 10" "n div 10 < n" by auto
    then show ?thesis using False less.IH[of "n div 10"] by (simp add: to_base.simps[of 10 n])
  qed
qed

lemma strtol_dec_string:
  assumes "n < 2 ^ 63"
  shows "strtol (dec_string n) = int n"
proof -
  obtain c cs where s: "dec_string n = c # cs" by (cases "dec_string n") simp_all
  have dec: "\<forall>x \<in> set (dec_string n). is_decimal x" by (rule dec_string_decimal)
  then have c: "is_decimal c" using s by simp
  have pre: "dropWhile is_space (dec_string n) = dec_string n" "strtol_sign (dec_string n) = (False, dec_string n)"
    using c unfolding s by (auto simp: is_space_def is_decimal_def strtol_sign_def)
  have val: "foldl (\<lambda>n c. 10 * n + digit_val c) a ds = foldl (\<lambda>n c. 10 * n + (of_char c - 48)) a ds"
    if "\<forall>x \<in> set ds. is_decimal x" for a ds
    using that by (induction ds arbitrary: a) (auto simp: digit_val_decimal)
  show ?thesis
  proof (cases "n = 0")
    case True
    have "char_of (48 :: nat) = CHR ''0''" by code_simp
    then have "dec_string n = ''0''" using True by (simp add: to_base.simps digit_char_def)
    then show ?thesis using True by (simp add: strtol_def pre strtol_base_def digit_val_def strtol_sign_def is_space_def)
  next
    case False
    then have base: "strtol_base (dec_string n) = (10, dec_string n)" using hd_dec_string[of n] by (simp add: strtol_base_def)
    have digits: "takeWhile (\<lambda>c. digit_val c < 10) (dec_string n) = dec_string n"
      unfolding takeWhile_eq_all_conv using dec digit_val_decimal by blast
    have "foldl (\<lambda>n c. 10 * n + digit_val c) 0 (dec_string n) = n"
      using val[OF dec, of 0] digits_value_dec_string[of n] by (simp add: digits_value_def)
    then show ?thesis using assms by (simp add: strtol_def pre base digits)
  qed
qed

datatype tap_option =
    SourceAddress string
  | SourcePort string
  | NextHop string
  | Window nat
  | RtTimeout nat
  | Device string

fun option_args :: "tap_option \<Rightarrow> string list" where
  "option_args (SourceAddress a) = [''-a'', a]"
| "option_args (SourcePort p) = [''-s'', p]"
| "option_args (NextHop a) = [''-n'', a]"
| "option_args (Window n) = [''-w'', dec_string n]"
| "option_args (RtTimeout n) = [''-t'', dec_string n]"
| "option_args (Device d) = [''-d'', d]"

fun apply_option :: "tap_option \<Rightarrow> TapOptions \<Rightarrow> TapOptions" where
  "apply_option (SourceAddress a) opt = opt\<lparr>to_source_address := a\<rparr>"
| "apply_option (SourcePort p) opt = opt\<lparr>to_source_port := p\<rparr>"
| "apply_option (NextHop a) opt = opt\<lparr>to_next_hop_address := a\<rparr>"
| "apply_option (Window n) opt = opt\<lparr>to_fsm := (to_fsm opt)\<lparr>cfg_recv_capacity := n\<rparr>\<rparr>"
| "apply_option (RtTimeout n) opt = opt\<lparr>to_fsm := (to_fsm opt)\<lparr>cfg_rt_timeout := of_nat n\<rparr>\<rparr>"
| "apply_option (Device d) opt = opt\<lparr>to_tapdev := d\<rparr>"

fun option_fits :: "tap_option \<Rightarrow> bool" where
  "option_fits (Window n) \<longleftrightarrow> n < 2 ^ 63"
| "option_fits (RtTimeout n) \<longleftrightarrow> n < 2 ^ 63"
| "option_fits _ \<longleftrightarrow> True"

lemma tap_options_one:
  assumes "option_fits x" "2 \<le> length args"
  shows "tap_options argv0 opt (option_args x @ args) = tap_options argv0 (apply_option x opt) args"
proof -
  have "length (option_args x) = 2" by (cases x) auto
  then have few: "2 < length (option_args x @ args)" "\<not> too_few (option_args x @ args)" using assms(2) by (auto simp: too_few_def)
  show ?thesis
    using assms(1) few
    by (cases x; subst tap_options.simps)
      (auto simp: strncmp_eq_def Let_def set_window_def set_timeout_def strtol_dec_string)
qed

lemma tap_options_all:
  assumes "list_all option_fits opts"
  shows "tap_options argv0 opt (concat (map option_args opts) @ [host, port]) = Inr (fold apply_option opts opt, [host, port])"
  using assms
proof (induction opts arbitrary: opt)
  case Nil
  then show ?case by (simp add: tap_options.simps)
next
  case (Cons x opts)
  then show ?case by (simp add: tap_options_one)
qed

text \<open>
  C29. The command line of the Ethernet program: for every list of options, in any order and repeated as one
  likes, with windows and timeouts below \<open>2 ^ 63\<close>, \<open>get_config\<close> gives the defaults changed by the options
  one after the other (a timeout modulo \<open>2 ^ 16\<close>), and the addresses that the resolver finds for the host
  and port, the source and the next hop; its exceptions are those of the resolver.
\<close>

theorem tap_config_applies:
  assumes "list_all option_fits opts"
  shows "tap_get_config rs random (prog # concat (map option_args opts) @ [host, port]) =
    (let opt = fold apply_option opts (tap_defaults random) in
     thrown (throw_bind (ab_new rs) (\<lambda>base.
       throw_bind (ad_of_host rs host port) (\<lambda>destination.
       throw_bind (ad_of_host rs (to_source_address opt) (to_source_port opt)) (\<lambda>source.
       throw_bind (ad_of_host rs (to_next_hop_address opt) ''0'') (\<lambda>next_hop.
         Inr (to_fsm opt, (ab_cfg base)\<lparr>fa_destination := destination, fa_source := source\<rparr>, next_hop, to_tapdev opt)))))))"
proof -
  have bind: "throw_bind (thrown x) (\<lambda>a. thrown (f a)) = thrown (throw_bind x f)" for x :: "cpp_error + 'x" and f :: "'x \<Rightarrow> cpp_error + 'y"
    by (cases x) (simp_all add: thrown_def)
  show ?thesis
    unfolding tap_get_config_def
    using tap_options_all[OF assms, of prog "tap_defaults random" host port]
    by (cases "ab_new rs") (simp_all add: Let_def thrown_def throw_bind_def map_sum.simps split: sum.split)
qed

theorem tap_config_applies_witness:
  "tap_get_config numeric_only 0 [''prog'', ''-w'', dec_string 500, ''-a'', ''10.0.0.2'', ''-w'', dec_string 9, ''10.0.0.1'', ''80''] =
     thrown (throw_bind (ab_new numeric_only) (\<lambda>base.
       throw_bind (ad_of_host numeric_only ''10.0.0.1'' ''80'') (\<lambda>destination.
       throw_bind (ad_of_host numeric_only ''10.0.0.2'' (dec_string 0)) (\<lambda>source.
       throw_bind (ad_of_host numeric_only GATEWAY_DFLT ''0'') (\<lambda>next_hop.
         Inr (cfg_default\<lparr>cfg_recv_capacity := 9\<rparr>, (ab_cfg base)\<lparr>fa_destination := destination, fa_source := source\<rparr>,
              next_hop, TAP_DFLT))))))"
  using tap_config_applies[of "[Window 500, SourceAddress ''10.0.0.2'', Window 9]" numeric_only 0 "''prog''" "''10.0.0.1''" "''80''"]
  by (simp add: tap_defaults_def)

end
