(* ===== verification/UDP_Dump.thy ===== *)
theory UDP_Dump
  imports Command_Line
begin

text \<open>
  The program that captures UDP datagrams and prints the TCP segments in them (\<open>apps/udp_tcpdump.cc\<close>).
  libpcap and \<open>inet_ntop\<close> are arguments (records \<open>Pcap\<close> and \<open>InetNtop\<close>); a packet is the list of the captured
  bytes, and a read outside of it, which in C++ has no defined result, gives \<open>None\<close> or \<open>Fault\<close>. A
  payload length that has wrapped around is larger than any string can be: making a string of it throws
  \<open>std::length_error\<close>, which nothing catches (\<open>LengthError\<close>). The lemmas say exactly when that happens, and
  that the segments of well-formed datagrams are printed with their fields.
\<close>

subsection \<open>Reading a packet\<close>

definition byte_at :: "bytes \<Rightarrow> nat \<Rightarrow> byte option" where
  "byte_at d i = (if i < length d then Some (d ! i) else None)"

definition bytes_at :: "bytes \<Rightarrow> nat \<Rightarrow> nat \<Rightarrow> bytes option" where
  "bytes_at d i n = (if i + n \<le> length d then Some (take n (drop i d)) else None)"

lemma byte_at_inside [simp]: "i < length d \<Longrightarrow> byte_at d i = Some (d ! i)"
  by (simp add: byte_at_def)

lemma bytes_at_inside [simp]: "i + n \<le> length d \<Longrightarrow> bytes_at d i n = Some (take n (drop i d))"
  by (simp add: bytes_at_def)

record InetNtop =
  in_ntop4 :: "bytes \<Rightarrow> string option"
  in_ntop6 :: "bytes \<Rightarrow> string option"

definition inet4_addr :: "InetNtop \<Rightarrow> bytes \<Rightarrow> string" where
  "inet4_addr nt addr = (case in_ntop4 nt addr of None \<Rightarrow> ''unknown'' | Some s \<Rightarrow> s)"

definition inet6_addr :: "InetNtop \<Rightarrow> bytes \<Rightarrow> string" where
  "inet6_addr nt addr = (case in_ntop6 nt addr of None \<Rightarrow> ''unknown'' | Some s \<Rightarrow> s)"

text \<open>The chain of extension headers: what was printed when it does not lead to UDP, or the offset after it.\<close>

function ipv6_headers :: "int \<Rightarrow> bytes \<Rightarrow> byte \<Rightarrow> nat \<Rightarrow> (string + nat) option" where
  "ipv6_headers len data nxt data_offset =
     (if nxt = 0x11 then Some (Inr data_offset)
      else if nxt \<noteq> 0 \<and> nxt \<noteq> 43 \<and> nxt \<noteq> 60 then Some (Inl ''Not UDP or fragmented; '')
      else case byte_at data data_offset of
          None \<Rightarrow> None
        | Some nxt' \<Rightarrow>
            (case byte_at data (data_offset + 1) of
               None \<Rightarrow> None
             | Some ext \<Rightarrow>
                 let data_offset' = data_offset + 8 * (1 + unat ext) in
                 if len < int data_offset' + 2 then Some (Inl []) else ipv6_headers len data nxt' data_offset'))"
  by pat_completeness auto
termination
proof (relation "measure (\<lambda>(len, _, _, data_offset). nat (len - int data_offset))", goal_cases)
  case (2 len data nxt data_offset nxt' ext data_offset')
  then have "data_offset < data_offset'" by simp
  moreover have "int data_offset' \<le> len" using 2 by linarith
  ultimately show ?case by simp
qed simp

declare ipv6_headers.simps [simp del]

text \<open>The return value, the two addresses and what was printed to the error stream.\<close>

definition process_ipv4_ipv6 :: "InetNtop \<Rightarrow> int \<Rightarrow> bytes \<Rightarrow> string \<Rightarrow> string \<Rightarrow> (int \<times> string \<times> string \<times> string) option" where
  "process_ipv4_ipv6 nt len data src_addr dst_addr =
     (if len < 1 then Some (-1, src_addr, dst_addr, [])
      else Option.bind (byte_at data 0) (\<lambda>first.
        let pt = first AND 0xf0 in
        if pt = 0x40 then
          let data_offset = unat (first AND 0x0f) * 4 in
          if len < int data_offset then Some (-1, src_addr, dst_addr, [])
          else Option.bind (byte_at data 9) (\<lambda>proto.
            if proto \<noteq> 0x11 then Some (-1, src_addr, dst_addr, ''Not UDP; '')
            else
              Option.bind (bytes_at data 12 4) (\<lambda>src.
              Option.bind (bytes_at data 16 4) (\<lambda>dst.
                Some (int data_offset + 8, inet4_addr nt src, inet4_addr nt dst, []))))
        else if pt = 0x60 then
          if len < 42 then Some (-1, src_addr, dst_addr, [])
          else Option.bind (byte_at data 6) (\<lambda>nxt.
            Option.bind (ipv6_headers len data nxt 40) (\<lambda>r.
              case r of
                Inl err \<Rightarrow> Some (-1, src_addr, dst_addr, err)
              | Inr data_offset \<Rightarrow>
                  Option.bind (bytes_at data 8 16) (\<lambda>src.
                  Option.bind (bytes_at data 24 16) (\<lambda>dst.
                    Some (int data_offset + 8, inet6_addr nt src, inet6_addr nt dst, [])))))
        else Some (-1, src_addr, dst_addr, [])))"

subsection \<open>The link layer\<close>

datatype datalink = DLT_NULL | DLT_EN10MB | DLT_LINUX_SLL | DLT_LINUX_SLL2 | DLT_RAW | DLT_OTHER int

datatype link_layer = SkipPacket string | UnknownLink string | HeaderOffset nat

definition link_u16 :: "bytes \<Rightarrow> nat \<Rightarrow> 16 word option" where
  "link_u16 pkt i = Option.bind (byte_at pkt i) (\<lambda>a. Option.bind (byte_at pkt (i + 1)) (\<lambda>b.
     Some (push_bit 8 (ucast a) OR ucast b)))"

definition link_ethertype :: "bytes \<Rightarrow> nat \<Rightarrow> nat \<Rightarrow> link_layer option" where
  "link_ethertype pkt hdr_off i =
     (if length pkt < hdr_off then Some (SkipPacket (''[INFO] Skipping malformed packet.'' @ newline))
      else Option.bind (link_u16 pkt i) (\<lambda>pt.
        if pt \<noteq> 0x0800 \<and> pt \<noteq> 0x86dd then Some (SkipPacket (''[INFO] Skipping non-IP packet.'' @ newline))
        else Some (HeaderOffset hdr_off)))"

fun link_header :: "datalink \<Rightarrow> bytes \<Rightarrow> link_layer option" where
  "link_header DLT_NULL pkt =
     (if length pkt < 4 then Some (SkipPacket (''[INFO] Skipping malformed packet.'' @ newline))
      else Option.bind (byte_at pkt 3) (\<lambda>pt.
        if pt \<noteq> 2 \<and> pt \<noteq> 24 \<and> pt \<noteq> 28 \<and> pt \<noteq> 30 then Some (SkipPacket (''[INFO] Skipping non-IP packet.'' @ newline))
        else Some (HeaderOffset 4)))"
| "link_header DLT_EN10MB pkt = link_ethertype pkt 14 12"
| "link_header DLT_LINUX_SLL pkt = link_ethertype pkt 16 14"
| "link_header DLT_LINUX_SLL2 pkt = link_ethertype pkt 20 0"
| "link_header DLT_RAW pkt = Some (HeaderOffset 0)"
| "link_header (DLT_OTHER n) pkt = Some (UnknownLink ''Mysterious datalink type. Giving up.'')"

subsection \<open>Printing a packet\<close>

definition flag_string :: "TCPHeader \<Rightarrow> string" where
  "flag_string h = (if th_urg h then ''U'' else []) @ (if th_psh h then ''P'' else []) @ (if th_rst h then ''R'' else []) @
     (if th_syn h then ''S'' else []) @ (if th_fin h then ''F'' else []) @ (if th_ack h then ''.'' else [])"

definition segment_line :: "string \<Rightarrow> string \<Rightarrow> ParseResult \<Rightarrow> TCPSegment \<Rightarrow> nat \<Rightarrow> string" where
  "segment_line src dst res seg payload_len =
     (let h = ts_header seg; seqlen = (of_nat (ts_length_in_sequence_space seg) :: 32 word) in
      src @ '':'' @ dec_string (unat (th_sport h)) @ '' > '' @ dst @ '':'' @ dec_string (unat (th_dport h)) @ newline @
      ''    Flags ['' @ flag_string h @ ''] cksum 0x'' @ set_width CHR ''0'' 4 (hex_string (unat (th_cksum h))) @
      (if res = NoError then '' (correct)'' else '' (incorrect!)'') @
      '' seq '' @ dec_string (unat (raw_value (th_seqno h))) @
      (if 0 < seqlen then '':'' @ dec_string (unat (raw_value (wi_add (th_seqno h) seqlen))) else []) @
      '' ack '' @ dec_string (unat (raw_value (th_ackno h))) @ '' win '' @ dec_string (unat (th_win h)) @
      '' length '' @ dec_string payload_len @ newline)"

definition dump_payload :: "string \<Rightarrow> string \<Rightarrow> bytes \<Rightarrow> string" where
  "dump_payload src dst payload =
     (let (res, seg) = ts_parse ts_new (buf_of_string payload) 0 in
      (if res \<noteq> NoError \<and> res \<noteq> BadChecksum
       then ''(did not recognize TCP header) src: '' @ src @ '' dst: '' @ dst @ newline
       else segment_line src dst res seg (length payload)) @ hexdump payload 8)"

text \<open>The body of the loop: the two streams of output, or giving up, or a read outside of the packet, or
  the exception of a string that is longer than \<open>std::string::max_size()\<close> (its value in libstdc++).\<close>

datatype dump_result = Fault | LengthError | GaveUp string | Shown string string

definition string_max_size :: u64 where
  "string_max_size = 2 ^ 62 - 1"

definition dump_packet :: "InetNtop \<Rightarrow> datalink \<Rightarrow> bytes \<Rightarrow> dump_result" where
  "dump_packet nt dl_type pkt =
     (case link_header dl_type pkt of
        None \<Rightarrow> Fault
      | Some (SkipPacket err) \<Rightarrow> Shown [] err
      | Some (UnknownLink err) \<Rightarrow> GaveUp err
      | Some (HeaderOffset hdr_off) \<Rightarrow>
          (case process_ipv4_ipv6 nt (int (length pkt) - int hdr_off) (drop hdr_off pkt) [] [] of
             None \<Rightarrow> Fault
           | Some (start_off, src, dst, err) \<Rightarrow>
               if start_off < 0 then Shown [] (err @ ''Error parsing IPv4/IPv6 packet. Skipping.'' @ newline)
               else
                 let payload_off = hdr_off + nat start_off;
                     payload_len = u64_sub (length pkt) payload_off in
                 if payload_len > string_max_size then LengthError
                 else case bytes_at pkt payload_off payload_len of
                   None \<Rightarrow> Fault
                 | Some payload \<Rightarrow> Shown (dump_payload src dst payload) err))"

subsection \<open>The program\<close>

definition dump_show_usage :: "string \<Rightarrow> string option \<Rightarrow> string" where
  "dump_show_usage arg0 errmsg =
     ''Usage: '' @ arg0 @ '' [-i <intf>] [-F <file>] [-h|--help] <expression>'' @ newline @ newline @
     ''  -i <intf>    only capture packets from <intf> (default: all)'' @ newline @ newline @
     ''  -F <file>    reads in a filter expression from <file>'' @ newline @
     ''               <expression> is ignored if -F is supplied.'' @ newline @ newline @
     ''  -h, --help   show this message'' @ newline @ newline @
     ''  <expression> a filter expression in pcap-filter(7) syntax'' @ newline @
     (case errmsg of None \<Rightarrow> [] | Some m \<Rightarrow> newline @ m) @ newline"

fun dump_arguments :: "string \<Rightarrow> string option \<Rightarrow> nat \<Rightarrow> string list \<Rightarrow> (nat \<times> string) + (nat \<times> string option)" where
  "dump_arguments arg0 dev cur [] = Inr (cur, dev)"
| "dump_arguments arg0 dev cur (arg # args) =
     (if strncmp_eq ''-i'' arg 3 then
        (case args of
           [] \<Rightarrow> Inl (1, dump_show_usage arg0 (Some ''ERROR: -i requires an argument''))
         | d # rest \<Rightarrow> dump_arguments arg0 (Some d) (cur + 2) rest)
      else if strncmp_eq ''-h'' arg 3 \<or> strncmp_eq ''--help'' arg 7 then Inl (0, dump_show_usage arg0 None)
      else Inr (cur, dev))"

datatype capture = CaptureTimeout | Captured bytes

record Pcap =
  pc_open :: "string option \<Rightarrow> string + datalink"
  pc_description :: "datalink \<Rightarrow> string"
  pc_compile :: "string \<Rightarrow> bool"
  pc_setfilter :: bool
  pc_geterr :: string
  pc_captures :: "capture list"
  pc_last :: int

text \<open>A capture ends with the negative value \<open>pc_last\<close> of \<open>pcap_next_ex\<close>. After an error (-1) the message is
  asked for from the handle that \<open>pcap_close\<close> has just freed, which has no defined result either. An
  exception leaves \<open>main\<close> and terminates the program.\<close>

datatype dump_end = Faulted | Terminated | Finished nat string string

fun dump_loop :: "InetNtop \<Rightarrow> Pcap \<Rightarrow> datalink \<Rightarrow> string \<Rightarrow> string \<Rightarrow> capture list \<Rightarrow> dump_end" where
  "dump_loop nt pc dl_type out err [] =
     (if pc_last pc = -1 then Faulted else Finished 0 out err)"
| "dump_loop nt pc dl_type out err (CaptureTimeout # cs) = dump_loop nt pc dl_type out err cs"
| "dump_loop nt pc dl_type out err (Captured pkt # cs) =
     (case dump_packet nt dl_type pkt of
        Fault \<Rightarrow> Faulted
      | LengthError \<Rightarrow> Terminated
      | GaveUp e \<Rightarrow> Finished 1 out (err @ e)
      | Shown a b \<Rightarrow> dump_loop nt pc dl_type (out @ a) (err @ b) cs)"

definition filter_expression :: "string list \<Rightarrow> string" where
  "filter_expression args = concat (map (\<lambda>a. a @ '' '') args)"

definition dump_main :: "InetNtop \<Rightarrow> Pcap \<Rightarrow> string \<Rightarrow> string list \<Rightarrow> dump_end" where
  "dump_main nt pc arg0 args =
     (case dump_arguments arg0 None 1 args of
        Inl (status, out) \<Rightarrow> Finished status out []
      | Inr (exp_start, dev) \<Rightarrow>
          let out = (case dev of None \<Rightarrow> ''Capturing on all interfaces'' | Some d \<Rightarrow> ''Capturing on interface '' @ d) in
          (case pc_open pc dev of
             Inl errbuf \<Rightarrow> Finished 1 (out @ newline @ ''Error initiating capture: '' @ errbuf @ newline) []
           | Inr (DLT_OTHER n) \<Rightarrow>
               Finished 1 (out @ newline @ ''Error: unsupported datalink type '' @ pc_description pc (DLT_OTHER n) @ newline) []
           | Inr dlt \<Rightarrow>
               let expression = filter_expression (drop exp_start (arg0 # args));
                   out2 = out @ '' (type: '' @ pc_description pc dlt @ '')'' @ newline @
                     ''Using filter expression: '' @ expression @ newline in
               if \<not> pc_compile pc expression
               then Finished 1 (out2 @ ''Error compiling filter expression: '' @ pc_geterr pc @ newline) []
               else if \<not> pc_setfilter pc
               then Finished 1 (out2 @ ''Error configuring packet filter: '' @ pc_geterr pc @ newline) []
               else dump_loop nt pc dlt out2 [] (pc_captures pc)))"

subsection \<open>Reads outside of the packet\<close>

lemma ipv6_headers_inside:
  assumes "len = int (length data)" "data_offset + 2 \<le> length data"
  shows "\<exists>r. ipv6_headers len data nxt data_offset = Some r"
  using assms
proof (induction len data nxt data_offset rule: ipv6_headers.induct)
  case (1 len data nxt data_offset)
  then show ?case
    by (subst ipv6_headers.simps) (auto simp: Let_def simp del: of_nat_add of_nat_mult)
qed

text \<open>
  Where the UDP header of a packet is, according to the protocols. In IPv6 the next-header field \<open>nxt\<close> describes
  what is at \<open>off\<close>: UDP, or a hop-by-hop, routing or destination options header, which starts with the next
  next-header field and its own length in units of eight bytes, not counting the first eight. A chain ends
  early when two bytes of what comes next are not there.
\<close>

inductive udp_after :: "bytes \<Rightarrow> byte \<Rightarrow> nat \<Rightarrow> nat \<Rightarrow> bool" for d where
  udp_here: "udp_after d 17 off off"
| udp_behind: "udp_after d nxt off udp"
    if "nxt \<in> {0, 43, 60}" "off + 2 \<le> length d" "off' = off + 8 * (1 + unat (d ! (off + 1)))"
      "off' + 2 \<le> length d" "udp_after d (d ! off) off' udp"

definition udp_header_at :: "bytes \<Rightarrow> nat \<Rightarrow> bool" where
  "udp_header_at d udp \<longleftrightarrow>
     unat (d ! 0) div 16 = 4 \<and> d ! 9 = 17 \<and> udp = 4 * (unat (d ! 0) mod 16) \<and> udp \<le> length d \<or>
     unat (d ! 0) div 16 = 6 \<and> 42 \<le> length d \<and> udp_after d (d ! 6) 40 udp"

definition ip_addresses :: "InetNtop \<Rightarrow> bytes \<Rightarrow> string \<times> string" where
  "ip_addresses nt d =
     (if unat (d ! 0) div 16 = 4 then (inet4_addr nt (take 4 (drop 12 d)), inet4_addr nt (take 4 (drop 16 d)))
      else (inet6_addr nt (take 16 (drop 8 d)), inet6_addr nt (take 16 (drop 24 d))))"

lemma ipv6_headers_step:
  assumes "nxt \<in> {0, 43, 60}" "off + 2 \<le> length data"
  shows "ipv6_headers len data nxt off =
    (let off' = off + 8 * (1 + unat (data ! (off + 1))) in
     if len < int off' + 2 then Some (Inl []) else ipv6_headers len data (data ! off) off')"
  using assms by (subst ipv6_headers.simps) (auto simp: Let_def)

lemma ipv6_headers_after:
  assumes "len = int (length data)" "data_offset + 2 \<le> length data" "ipv6_headers len data nxt data_offset = Some (Inr udp)"
  shows "udp_after data nxt data_offset udp"
  using assms
proof (induction len data nxt data_offset rule: ipv6_headers.induct)
  case (1 len data nxt data_offset)
  show ?case
  proof (cases "nxt = 17")
    case True
    then show ?thesis using 1(4) by (subst (asm) ipv6_headers.simps) (auto intro: udp_here)
  next
    case False
    let ?o = "data_offset + 8 * (1 + unat (data ! (data_offset + 1)))"
    have nxt: "nxt = 0 \<or> nxt = 43 \<or> nxt = 60" and more: "\<not> len < int ?o + 2"
      and rest: "ipv6_headers len data (data ! data_offset) ?o = Some (Inr udp)"
      using 1(3,4) False by (auto simp: ipv6_headers.simps[of len data nxt data_offset] Let_def
          simp del: of_nat_add of_nat_mult split: if_splits)
    have len: "?o + 2 \<le> length data" using more 1(2) by linarith
    have "udp_after data (data ! data_offset) ?o udp"
      using 1(1)[of "data ! data_offset" "data ! (data_offset + 1)" ?o] 1(2,3) nxt False more len rest by auto
    then show ?thesis using nxt 1(3) len by (intro udp_behind[of nxt data_offset _ ?o]) auto
  qed
qed

lemma ipv6_headers_reach:
  assumes "udp_after data nxt off udp" "len = int (length data)"
  shows "ipv6_headers len data nxt off = Some (Inr udp)"
  using assms
proof (induction rule: udp_after.induct)
  case (udp_here off)
  then show ?case by (subst ipv6_headers.simps) simp
next
  case (udp_behind nxt off off' udp)
  have "\<not> len < int off' + 2" using udp_behind.hyps(4) udp_behind.prems by linarith
  then show ?case
    using udp_behind.IH[OF udp_behind.prems]
    unfolding ipv6_headers_step[OF udp_behind.hyps(1,2)] Let_def udp_behind.hyps(3)[symmetric] by simp
qed

lemma ipv6_headers_udp:
  assumes "42 \<le> length d"
  shows "ipv6_headers (int (length d)) d nxt 40 = Some (Inr udp) \<longleftrightarrow> udp_after d nxt 40 udp"
  using ipv6_headers_after[of "int (length d)" d 40 nxt udp] ipv6_headers_reach[of d nxt 40 udp "int (length d)"] assms
  by auto

lemma nibbles:
  "x AND 0xf0 = 0x40 \<longleftrightarrow> unat x div 16 = 4" "x AND 0xf0 = 0x60 \<longleftrightarrow> unat x div 16 = 6"
  "unat (x AND 0x0f) = unat x mod 16" for x :: byte
proof -
  have "list_all (\<lambda>n. let x = word_of_nat n :: byte in (x AND 0xf0 = 0x40) = (n div 16 = 4) \<and>
      (x AND 0xf0 = 0x60) = (n div 16 = 6) \<and> unat (x AND 0x0f) = n mod 16) [0..<256]" (is "list_all ?P _")
    by code_simp
  moreover have "unat x < 256" using unsigned_less[of x, where 'a = nat] by simp
  ultimately have "?P (unat x)" by (auto simp only: list_all_iff set_upt atLeastLessThan_iff)
  then show "x AND 0xf0 = 0x40 \<longleftrightarrow> unat x div 16 = 4" "x AND 0xf0 = 0x60 \<longleftrightarrow> unat x div 16 = 6"
    "unat (x AND 0x0f) = unat x mod 16"
    by (simp_all add: Let_def)
qed

lemma process_found:
  assumes "20 \<le> length d" "udp_header_at d udp"
  shows "process_ipv4_ipv6 nt (int (length d)) d [] [] =
    Some (int (udp + 8), fst (ip_addresses nt d), snd (ip_addresses nt d), [])"
proof -
  have len: "0 < length d" "6 < length d" "9 < length d" "12 + 4 \<le> length d" "16 + 4 \<le> length d" "\<not> int (length d) < 1"
    using assms(1) by auto
  consider (v4) "unat (d ! 0) div 16 = 4" "d ! 9 = 17" "udp = 4 * (unat (d ! 0) mod 16)" "udp \<le> length d"
    | (v6) "unat (d ! 0) div 16 = 6" "42 \<le> length d" "udp_after d (d ! 6) 40 udp"
    using assms(2) by (auto simp: udp_header_at_def)
  then show ?thesis
  proof cases
    case v4
    then have "\<not> int (length d) < int (unat (d ! 0 AND 0x0f) * 4)" by (simp add: nibbles)
    with v4 len show ?thesis by (simp add: process_ipv4_ipv6_def ip_addresses_def nibbles Let_def)
  next
    case v6
    then have "8 + 16 \<le> length d" "24 + 16 \<le> length d" "\<not> int (length d) < 42" by auto
    with v6 len ipv6_headers_udp[OF v6(2), of "d ! 6" udp] show ?thesis
      by (simp add: process_ipv4_ipv6_def ip_addresses_def nibbles Let_def)
  qed
qed

lemma process_not_found:
  assumes "20 \<le> length d" "\<nexists>udp. udp_header_at d udp"
  shows "\<exists>e. process_ipv4_ipv6 nt (int (length d)) d [] [] = Some (-1, [], [], e)"
proof -
  have len: "0 < length d" "6 < length d" "9 < length d" "\<not> int (length d) < 1"
    using assms(1) by auto
  consider (v4) "unat (d ! 0) div 16 = 4" | (short) "unat (d ! 0) div 16 = 6" "length d < 42"
    | (v6) "unat (d ! 0) div 16 = 6" "42 \<le> length d" | (other) "unat (d ! 0) div 16 \<notin> {4, 6}"
    by (cases "length d < 42") auto
  then show ?thesis
  proof cases
    case v4
    then have "d ! 9 \<noteq> 17 \<or> length d < 4 * (unat (d ! 0) mod 16)"
      using assms(2) by (auto simp: udp_header_at_def)
    moreover have "int (length d) < int (unat (d ! 0 AND 0x0f) * 4) \<longleftrightarrow> length d < 4 * (unat (d ! 0) mod 16)"
      by (simp only: nibbles of_nat_less_iff mult.commute)
    ultimately show ?thesis using v4 len by (auto simp: process_ipv4_ipv6_def nibbles Let_def simp del: of_nat_mult)
  next
    case v6
    obtain r where r: "ipv6_headers (int (length d)) d (d ! 6) 40 = Some r"
      using ipv6_headers_inside[of "int (length d)" d 40 "d ! 6"] v6(2) by auto
    moreover have "ipv6_headers (int (length d)) d (d ! 6) 40 \<noteq> Some (Inr udp)" for udp
      using assms(2) v6 ipv6_headers_udp[OF v6(2), of "d ! 6" udp] by (auto simp: udp_header_at_def)
    ultimately obtain e where "ipv6_headers (int (length d)) d (d ! 6) 40 = Some (Inl e)" by (cases r) auto
    moreover have "\<not> int (length d) < 42" using v6(2) by simp
    ultimately show ?thesis using v6 len by (simp add: process_ipv4_ipv6_def nibbles Let_def)
  qed (use len in \<open>auto simp: process_ipv4_ipv6_def nibbles Let_def\<close>)
qed

lemma payload_length:
  assumes "length pkt \<le> string_max_size" "i \<le> length pkt + 2 ^ 32"
  shows "u64_sub (length pkt) i > string_max_size \<longleftrightarrow> length pkt < i"
    and "i \<le> length pkt \<Longrightarrow> bytes_at pkt i (u64_sub (length pkt) i) = Some (drop i pkt)"
proof -
  show "bytes_at pkt i (u64_sub (length pkt) i) = Some (drop i pkt)" if "i \<le> length pkt"
    using that assms(1) by (simp add: bytes_at_def u64_sub_exact string_max_size_def two64_def)
  show "u64_sub (length pkt) i > string_max_size \<longleftrightarrow> length pkt < i"
  proof (cases "i \<le> length pkt")
    case True
    then show ?thesis using assms(1) by (simp add: u64_sub_exact string_max_size_def two64_def)
  next
    case False
    then have "i mod two64 = i" using assms by (simp add: string_max_size_def two64_def)
    then have "u64_sub (length pkt) i = two64 + length pkt - i"
      using False assms by (simp add: u64_sub_def two64_def)
    then show ?thesis using False assms(2) by (simp add: string_max_size_def two64_def)
  qed
qed

lemma dump_packet_ip:
  assumes "link_header dl pkt = Some (HeaderOffset h)" "length pkt \<le> string_max_size"
    and "process_ipv4_ipv6 nt (int (length pkt) - int h) (drop h pkt) [] [] = Some (r, s, t, e)"
    and "h + nat r \<le> length pkt + 2 ^ 32"
  shows "dump_packet nt dl pkt =
    (if r < 0 then Shown [] (e @ ''Error parsing IPv4/IPv6 packet. Skipping.'' @ newline)
     else if h + nat r \<le> length pkt then Shown (dump_payload s t (drop (h + nat r) pkt)) e else LengthError)"
  using payload_length[OF assms(2,4)]
  unfolding dump_packet_def assms(1) option.case link_layer.case assms(3) prod.case Let_def
  by simp

lemma udp_after_bound: "udp_after d nxt off udp \<Longrightarrow> off \<le> length d \<Longrightarrow> udp \<le> length d"
  by (induction rule: udp_after.induct) auto

lemma udp_header_bound: "udp_header_at d udp \<Longrightarrow> udp \<le> length d"
  using udp_after_bound[of d "d ! 6" 40 udp] by (auto simp: udp_header_at_def)

text \<open>
  C34. The end of a packet: when the captured bytes after the link header are at least a minimal IPv4 header,
  the dump of a packet does not read outside of it. If the IP headers lead to a UDP header, and it is there
  completely, then exactly the bytes behind it are shown, with the addresses of the packet. If the packet
  ends inside of the UDP header, the length of the payload wraps around, and the program ends with an uncaught
  \<open>std::length_error\<close>. If the headers do not lead to UDP, the packet is skipped with a message.
\<close>

theorem dump_packet_end:
  assumes "link_header dl pkt = Some (HeaderOffset h)" "h + 20 \<le> length pkt" "length pkt \<le> string_max_size"
  shows "dump_packet nt dl pkt \<noteq> Fault \<and>
    (\<forall>udp. udp_header_at (drop h pkt) udp \<longrightarrow> dump_packet nt dl pkt =
       (if h + udp + 8 \<le> length pkt
        then Shown (dump_payload (fst (ip_addresses nt (drop h pkt))) (snd (ip_addresses nt (drop h pkt)))
               (drop (h + udp + 8) pkt)) []
        else LengthError)) \<and>
    ((\<nexists>udp. udp_header_at (drop h pkt) udp) \<longrightarrow>
       (\<exists>e. dump_packet nt dl pkt = Shown [] (e @ ''Error parsing IPv4/IPv6 packet. Skipping.'' @ newline)))"
proof -
  let ?d = "drop h pkt"
  have len: "int (length pkt) - int h = int (length ?d)" and d: "20 \<le> length ?d" using assms(2) by simp_all
  have found: "dump_packet nt dl pkt = (if h + udp + 8 \<le> length pkt
      then Shown (dump_payload (fst (ip_addresses nt ?d)) (snd (ip_addresses nt ?d)) (drop (h + udp + 8) pkt)) []
      else LengthError)" if udp: "udp_header_at ?d udp" for udp
  proof -
    have "h + nat (int (udp + 8)) \<le> length pkt + 2 ^ 32"
      using udp_header_bound[OF udp] assms(2) by simp
    moreover have "process_ipv4_ipv6 nt (int (length pkt) - int h) ?d [] [] =
        Some (int (udp + 8), fst (ip_addresses nt ?d), snd (ip_addresses nt ?d), [])"
      unfolding len by (rule process_found[OF d udp])
    ultimately show ?thesis
      using dump_packet_ip[OF assms(1,3)] by (simp add: add.assoc del: of_nat_add)
  qed
  have none: "\<exists>e. dump_packet nt dl pkt = Shown [] (e @ ''Error parsing IPv4/IPv6 packet. Skipping.'' @ newline)"
    if no: "\<nexists>udp. udp_header_at ?d udp"
  proof -
    obtain e where "process_ipv4_ipv6 nt (int (length ?d)) ?d [] [] = Some (-1, [], [], e)"
      using process_not_found[OF d no] by blast
    then have "process_ipv4_ipv6 nt (int (length pkt) - int h) ?d [] [] = Some (-1, [], [], e)" by (simp only: len)
    from dump_packet_ip[OF assms(1,3) this] show ?thesis using assms(2) by simp
  qed
  have "dump_packet nt dl pkt \<noteq> Fault"
  proof (cases "\<exists>udp. udp_header_at ?d udp")
    case True
    then obtain udp where "udp_header_at ?d udp" by blast
    from found[OF this] show ?thesis by simp
  next
    case False
    from none[OF this] show ?thesis by auto
  qed
  with found none show ?thesis by blast
qed

text \<open>At an IPv4 packet of 20 bytes with protocol 17 and nothing behind its header, and at an IPv6 packet with a
  routing header.\<close>

theorem dump_packet_end_witness:
  "dump_packet \<lparr>in_ntop4 = (\<lambda>_. None), in_ntop6 = (\<lambda>_. None)\<rparr> DLT_RAW
     [0x45, 0, 0, 20, 0, 0, 0, 0, 64, 0x11, 0, 0, 10, 0, 0, 1, 10, 0, 0, 2] = LengthError \<and>
   dump_packet \<lparr>in_ntop4 = (\<lambda>_. None), in_ntop6 = (\<lambda>_. None)\<rparr> DLT_RAW
     ([0x60, 0, 0, 0, 0, 0, 43] @ replicate 33 0 @ [0x11] @ replicate 15 0 @ [1, 2]) =
   Shown (dump_payload ''unknown'' ''unknown'' [1, 2]) []"
proof
  let ?nt = "\<lparr>in_ntop4 = (\<lambda>_. None), in_ntop6 = (\<lambda>_. None)\<rparr> :: InetNtop"
  let ?a = "[0x45, 0, 0, 20, 0, 0, 0, 0, 64, 0x11, 0, 0, 10, 0, 0, 1, 10, 0, 0, 2] :: bytes"
  let ?b = "[0x60, 0, 0, 0, 0, 0, 43] @ replicate 33 0 @ [0x11] @ replicate 15 0 @ [1, 2] :: bytes"
  have "link_header DLT_RAW ?a = Some (HeaderOffset 0)" "0 + 20 \<le> length ?a" "length ?a \<le> string_max_size"
    by (simp_all add: string_max_size_def)
  note a = dump_packet_end[OF this, of ?nt]
  have "udp_header_at (drop 0 ?a) 20" by (simp add: udp_header_at_def)
  with a show "dump_packet ?nt DLT_RAW ?a = LengthError" by simp
  have "link_header DLT_RAW ?b = Some (HeaderOffset 0)" "0 + 20 \<le> length ?b" "length ?b \<le> string_max_size"
    by (simp_all add: string_max_size_def)
  note b = dump_packet_end[OF this, of ?nt]
  have "udp_after ?b 43 40 48"
    by (rule udp_behind[of _ _ _ 48]) (simp_all add: nth_append udp_here)
  then have "udp_header_at (drop 0 ?b) 48" by (simp add: udp_header_at_def)
  with b show "dump_packet ?nt DLT_RAW ?b = Shown (dump_payload ''unknown'' ''unknown'' [1, 2]) []"
    by (simp add: ip_addresses_def inet6_addr_def)
qed

subsection \<open>The segments that are printed\<close>

text \<open>What is read back from the bytes of a segment: its fields, with the checksum that is in the bytes.\<close>

lemma serialized_segment:
  assumes "5 \<le> th_doff (ts_header seg)" "th_doff (ts_header seg) < 16"
    and "sum_fits 0 (60 + buf_size (ts_payload seg))" "ts_serialize seg 0 = Inr bl"
  obtains v pl where "ts_parse ts_new (buf_of_string (bl_concatenate bl)) 0 =
      (NoError, \<lparr>ts_header = (ts_header seg)\<lparr>th_cksum := v\<rparr>, ts_payload = pl\<rparr>)"
    and "buf_str pl = buf_str (ts_payload seg)" "nu_u16 v = take 2 (drop 16 (bl_concatenate bl))"
    and "length (bl_concatenate bl) + 42 \<le> string_max_size" "bl_concatenate bl \<noteq> []"
proof -
  let ?h = "ts_header seg"
  have "unat (th_doff ?h) < 16" using assms(2) by (simp add: word_less_nat_alt)
  then have fits: "sum_fits 0 (4 * unat (th_doff ?h) + buf_size (ts_payload seg))"
    using assms(3) by (simp add: sum_fits_def)
  obtain v s where s: "th_serialize (?h\<lparr>th_cksum := v\<rparr>) = Inr s" "bl_concatenate bl = s @ buf_str (ts_payload seg)"
    and ck: "ck_value (ck_add (ck_new 0) (bl_concatenate bl)) = 0"
    using ts_serialize_string[OF assms(1) fits] assms(4) by (metis Inr_inject)
  have len: "length s = 4 * unat (th_doff ?h)" using th_serialize_length[OF s(1)] by simp
  then have size: "length (bl_concatenate bl) + 42 \<le> string_max_size" "bl_concatenate bl \<noteq> []"
    using s(2) assms(1) \<open>unat (th_doff ?h) < 16\<close> assms(3)
    by (auto simp: sum_fits_def buf_size_def string_max_size_def word_le_nat_alt)
  have "buf_ok (buf_of_string (bl_concatenate bl))" "buf_str (buf_of_string (bl_concatenate bl)) = bl_concatenate bl"
    using size(1) by (simp_all add: string_max_size_def two64_def)
  then have "np_at (np_new (buf_of_string (bl_concatenate bl))) (s @ buf_str (ts_payload seg))"
    using np_at_new s(2) by metis
  then obtain p where p: "th_parse (np_new (buf_of_string (bl_concatenate bl))) = (NoError, ?h\<lparr>th_cksum := v\<rparr>, p)"
      "np_at p (buf_str (ts_payload seg))"
    using th_parse_serialize[OF _ _ s(1)] assms(1,2) by auto
  have "nu_u16 v = take 2 (drop 16 (bl_concatenate bl))"
    using th_serialize_ok[of "?h\<lparr>th_cksum := v\<rparr>"] s assms(1) by (auto simp: c8.put_width c16.put_width c32.put_width)
  with p size show ?thesis
    using ts_parse_checked[OF _ p(1), of 0 ts_new] ck
    by (intro that[of v "np_buffer p"]) (simp_all add: np_at_def)
qed

text \<open>
  C30. A segment that \<open>TCPSegment::serialize\<close> wrote, carried by UDP over IPv4 in an Ethernet frame, is printed:
  the addresses of the datagram with the ports of the segment; its flags; the checksum that is in its bytes, as
  four hexadecimal digits, and the remark that it is correct; its sequence number, and that of its end when it
  occupies any; its acknowledgment number and window; the number of its bytes; and the dump of exactly these
  bytes, sixteen in a row. Nothing goes to the error stream.
\<close>

theorem dump_shows_segment:
  assumes "5 \<le> th_doff (ts_header seg)" "th_doff (ts_header seg) < 16"
    and "sum_fits 0 (60 + buf_size (ts_payload seg))" "ts_serialize seg 0 = Inr bl"
    and "length eth = 14" "eth ! 12 = 0x08" "eth ! 13 = 0x00"
    and "length ip = 20" "ip ! 0 = 0x45" "ip ! 9 = 0x11" "length udp = 8"
    and "in_ntop4 nt (take 4 (drop 12 ip)) = Some src" "in_ntop4 nt (take 4 (drop 16 ip)) = Some dst"
    and "h = ts_header seg" "n = length (buf_str (ts_payload seg)) + (if th_syn h then 1 else 0) + (if th_fin h then 1 else 0)"
  shows "\<exists>cksum. nu_u16 cksum = take 2 (drop 16 (bl_concatenate bl)) \<and>
    dump_packet nt DLT_EN10MB (eth @ ip @ udp @ bl_concatenate bl) = Shown
     (src @ '':'' @ dec_string (unat (th_sport h)) @ '' > '' @ dst @ '':'' @ dec_string (unat (th_dport h)) @ newline @
      ''    Flags ['' @ (if th_urg h then ''U'' else []) @ (if th_psh h then ''P'' else []) @ (if th_rst h then ''R'' else []) @
      (if th_syn h then ''S'' else []) @ (if th_fin h then ''F'' else []) @ (if th_ack h then ''.'' else []) @
      ''] cksum 0x'' @ set_width CHR ''0'' 4 (hex_string (unat cksum)) @ '' (correct) seq '' @
      dec_string (unat (raw_value (th_seqno h))) @
      (if n = 0 then [] else '':'' @ dec_string (unat (raw_value (th_seqno h) + of_nat n))) @
      '' ack '' @ dec_string (unat (raw_value (th_ackno h))) @ '' win '' @ dec_string (unat (th_win h)) @
      '' length '' @ dec_string (length (bl_concatenate bl)) @ newline @
      dump_rows 8 0 (bl_concatenate bl) @ newline) []"
proof -
  let ?pkt = "eth @ ip @ udp @ bl_concatenate bl"
  obtain v pl where parse: "ts_parse ts_new (buf_of_string (bl_concatenate bl)) 0 =
      (NoError, \<lparr>ts_header = (ts_header seg)\<lparr>th_cksum := v\<rparr>, ts_payload = pl\<rparr>)"
    and pl: "buf_str pl = buf_str (ts_payload seg)" and v: "nu_u16 v = take 2 (drop 16 (bl_concatenate bl))"
    and len: "length (bl_concatenate bl) + 42 \<le> string_max_size" and ne: "bl_concatenate bl \<noteq> []"
    by (rule serialized_segment[OF assms(1-4)])
  have link: "link_header DLT_EN10MB ?pkt = Some (HeaderOffset 14)"
    using assms(5-7) by (simp add: link_ethertype_def link_u16_def nth_append push_bit_eq_mult)
  have process: "process_ipv4_ipv6 nt (int (length ?pkt) - int 14) (drop 14 ?pkt) [] [] = Some (28, src, dst, [])"
    using assms(5,8-13) by (simp add: process_ipv4_ipv6_def nth_append inet4_addr_def)
  have size: "length ?pkt \<le> string_max_size" "14 + nat 28 \<le> length ?pkt + 2 ^ 32" using len assms(5,8,11) by simp_all
  have "n < 2 ^ 32" using assms(3,15) by (simp add: sum_fits_def buf_size_def)
  then have pos: "(0 :: 32 word) < of_nat n \<longleftrightarrow> n \<noteq> 0" by (simp add: word_less_nat_alt unat_of_nat)
  have shown: "dump_packet nt DLT_EN10MB ?pkt = Shown (dump_payload src dst (bl_concatenate bl)) []"
    using dump_packet_ip[OF link size(1) process size(2)] assms(5,8,11) by simp
  have "ts_length_in_sequence_space \<lparr>ts_header = (ts_header seg)\<lparr>th_cksum := v\<rparr>, ts_payload = pl\<rparr> = n"
    using assms(14,15) pl by (simp add: ts_length_in_sequence_space_def buf_size_def)
  then show ?thesis
    using v unfolding shown dump_payload_def parse assms(14)
    by (intro exI[of _ v])
      (simp add: Let_def segment_line_def flag_string_def pos wi_add_def hexdump_rows[OF ne] del: append_eq_append_conv)
qed

text \<open>Three bytes at the start of a connection's stream.\<close>

theorem dump_shows_segment_witness:
  "\<exists>bl cksum. ts_serialize (ts_new\<lparr>ts_payload := buf_of_string [1, 2, 3], ts_header := th_new\<lparr>th_ack := True\<rparr>\<rparr>) 0 = Inr bl \<and>
    dump_packet \<lparr>in_ntop4 = (\<lambda>_. Some ''10.0.0.1''), in_ntop6 = (\<lambda>_. None)\<rparr> DLT_EN10MB
      ((replicate 12 0 @ [8, 0]) @ ([0x45, 0, 0, 20, 0, 0, 0, 0, 64, 0x11] @ replicate 10 0) @ replicate 8 0 @ bl_concatenate bl) =
    Shown (''10.0.0.1:0 > 10.0.0.1:0'' @ newline @ ''    Flags [.] cksum 0x'' @ set_width CHR ''0'' 4 (hex_string (unat (cksum :: 16 word))) @
      '' (correct) seq 0:3 ack 0 win 0 length '' @ dec_string (length (bl_concatenate bl)) @ newline @
      dump_rows 8 0 (bl_concatenate bl) @ newline) []"
proof -
  let ?seg = "ts_new\<lparr>ts_payload := buf_of_string [1, 2, 3], ts_header := th_new\<lparr>th_ack := True\<rparr>\<rparr>"
  have ok: "5 \<le> th_doff (ts_header ?seg)" "th_doff (ts_header ?seg) < 16" "sum_fits 0 (60 + buf_size (ts_payload ?seg))"
    by (simp_all add: ts_new_def th_new_def sum_fits_def buf_size_def)
  obtain bl where bl: "ts_serialize ?seg 0 = Inr bl" by (rule ts_parse_serialize[OF ok])
  have dec: "dec_string 0 = ''0''" "dec_string 3 = ''3''" by code_simp+
  show ?thesis
    using dump_shows_segment[OF ok bl, of "replicate 12 0 @ [8, 0]"
        "[0x45, 0, 0, 20, 0, 0, 0, 0, 64, 0x11] @ replicate 10 0" "replicate 8 0"
        "\<lparr>in_ntop4 = (\<lambda>_. Some ''10.0.0.1''), in_ntop6 = (\<lambda>_. None)\<rparr>" "''10.0.0.1''" "''10.0.0.1''" _ 3] bl
    by (auto simp: nth_append ts_new_def th_new_def dec)
qed

text \<open>A segment whose checksum is wrong is not read: what is printed is an empty header.\<close>

lemma bad_checksum_shows_nothing:
  assumes "ck_value (ck_add (ck_new 0) payload) \<noteq> 0"
  shows "dump_payload src dst payload = segment_line src dst BadChecksum ts_new (length payload) @ hexdump payload 8"
  using assms by (simp add: dump_payload_def ts_parse_def)

end
