(* ===== verification/Spec2Isabelle.thy ===== *)
theory Spec2Isabelle
  imports Reassembler_Progress Sender_Correct TCP_Connection Tap_Adapter Network_Simulator Stream_Copy TCP_Benchmark Reliable_Delivery UDP_Dump
begin

text \<open>
  A model of the user-space TCP implementation \<open>sponge\<close>: the library under \<open>src/libsponge\<close> and the programs
  under \<open>src/apps\<close>. File names below are relative to these two directories.

  \<^bold>\<open>Parts and how they interact.\<close> Bytes written by an application enter the \<open>ByteStream\<close> of a \<open>TCPSender\<close>,
  which cuts them into segments, keeps those that are not acknowledged and sends them again when its timer
  expires. The segments of the peer enter a \<open>TCPReceiver\<close>, which finds their place in the stream
  (\<open>WrappingInt32\<close>) and hands them to a \<open>StreamReassembler\<close>, which writes them in order into another
  \<open>ByteStream\<close>. A \<open>TCPConnection\<close> owns one sender and one receiver, gives every arriving segment to both, and
  stamps every departing one with the receiver's acknowledgment number and window. A \<open>TCPSpongeSocket\<close>
  runs a connection in an \<open>EventLoop\<close>, between its owner's descriptor and an adapter. The adapters put
  segments into UDP datagrams, into IPv4 datagrams on a TUN device, or, through a \<open>NetworkInterface\<close> that
  resolves addresses by ARP, into Ethernet frames on a TAP device. A \<open>Router\<close> joins several interfaces. The
  programs copy streams, read command lines, measure, simulate a network, and dump packets.

  \<^bold>\<open>Conventions.\<close> A byte is an \<open>8 word\<close>, and the 16- and 32-bit integers of the protocols are words. \<open>size_t\<close>
  and \<open>uint64_t\<close> are natural numbers below \<open>two64\<close> with the wrap-around written out (\<open>u64_add\<close>, \<open>u64_sub\<close>).
  A class is a record, its methods are functions from state to state, and they keep the names of the
  source behind a prefix for the class. A call that may throw has a result in \<open>cpp_error + 'a\<close>, with
  \<open>Inl\<close> for the exception; one that may not return has a result in \<open>'a option\<close>, with \<open>None\<close> for that. The
  kernel, \<open>poll\<close>, the resolver, libpcap, the random numbers and the clock are arguments.

  \<^bold>\<open>Theories, in the order of the layers.\<close>
  \<^item> \<open>Sponge_Prelude\<close>: bytes, 64-bit arithmetic, exceptions, lemmas on lists.
  \<^item> \<open>Byte_Stream\<close> (\<open>byte_stream.cc\<close>): the record \<open>ByteStream\<close> and its methods \<open>bs_...\<close>.
  \<^item> \<open>Wrapping_Integers\<close> (\<open>wrapping_integers.cc\<close>): \<open>wrap\<close>, \<open>unwrap\<close> and the operators.
  \<^item> \<open>Net_Buffer\<close>, \<open>Net_Parser\<close>, \<open>Internet_Checksum\<close>, \<open>Net_Print\<close>, \<open>Net_Address\<close> (\<open>util/buffer.cc\<close>, \<open>util/parser.cc\<close>,
    \<open>util/util.cc\<close>, \<open>util/address.cc\<close> and the printing of headers): buffers \<open>buf_...\<close>, the parser \<open>np_...\<close> and
    unparser \<open>nu_...\<close>, the checksum \<open>ck_...\<close>, hexdump, socket addresses \<open>ad_...\<close>.
  \<^item> \<open>TCP_Segment\<close>, \<open>IPv4_Datagram\<close>, \<open>Ethernet_Frame\<close> (\<open>tcp_helpers/tcp_header.cc\<close>, \<open>tcp_segment.cc\<close>,
    \<open>ipv4_header.cc\<close>, \<open>ipv4_datagram.cc\<close>, \<open>ethernet_header.cc\<close>, \<open>ethernet_frame.cc\<close>, \<open>arp_message.cc\<close>): the
    formats, their \<open>parse\<close> and \<open>serialize\<close>.
  \<^item> \<open>Stream_Reassembler\<close> (\<open>stream_reassembler.cc\<close>): \<open>push_substring\<close> with \<open>overlap_handler\<close>,
    \<open>missing_middle_handler\<close> and \<open>overlap_merger\<close>; its theorems are in \<open>Reassembler_Safety\<close> and
    \<open>Reassembler_Progress\<close>.
  \<^item> \<open>TCP_Receiver\<close> (\<open>tcp_receiver.cc\<close>): the methods \<open>tr_...\<close>.
  \<^item> \<open>TCP_Config\<close>, \<open>TCP_Sender\<close> (\<open>tcp_helpers/tcp_config.hh\<close>, \<open>tcp_sender.cc\<close>): the methods \<open>tx_...\<close>; the invariant
    is in \<open>Sender_Invariant\<close>, the theorems in \<open>Sender_Correct\<close>.
  \<^item> \<open>TCP_State\<close>, \<open>TCP_Connection\<close> (\<open>tcp_helpers/tcp_state.cc\<close>, \<open>tcp_connection.cc\<close>): the named states and the
    methods \<open>tc_...\<close>.
  \<^item> \<open>Reliable_Delivery\<close>: a sender and a receiver joined by a network that loses, repeats and reorders.
  \<^item> \<open>FD_Adapters\<close>, \<open>Tap_Adapter\<close> (\<open>tcp_helpers/fd_adapter.cc\<close>, \<open>tcp_over_ip.cc\<close>, \<open>lossy_fd_adapter.hh\<close>,
    \<open>tuntap_adapter.cc\<close>): the adapters.
  \<^item> \<open>Ordered_Map\<close>, \<open>Network_Interface\<close>, \<open>IP_Router\<close> (\<open>network_interface.cc\<close>, \<open>router.cc\<close>): \<open>std::map\<close> as an
    ordered list, the methods \<open>ni_...\<close> and \<open>rt_...\<close>.
  \<^item> \<open>Descriptors\<close>, \<open>Event_Loop\<close>, \<open>Sponge_Socket\<close> (\<open>util/file_descriptor.cc\<close>, \<open>util/socket.cc\<close>,
    \<open>util/eventloop.cc\<close>, \<open>tcp_helpers/tcp_sponge_socket.cc\<close>): the methods \<open>fd_...\<close>, \<open>el_...\<close> and \<open>sp_...\<close>.
  \<^item> \<open>Stream_Copy\<close>, \<open>Command_Line\<close>, \<open>UDP_Dump\<close>, \<open>TCP_Benchmark\<close>, \<open>Network_Simulator\<close> (\<open>bidirectional_stream_copy.cc\<close>;
    \<open>get_config\<close> of \<open>tcp_udp.cc\<close>, \<open>tcp_ipv4.cc\<close> and \<open>tcp_ip_ethernet.cc\<close>; \<open>udp_tcpdump.cc\<close>; \<open>tcp_benchmark.cc\<close>;
    \<open>network_simulator.cc\<close>): the programs.

  \<^bold>\<open>What is shown.\<close>
  \<^item> Streams: a byte stream refines a log of written and read bytes, as long as nothing is written after
    the end of the input (the code would accept it), and every sequence of calls keeps it well formed.
  \<^item> Reassembly: fragments inside the window yield a prefix of the peer's stream; all of it, with its end,
    when the peer keeps to one segmentation. Outside of these conditions the code can lose bytes or not
    return, which is shown as well.
  \<^item> Sender and receiver: the segments sent are pieces of one segmentation; the outstanding ones are those
    not acknowledged; the window is filled and kept; the timeout backs off; the acknowledgment number is
    that of the first missing byte. Together: reliable delivery over an unreliable network. A final mark
    that arrives at a full receiver is acknowledged although it is dropped.
  \<^item> Connection: the three-way handshake, the answers to segments, the abort after too many
    retransmissions, resets. Data opens a listening connection, against its test.
  \<^item> Formats: serializing and parsing are inverse for segments, datagrams and ARP messages; a change of one
    byte of a segment is detected; the result of a parse in every case.
  \<^item> Adapters and interfaces: segments arrive at the mirrored adapter, over TAP after one ARP exchange; the
    tables of an interface stay consistent; a long tick does not return while a request is pending.
  \<^item> Event loop, socket and copying: exactly the ready rules run, in order; bytes are neither lost nor
    invented between the descriptors and the connection; writing hands over everything.
  \<^item> Programs: the options of the command lines, the printed form of a captured segment and the ways in
    which the dump of a packet ends, and the failure of the simulator, whose router forwards nothing.

  \<^bold>\<open>Interfaces.\<close> Contracts between components are locales, interpreted on the model's definitions:
  \<open>bounded_stream\<close>, \<open>sequence_space\<close>, \<open>net_codec\<close>, \<open>segment_channel\<close>, \<open>key_store\<close>, \<open>option_loop\<close>, \<open>event_rules\<close> and
  \<open>keeping_rules\<close>.

  \<^bold>\<open>Loops and bounds.\<close> There is no fuel. A loop that ends is a total function; one that may not is a
  partial function whose value is \<open>None\<close> when it does not return, and theorems about results state that
  it returns: \<open>mm_scan\<close> under the conditions of \<open>Reassembler_Progress\<close>, \<open>tx_fill_loop\<close> in every reachable
  state, \<open>ni_flush\<close> and \<open>ni_resend\<close> under those of the interface's invariant, \<open>bench_write\<close> as shown in
  \<open>TCP_Benchmark\<close>. The main loops of the
  socket, of the stream copy and of the benchmark run as long as their environment makes them; what is
  shown of them holds in every state they reach, or of their result if they end. The bounds in the
  statements come from the width of integers: less than \<open>2 ^ 62\<close> bytes for
  64-bit counters, checkpoints below \<open>2 ^ 63 - 2 ^ 31\<close> for \<open>unwrap\<close>, which is wrong above \<open>2 ^ 63\<close>, capacities below
  \<open>2 ^ 31\<close> for a receiver, and at most 65535 with less than \<open>2 ^ 31 - 3\<close> bytes for
  reliable delivery, as windows have 16 bits and old acknowledgments must stay distinguishable.

  \<^bold>\<open>Not modelled.\<close> The start and the joining of the socket's thread, its socket pair and
  \<open>wait_until_closed\<close>; the system calls that \<open>bind\<close>, \<open>connect\<close>, \<open>listen\<close> and \<open>setsockopt\<close> pass on; the opening
  of TUN and TAP devices (\<open>util/tun.cc\<close>), one \<open>ioctl\<close>; the clock and the seeding of the random generator;
  debugging output and measured times; the main functions of the TCP programs, and \<open>tcp_native.cc\<close>,
  \<open>tun.cc\<close> and \<open>webget.cc\<close>, which only call the operating system or such a socket and print.
\<close>

end
